(* ===== verification/Prelude.thy ===== *)
theory Prelude
  imports Main "HOL-Library.Word" "HOL-Library.Multiset" "HOL-Library.Code_Target_Numeral"
begin

unbundle bit_operations_syntax

text \<open>
  Shared vocabulary of the development.

  The kernel is built with cargo's dev profile (the top-level Makefile), so an arithmetic overflow,
  an index out of range, a failed \<open>expect\<close> and an explicit \<open>panic!\<close> all abort: control never
  comes back to the caller. Such a branch is the value \<^const>\<open>None\<close> of an option type, written
  \<open>may_stop\<close>; an endless loop is the same value, since a loop that may not end is a partial
  function into \<open>option\<close>. A Rust \<open>Result<T, E>\<close> is the sum \<open>E + T\<close> with \<^const>\<open>Inl\<close> for
  \<open>Err\<close>, and a Rust \<open>Option\<close> is an option of its own inside the result.
\<close>

section \<open>Machine types\<close>

type_synonym u8 = "8 word"
type_synonym u16 = "16 word"
type_synonym u32 = "32 word"
type_synonym u64 = "64 word"
type_synonym bytes = "u8 list"

type_synonym 'a may_stop = "'a option"

text \<open>\<open>usize\<close> and \<open>u64\<close> quantities that are only added, compared and divided are natural
  numbers below \<^term>\<open>(2::nat) ^ 64\<close>; the checked operations below abort where the dev build does.\<close>

definition u64_add :: "nat \<Rightarrow> nat \<Rightarrow> nat may_stop" where
  "u64_add a b = (if a + b < 2 ^ 64 then Some (a + b) else None)"

definition u64_sub :: "nat \<Rightarrow> nat \<Rightarrow> nat may_stop" where
  "u64_sub a b = (if b \<le> a then Some (a - b) else None)"

definition u64_mul :: "nat \<Rightarrow> nat \<Rightarrow> nat may_stop" where
  "u64_mul a b = (if a * b < 2 ^ 64 then Some (a * b) else None)"

definition div_ceil :: "nat \<Rightarrow> nat \<Rightarrow> nat" where
  "div_ceil a b = (if a mod b = 0 then a div b else a div b + 1)"

definition PAGE_SIZE :: nat where
  "PAGE_SIZE = 4096"

section \<open>Collections of facts\<close>

named_theorems checked_simps \<open>when a checked operation returns\<close>

lemma u64_add_eq_Some [checked_simps]: "u64_add a b = Some c \<longleftrightarrow> c = a + b \<and> a + b < 2 ^ 64"
  by (auto simp: u64_add_def)

lemma u64_sub_eq_Some [checked_simps]: "u64_sub a b = Some c \<longleftrightarrow> c = a - b \<and> b \<le> a"
  by (auto simp: u64_sub_def)

lemma u64_mul_eq_Some [checked_simps]: "u64_mul a b = Some c \<longleftrightarrow> c = a * b \<and> a * b < 2 ^ 64"
  by (auto simp: u64_mul_def)

section \<open>Rounding up\<close>

lemma less_div_ceil_iff: "0 < b \<Longrightarrow> i < div_ceil a b \<longleftrightarrow> i * b < a"
proof -
  assume b: "0 < b"
  have a: "a div b * b + a mod b = a" by simp
  show ?thesis
  proof (cases "a mod b = 0")
    case True
    then have "a = a div b * b" using a by simp
    then show ?thesis using b True by (simp add: div_ceil_def less_mult_imp_div_less)
        (metis True \<open>a = a div b * b\<close> mult_less_cancel2)
  next
    case False
    then have "i < div_ceil a b \<longleftrightarrow> i \<le> a div b" by (simp add: div_ceil_def) linarith
    also have "\<dots> \<longleftrightarrow> i * b \<le> a" using b by (simp add: less_eq_div_iff_mult_less_eq)
    also have "\<dots> \<longleftrightarrow> i * b < a" using False by (metis le_less mod_mult_self2_is_0)
    finally show ?thesis .
  qed
qed

lemma div_ceil_bound: "0 < b \<Longrightarrow> a \<le> div_ceil a b * b"
  using less_div_ceil_iff[of b "div_ceil a b" a] by simp

section \<open>Lists\<close>

lemma nth_list_update_if:
  "i < length xs \<Longrightarrow> xs[j := v] ! i = (if i = j then v else xs ! i)"
  by (simp add: nth_list_update)

end
