(* ===== verification/Bitmap.thy ===== *)
theory Bitmap
  imports Prelude
begin

text \<open>
  Byte-array bitmaps, LSB first: the representation shared by the physical frame allocator
  (\<open>kernel/src/mm/pmm.rs\<close>), the PondFS data-block bitmap (\<open>kernel/src/fs/pondfs/mod.rs\<close>), its
  formatter (\<open>tools/mkpondfs\<close>) and the IRQ vector pool (\<open>arch/x86_64/idt.rs\<close>). The components
  keep their own operations; the facts about \<open>|= 1 << bit\<close> and \<open>&= !(1 << bit)\<close> are proved once
  here, over the abstract view \<open>bit_at\<close>.
\<close>

definition bit_at :: "bytes \<Rightarrow> nat \<Rightarrow> bool" where
  "bit_at bm i \<longleftrightarrow> bit (bm ! (i div 8)) (i mod 8)"

definition set_bit_at :: "bytes \<Rightarrow> nat \<Rightarrow> bytes" where
  "set_bit_at bm i = bm[i div 8 := bm ! (i div 8) OR push_bit (i mod 8) 1]"

definition clear_bit_at :: "bytes \<Rightarrow> nat \<Rightarrow> bytes" where
  "clear_bit_at bm i = bm[i div 8 := bm ! (i div 8) AND NOT (push_bit (i mod 8) 1)]"

lemma length_set_bit_at [simp]: "length (set_bit_at bm i) = length bm"
  by (simp add: set_bit_at_def)

lemma length_clear_bit_at [simp]: "length (clear_bit_at bm i) = length bm"
  by (simp add: clear_bit_at_def)

text \<open>The three ways the sources test a bit agree with \<open>bit_at\<close>.\<close>

lemma shift_test_bit: "drop_bit n (b :: u8) AND 1 = 1 \<longleftrightarrow> bit b n"
  by (simp add: and_one_eq bit_iff_odd_drop_bit odd_iff_mod_2_eq_one)

lemma mask_test_bit: "n < 8 \<Longrightarrow> (b :: u8) AND push_bit n 1 = 0 \<longleftrightarrow> \<not> bit b n"
proof -
  assume n: "n < 8"
  have "bit (b AND push_bit n 1) k \<longleftrightarrow> bit b k \<and> k = n" for k
    using n by (auto simp: bit_simps)
  then show ?thesis by (metis bit_0_eq bit_eq_iff bot_apply bot_bool_def)
qed

lemma index_eq_div_mod: "i div 8 = j div 8 \<Longrightarrow> i mod 8 = j mod 8 \<Longrightarrow> i = (j::nat)"
  by (metis div_mult_mod_eq)

lemma div8_less_length: "i < 8 * length bm \<Longrightarrow> i div 8 < length bm"
  by (simp add: less_mult_imp_div_less mult.commute)

lemma bit_at_set_bit_at [simp]:
  "i < 8 * length bm \<Longrightarrow> bit_at (set_bit_at bm i) j \<longleftrightarrow> j = i \<or> bit_at bm j"
proof -
  assume i: "i < 8 * length bm"
  then have l: "i div 8 < length bm" by (rule div8_less_length)
  show ?thesis
  proof (cases "i div 8 = j div 8")
    case True
    have j8: "j mod 8 < LENGTH(8)" by simp
    have "bit (bm ! (i div 8) OR push_bit (i mod 8) 1) (j mod 8)
       \<longleftrightarrow> bit (bm ! (i div 8)) (j mod 8) \<or> i mod 8 = j mod 8"
      using j8 by (auto simp: bit_simps)
    with True l show ?thesis
      using index_eq_div_mod[OF True] by (auto simp: bit_at_def set_bit_at_def)
  next
    case False
    with l show ?thesis by (auto simp: bit_at_def set_bit_at_def)
  qed
qed

lemma bit_at_clear_bit_at [simp]:
  "i < 8 * length bm \<Longrightarrow> bit_at (clear_bit_at bm i) j \<longleftrightarrow> j \<noteq> i \<and> bit_at bm j"
proof -
  assume i: "i < 8 * length bm"
  then have l: "i div 8 < length bm" by (rule div8_less_length)
  show ?thesis
  proof (cases "i div 8 = j div 8")
    case True
    have j8: "j mod 8 < LENGTH(8)" by simp
    have "bit (bm ! (i div 8) AND NOT (push_bit (i mod 8) 1)) (j mod 8)
       \<longleftrightarrow> bit (bm ! (i div 8)) (j mod 8) \<and> i mod 8 \<noteq> j mod 8"
      using j8 by (auto simp: bit_simps)
    with True l show ?thesis
      using index_eq_div_mod[OF True] by (auto simp: bit_at_def clear_bit_at_def)
  next
    case False
    with l show ?thesis by (auto simp: bit_at_def clear_bit_at_def)
  qed
qed

lemma bit_at_all_ones: "i < 8 * n \<Longrightarrow> bit_at (replicate n 0xFF) i"
proof -
  assume "i < 8 * n"
  then have "i div 8 < n" by (simp add: less_mult_imp_div_less mult.commute)
  moreover have "bit (0xFF :: u8) (i mod 8)"
  proof -
    have "bit (mask 8 :: u8) (i mod 8)" by (simp only: bit_mask_iff) simp
    then show ?thesis by (simp add: mask_eq_exp_minus_1)
  qed
  ultimately show ?thesis by (simp add: bit_at_def)
qed

lemma bit_at_zeros: "i < 8 * n \<Longrightarrow> \<not> bit_at (replicate n 0) i"
  by (simp add: bit_at_def less_mult_imp_div_less mult.commute)

end
