(* ===== verification/Boot_Info.thy ===== *)
theory Boot_Info
  imports Prelude
begin

text \<open>
  The boot protocol of \<open>libs/shared/src/boot_info.rs\<close>: what the bootloader hands to the kernel.
  Pointers are the natural numbers of the addresses they hold; the memory map, a slice behind a
  pointer and a count in the source, is the list of its regions.
\<close>

datatype PixelFormat = Bgrx8888 | Rgbx8888 | UnknownFormat

datatype MemoryKind =
    Usable
  | BootloaderReclaimable
  | KernelAndModules
  | AcpiReclaimable
  | AcpiNvs
  | Reserved
  | BadMemory
  | FramebufferMemory

record MemoryRegion =
  mr_base :: nat
  mr_length :: nat
  mr_kind :: MemoryKind

record Framebuffer =
  fb_base :: nat
  fb_width :: nat
  fb_height :: nat
  fb_pitch :: nat
  fb_bits_per_pixel :: nat
  fb_pixel_format :: PixelFormat

record BootInfo =
  bi_magic :: nat
  bi_version :: nat
  bi_framebuffer :: Framebuffer
  bi_memory_map :: "MemoryRegion list"
  bi_rsdp_phys :: nat
  bi_cmdline_ptr :: nat
  bi_cmdline_len :: nat
  bi_hhdm_offset :: nat

text \<open>The bytes of \<open>PondOSB\<close> and a zero byte, read as a little-endian number.\<close>

definition BOOT_INFO_MAGIC :: nat where
  "BOOT_INFO_MAGIC = foldr (\<lambda>b acc. b + 256 * acc) [0x50, 0x6F, 0x6E, 0x64, 0x4F, 0x53, 0x42, 0] 0"

definition BOOT_INFO_VERSION :: nat where
  "BOOT_INFO_VERSION = 1"

definition HHDM_OFFSET :: nat where
  "HHDM_OFFSET = 0xFFFF800000000000"

end
