(* ===== verification/Run_Search.thy ===== *)
theory Run_Search
  imports Prelude
begin

text \<open>
  First-fit search for a run of free positions. The frame allocator (\<open>alloc_contig\<close>) and the search
  for a free range of user pages (\<open>find_user_vm_range\<close>) both scan upwards, count the current run of
  free positions and stop when it is long enough; this is the loop invariant they share. \<open>F\<close> is the
  set of free positions, \<open>n\<close> the length wanted, \<open>pos\<close> the next position and \<open>run\<close> the count.
\<close>

definition is_run :: "nat set \<Rightarrow> nat \<Rightarrow> nat \<Rightarrow> bool" where
  "is_run F start n \<longleftrightarrow> {start..<start + n} \<subseteq> F"

definition run_inv :: "nat set \<Rightarrow> nat \<Rightarrow> nat \<Rightarrow> nat \<Rightarrow> bool" where
  "run_inv F n pos run \<longleftrightarrow> run < n \<and> run \<le> pos \<and> {pos - run..<pos} \<subseteq> F
     \<and> (run < pos \<longrightarrow> pos - run - 1 \<notin> F) \<and> (\<forall>s. s + n \<le> pos \<longrightarrow> \<not> is_run F s n)"

lemma run_inv_start: "0 < n \<Longrightarrow> run_inv F n 0 0"
  by (auto simp: run_inv_def)

lemma run_inv_used:
  assumes "run_inv F n pos run" and "pos \<notin> F"
  shows "run_inv F n (pos + 1) 0"
proof -
  have "\<not> is_run F s n" if "s + n \<le> pos + 1" for s
  proof (cases "s + n \<le> pos")
    case False
    then have "s + n = pos + 1" using that by simp
    then have "pos \<in> {s..<s + n}" using assms(1) by (auto simp: run_inv_def)
    then show ?thesis using assms(2) by (auto simp: is_run_def)
  qed (use assms(1) in \<open>auto simp: run_inv_def\<close>)
  then show ?thesis using assms by (auto simp: run_inv_def)
qed

lemma run_inv_free:
  assumes inv: "run_inv F n pos run" and free: "pos \<in> F" and ne: "run + 1 \<noteq> n"
  shows "run_inv F n (pos + 1) (run + 1)"
proof -
  have "\<not> is_run F s n" if "s + n \<le> pos + 1" for s
  proof (cases "s + n \<le> pos")
    case False
    then have s: "s + n = pos + 1" using that by simp
    then have "run < pos" using inv ne by (auto simp: run_inv_def)
    then have "pos - run - 1 \<in> {s..<s + n}" using s inv ne by (auto simp: run_inv_def)
    then show ?thesis using inv \<open>run < pos\<close> by (auto simp: is_run_def run_inv_def)
  qed (use inv in \<open>auto simp: run_inv_def\<close>)
  moreover have "{pos + 1 - (run + 1)..<pos + 1} \<subseteq> F"
    using inv free by (auto simp: run_inv_def subset_iff less_Suc_eq)
  ultimately show ?thesis using inv ne by (auto simp: run_inv_def)
qed

lemma run_inv_done:
  assumes inv: "run_inv F n pos run" and free: "pos \<in> F" and eq: "run + 1 = n"
  shows "is_run F (pos - run) n" and "\<And>s. s < pos - run \<Longrightarrow> \<not> is_run F s n"
proof -
  have "{pos - run..<pos + 1} \<subseteq> F"
    using inv free by (auto simp: run_inv_def subset_iff less_Suc_eq)
  moreover have "pos - run + n = pos + 1" using inv eq by (auto simp: run_inv_def)
  ultimately show "is_run F (pos - run) n" by (simp add: is_run_def)
  show "\<And>s. s < pos - run \<Longrightarrow> \<not> is_run F s n" using inv eq by (auto simp: run_inv_def)
qed

end
