(* ===== verification/Pmm.thy ===== *)
theory Pmm
  imports Bitmap Boot_Info Run_Search
begin

text \<open>
  The physical frame allocator, \<open>kernel/src/mm/pmm.rs\<close>. The record \<open>pmm\<close> is the struct \<open>Pmm\<close>;
  \<open>frame_state\<close> holds the three statics \<open>PMM\<close>, \<open>TOTAL_FRAMES\<close> and \<open>FREE_FRAMES\<close>. The bitmap
  is the byte list the slice denotes; that its own frames are never handed out is a theorem about
  \<open>pmm_init\<close>, not part of the representation.
\<close>

record pmm =
  bitmap :: bytes
  base_pfn :: nat
  total_pfns :: nat
  next_hint :: nat

record frame_state =
  PMM :: "pmm option"
  TOTAL_FRAMES :: nat
  FREE_FRAMES :: nat

definition is_free :: "MemoryKind \<Rightarrow> bool" where
  "is_free kind = (case kind of Usable \<Rightarrow> True | BootloaderReclaimable \<Rightarrow> True | _ \<Rightarrow> False)"

section \<open>Bitmap operations\<close>

definition pmm_set :: "pmm \<Rightarrow> nat \<Rightarrow> pmm may_stop" where
  "pmm_set p pfn = (if pfn div 8 < length (bitmap p)
     then Some (p\<lparr>bitmap := (bitmap p)[pfn div 8 := bitmap p ! (pfn div 8) OR push_bit (pfn mod 8) 1]\<rparr>)
     else None)"

definition pmm_clear :: "pmm \<Rightarrow> nat \<Rightarrow> pmm may_stop" where
  "pmm_clear p pfn = (if pfn div 8 < length (bitmap p)
     then Some (p\<lparr>bitmap := (bitmap p)[pfn div 8 := bitmap p ! (pfn div 8) AND NOT (push_bit (pfn mod 8) 1)]\<rparr>)
     else None)"

definition pmm_is_set :: "pmm \<Rightarrow> nat \<Rightarrow> bool may_stop" where
  "pmm_is_set p pfn = (if pfn div 8 < length (bitmap p)
     then Some (drop_bit (pfn mod 8) (bitmap p ! (pfn div 8)) AND 1 = 1)
     else None)"

section \<open>Single-frame allocation\<close>

text \<open>The search loop. The outer \<^const>\<open>None\<close> is a loop that never ends, the inner one an abort.\<close>

partial_function (option) alloc_one_loop ::
  "pmm \<Rightarrow> nat \<Rightarrow> nat \<Rightarrow> ((nat option \<times> pmm) may_stop) option" where
  "alloc_one_loop p start pfn0 =
     (let pfn = (if total_pfns p \<le> pfn0 then 0 else pfn0) in
      case pmm_is_set p pfn of
        None \<Rightarrow> Some None
      | Some s \<Rightarrow>
          (if \<not> s then
             (case pmm_set p pfn of
                None \<Rightarrow> Some None
              | Some p' \<Rightarrow> Some (Some (Some (base_pfn p' + pfn), p'\<lparr>next_hint := pfn + 1\<rparr>)))
           else if pfn + 1 = start then Some (Some (None, p))
           else alloc_one_loop p start (pfn + 1)))"

definition alloc_one :: "pmm \<Rightarrow> ((nat option \<times> pmm) may_stop) option" where
  "alloc_one p = alloc_one_loop p (next_hint p) (next_hint p)"

definition free_one :: "pmm \<Rightarrow> nat \<Rightarrow> pmm may_stop" where
  "free_one p pfn = map_option
     (\<lambda>p'. if pfn < next_hint p' then p'\<lparr>next_hint := pfn\<rparr> else p') (pmm_clear p pfn)"

text \<open>\<open>fetch_add\<close> and \<open>fetch_sub\<close> on the atomic counter wrap.\<close>

definition fetch_sub :: "nat \<Rightarrow> nat \<Rightarrow> nat" where
  "fetch_sub a b = (if b \<le> a then a - b else a + 2 ^ 64 - b)"

definition fetch_add :: "nat \<Rightarrow> nat \<Rightarrow> nat" where
  "fetch_add a b = (a + b) mod 2 ^ 64"

definition alloc_frame :: "frame_state \<Rightarrow> (nat option \<times> frame_state) may_stop" where
  "alloc_frame st =
     (case PMM st of
        None \<Rightarrow> Some (None, st)
      | Some p \<Rightarrow>
          (case alloc_one p of
             None \<Rightarrow> None
           | Some None \<Rightarrow> None
           | Some (Some (None, p')) \<Rightarrow> Some (None, st\<lparr>PMM := Some p'\<rparr>)
           | Some (Some (Some pfn, p')) \<Rightarrow>
               map_option
                 (\<lambda>phys. (Some phys, st\<lparr>PMM := Some p', FREE_FRAMES := fetch_sub (FREE_FRAMES st) 1\<rparr>))
                 (u64_mul pfn PAGE_SIZE)))"

section \<open>Contiguous allocation\<close>

fun set_range :: "pmm \<Rightarrow> nat \<Rightarrow> nat \<Rightarrow> pmm may_stop" where
  "set_range p start 0 = Some p"
| "set_range p start (Suc n) =
     (case pmm_set p start of None \<Rightarrow> None | Some p' \<Rightarrow> set_range p' (start + 1) n)"

text \<open>The loop \<open>for pfn in 0..total_pfns\<close>: \<open>k\<close> iterations are left, the next one is \<open>pfn\<close>.\<close>

fun alloc_contig_loop :: "pmm \<Rightarrow> nat \<Rightarrow> nat \<Rightarrow> nat \<Rightarrow> nat \<Rightarrow> nat \<Rightarrow> ((nat \<times> pmm) option) may_stop" where
  "alloc_contig_loop p n 0 pfn run start = Some None"
| "alloc_contig_loop p n (Suc k) pfn run start =
     (case pmm_is_set p pfn of
        None \<Rightarrow> None
      | Some s \<Rightarrow>
          (if s then alloc_contig_loop p n k (pfn + 1) 0 start
           else
             (let start' = (if run = 0 then pfn else start); run' = run + 1 in
              if run' = n
              then (case set_range p start' n of None \<Rightarrow> None | Some p' \<Rightarrow> Some (Some (start', p')))
              else alloc_contig_loop p n k (pfn + 1) run' start')))"

definition alloc_contig :: "frame_state \<Rightarrow> nat \<Rightarrow> (nat option \<times> frame_state) may_stop" where
  "alloc_contig st n =
     (case PMM st of
        None \<Rightarrow> Some (None, st)
      | Some p \<Rightarrow>
          (case alloc_contig_loop p n (total_pfns p) 0 0 0 of
             None \<Rightarrow> None
           | Some None \<Rightarrow> Some (None, st)
           | Some (Some (start, p')) \<Rightarrow>
               map_option
                 (\<lambda>phys. (Some phys, st\<lparr>PMM := Some p', FREE_FRAMES := fetch_sub (FREE_FRAMES st) n\<rparr>))
                 (u64_mul start PAGE_SIZE)))"

section \<open>Freeing\<close>

definition free_frame :: "frame_state \<Rightarrow> nat \<Rightarrow> frame_state may_stop" where
  "free_frame st phys =
     (case PMM st of
        None \<Rightarrow> Some st
      | Some p \<Rightarrow>
          map_option
            (\<lambda>p'. st\<lparr>PMM := Some p', FREE_FRAMES := fetch_add (FREE_FRAMES st) 1\<rparr>)
            (free_one p (phys div PAGE_SIZE)))"

definition total_frames :: "frame_state \<Rightarrow> nat" where
  "total_frames st = TOTAL_FRAMES st"

definition free_frames :: "frame_state \<Rightarrow> nat" where
  "free_frames st = FREE_FRAMES st"

section \<open>Initialisation from the memory map\<close>

fun max_phys :: "MemoryRegion list \<Rightarrow> nat \<Rightarrow> nat may_stop" where
  "max_phys [] m = Some m"
| "max_phys (r # rs) m =
     (case u64_add (mr_base r) (mr_length r) of
        None \<Rightarrow> None
      | Some e \<Rightarrow> max_phys rs (if m < e then e else m))"

fun bitmap_home :: "MemoryRegion list \<Rightarrow> nat \<Rightarrow> nat option" where
  "bitmap_home [] bitmap_pages = None"
| "bitmap_home (r # rs) bitmap_pages =
     (if \<not> is_free (mr_kind r) then bitmap_home rs bitmap_pages
      else if bitmap_pages \<le> mr_length r div PAGE_SIZE then Some (mr_base r)
      else bitmap_home rs bitmap_pages)"

text \<open>The inner loop over the pages of one region; \<open>n\<close> pages are left, the next frame is \<open>pfn\<close>.\<close>

fun clear_region :: "pmm \<Rightarrow> nat \<Rightarrow> nat \<Rightarrow> nat \<Rightarrow> (pmm \<times> nat) may_stop" where
  "clear_region p pfn 0 free = Some (p, free)"
| "clear_region p pfn (Suc n) free =
     (if total_pfns p \<le> pfn then Some (p, free)
      else case pmm_clear p pfn of
             None \<Rightarrow> None
           | Some p' \<Rightarrow> clear_region p' (pfn + 1) n (free + 1))"

fun clear_regions :: "pmm \<Rightarrow> MemoryRegion list \<Rightarrow> nat \<Rightarrow> (pmm \<times> nat) may_stop" where
  "clear_regions p [] free = Some (p, free)"
| "clear_regions p (r # rs) free =
     (if \<not> is_free (mr_kind r) then clear_regions p rs free
      else case clear_region p (mr_base r div PAGE_SIZE) (mr_length r div PAGE_SIZE) free of
             None \<Rightarrow> None
           | Some (p', free') \<Rightarrow> clear_regions p' rs free')"

text \<open>\<open>free -= 1\<close> aborts on underflow in the dev build.\<close>

fun reserve_range :: "pmm \<Rightarrow> nat \<Rightarrow> nat \<Rightarrow> nat \<Rightarrow> (pmm \<times> nat) may_stop" where
  "reserve_range p pfn 0 free = Some (p, free)"
| "reserve_range p pfn (Suc n) free =
     (case pmm_is_set p pfn of
        None \<Rightarrow> None
      | Some s \<Rightarrow>
          (if \<not> s then
             (case pmm_set p pfn of
                None \<Rightarrow> None
              | Some p' \<Rightarrow>
                  (case u64_sub free 1 of
                     None \<Rightarrow> None
                   | Some free' \<Rightarrow> reserve_range p' (pfn + 1) n free'))
           else reserve_range p (pfn + 1) n free))"

definition reserve_null :: "pmm \<Rightarrow> nat \<Rightarrow> (pmm \<times> nat) may_stop" where
  "reserve_null p free =
     (case pmm_is_set p 0 of
        None \<Rightarrow> None
      | Some s \<Rightarrow>
          (if \<not> s then (case pmm_set p 0 of None \<Rightarrow> None | Some p' \<Rightarrow> Some (p', free - 1))
           else Some (p, free)))"

definition pmm_init :: "MemoryRegion list \<Rightarrow> frame_state may_stop" where
  "pmm_init regions =
     (case max_phys regions 0 of
        None \<Rightarrow> None
      | Some mp \<Rightarrow>
        (let total = div_ceil mp PAGE_SIZE;
             bitmap_bytes = div_ceil total 8;
             bitmap_pages = div_ceil bitmap_bytes PAGE_SIZE in
         case bitmap_home regions bitmap_pages of
           None \<Rightarrow> None
         | Some bitmap_phys \<Rightarrow>
           (let p = \<lparr>bitmap = replicate bitmap_bytes 0xFF, base_pfn = 0,
                     total_pfns = total, next_hint = 0\<rparr> in
            case clear_regions p regions 0 of
              None \<Rightarrow> None
            | Some (p1, free1) \<Rightarrow>
              (case reserve_range p1 (bitmap_phys div PAGE_SIZE) bitmap_pages free1 of
                 None \<Rightarrow> None
               | Some (p2, free2) \<Rightarrow>
                 (case reserve_null p2 free2 of
                    None \<Rightarrow> None
                  | Some (p3, free3) \<Rightarrow>
                      Some \<lparr>PMM = Some p3, TOTAL_FRAMES = total, FREE_FRAMES = free3\<rparr>)))))"

section \<open>Invariant and abstract view\<close>

definition pmm_inv :: "pmm \<Rightarrow> bool" where
  "pmm_inv p \<longleftrightarrow> 0 < total_pfns p \<and> total_pfns p \<le> 8 * length (bitmap p) \<and> total_pfns p \<le> 2 ^ 52
     \<and> base_pfn p = 0 \<and> next_hint p \<le> total_pfns p"

definition free_pfns :: "pmm \<Rightarrow> nat set" where
  "free_pfns p = {pfn. pfn < total_pfns p \<and> \<not> bit_at (bitmap p) pfn}"

lemma finite_free_pfns [simp]: "finite (free_pfns p)"
  by (simp add: free_pfns_def)

lemma pmm_set_eq [simp]:
  "pfn < 8 * length (bitmap p) \<Longrightarrow> pmm_set p pfn = Some (p\<lparr>bitmap := set_bit_at (bitmap p) pfn\<rparr>)"
  by (simp add: pmm_set_def set_bit_at_def div8_less_length)

lemma pmm_clear_eq [simp]:
  "pfn < 8 * length (bitmap p) \<Longrightarrow> pmm_clear p pfn = Some (p\<lparr>bitmap := clear_bit_at (bitmap p) pfn\<rparr>)"
  by (simp add: pmm_clear_def clear_bit_at_def div8_less_length)

lemma pmm_is_set_eq [simp]:
  "pfn < 8 * length (bitmap p) \<Longrightarrow> pmm_is_set p pfn = Some (bit_at (bitmap p) pfn)"
  by (simp add: pmm_is_set_def bit_at_def div8_less_length shift_test_bit)

lemma free_pfns_set [simp]:
  "pfn < 8 * length (bitmap p) \<Longrightarrow>
     free_pfns (p\<lparr>bitmap := set_bit_at (bitmap p) pfn\<rparr>) = free_pfns p - {pfn}"
  by (auto simp: free_pfns_def)

lemma free_pfns_clear [simp]:
  "pfn < 8 * length (bitmap p) \<Longrightarrow>
     free_pfns (p\<lparr>bitmap := clear_bit_at (bitmap p) pfn\<rparr>) =
       free_pfns p \<union> (if pfn < total_pfns p then {pfn} else {})"
  by (auto simp: free_pfns_def)

lemma free_pfns_hint [simp]: "free_pfns (p\<lparr>next_hint := h\<rparr>) = free_pfns p"
  by (simp add: free_pfns_def)

section \<open>The allocation loop\<close>

lemma alloc_one_loop_step:
  assumes "pmm_inv p"
  shows "alloc_one_loop p start pfn0 =
    (let pfn = (if total_pfns p \<le> pfn0 then 0 else pfn0) in
     if pfn \<in> free_pfns p
     then Some (Some (Some pfn, p\<lparr>bitmap := set_bit_at (bitmap p) pfn, next_hint := pfn + 1\<rparr>))
     else if pfn + 1 = start then Some (Some (None, p))
     else alloc_one_loop p start (pfn + 1))"
proof -
  let ?pfn = "if total_pfns p \<le> pfn0 then 0 else pfn0"
  have "?pfn < total_pfns p" using assms by (auto simp: pmm_inv_def)
  then have "?pfn < 8 * length (bitmap p)" using assms by (auto simp: pmm_inv_def)
  with \<open>?pfn < total_pfns p\<close> show ?thesis
    using assms by (subst alloc_one_loop.simps) (simp add: Let_def free_pfns_def pmm_inv_def)
qed

text \<open>Frames in use are skipped, as long as the search does not come back to its start.\<close>

lemma alloc_one_loop_skip:
  assumes "pmm_inv p" and "pfn \<le> q" and "q \<le> total_pfns p"
    and "\<And>i. pfn \<le> i \<Longrightarrow> i < q \<Longrightarrow> i \<notin> free_pfns p"
    and "start \<le> pfn \<or> q < start"
  shows "alloc_one_loop p start pfn = alloc_one_loop p start q"
  using assms(2-)
proof (induction "q - pfn" arbitrary: pfn)
  case 0
  then show ?case by simp
next
  case (Suc d)
  then have lt: "pfn < q" by simp
  have "alloc_one_loop p start pfn = alloc_one_loop p start (pfn + 1)"
    using alloc_one_loop_step[OF assms(1), of start pfn] lt Suc.prems by (auto simp: Let_def)
  also have "\<dots> = alloc_one_loop p start q"
    using Suc lt by (intro Suc.hyps) auto
  finally show ?case .
qed

lemma alloc_one_loop_wrap:
  assumes "pmm_inv p"
  shows "alloc_one_loop p start (total_pfns p) = alloc_one_loop p start 0"
  using alloc_one_loop_step[OF assms, of start "total_pfns p"] alloc_one_loop_step[OF assms, of start 0]
    assms by (simp add: Let_def pmm_inv_def)

lemma alloc_one_loop_hit:
  assumes "pmm_inv p" and "pfn \<in> free_pfns p"
  shows "alloc_one_loop p start pfn =
    Some (Some (Some pfn, p\<lparr>bitmap := set_bit_at (bitmap p) pfn, next_hint := pfn + 1\<rparr>))"
  using alloc_one_loop_step[OF assms(1), of start pfn] assms(2) by (simp add: Let_def free_pfns_def)

text \<open>The frame the search finds: the first free one at or above the hint, else the lowest.\<close>

definition next_free :: "pmm \<Rightarrow> nat \<Rightarrow> bool" where
  "next_free p pfn \<longleftrightarrow> pfn \<in> free_pfns p \<and>
     (if \<exists>i \<in> free_pfns p. next_hint p \<le> i
      then next_hint p \<le> pfn \<and> (\<forall>i \<in> free_pfns p. next_hint p \<le> i \<longrightarrow> pfn \<le> i)
      else \<forall>i \<in> free_pfns p. pfn \<le> i)"

lemma alloc_one_found:
  assumes inv: "pmm_inv p" and nf: "next_free p pfn"
  shows "alloc_one p =
    Some (Some (Some pfn, p\<lparr>bitmap := set_bit_at (bitmap p) pfn, next_hint := pfn + 1\<rparr>))"
proof -
  have hint: "next_hint p \<le> total_pfns p" using inv by (simp add: pmm_inv_def)
  have free: "pfn \<in> free_pfns p" using nf by (simp add: next_free_def)
  then have lt: "pfn < total_pfns p" by (simp add: free_pfns_def)
  show ?thesis
  proof (cases "\<exists>i \<in> free_pfns p. next_hint p \<le> i")
    case True
    then have "alloc_one_loop p (next_hint p) (next_hint p) = alloc_one_loop p (next_hint p) pfn"
      using nf lt by (intro alloc_one_loop_skip[OF inv]) (auto simp: next_free_def)
    with alloc_one_loop_hit[OF inv free] show ?thesis by (simp add: alloc_one_def)
  next
    case False
    then have "pfn < next_hint p" using free by (auto simp: not_le)
    have "alloc_one_loop p (next_hint p) (next_hint p) = alloc_one_loop p (next_hint p) (total_pfns p)"
      using False hint by (intro alloc_one_loop_skip[OF inv]) auto
    also have "\<dots> = alloc_one_loop p (next_hint p) 0" by (rule alloc_one_loop_wrap[OF inv])
    also have "\<dots> = alloc_one_loop p (next_hint p) pfn"
      using nf False lt \<open>pfn < next_hint p\<close>
      by (intro alloc_one_loop_skip[OF inv]) (auto simp: next_free_def)
    finally show ?thesis using alloc_one_loop_hit[OF inv free] by (simp add: alloc_one_def)
  qed
qed

lemma ex_next_free: "free_pfns p \<noteq> {} \<Longrightarrow> \<exists>pfn. next_free p pfn"
proof -
  assume ne: "free_pfns p \<noteq> {}"
  let ?up = "{i \<in> free_pfns p. next_hint p \<le> i}"
  show ?thesis
  proof (cases "?up = {}")
    case True
    with ne have "next_free p (Min (free_pfns p))" by (auto simp: next_free_def)
    then show ?thesis by blast
  next
    case False
    then have "Min ?up \<in> ?up" by (intro Min_in) auto
    moreover have "\<forall>i \<in> ?up. Min ?up \<le> i" by auto
    ultimately have "next_free p (Min ?up)" using False by (auto simp: next_free_def)
    then show ?thesis by blast
  qed
qed

lemma alloc_one_full:
  assumes inv: "pmm_inv p" and full: "free_pfns p = {}" and pos: "0 < next_hint p"
  shows "alloc_one p = Some (Some (None, p))"
proof -
  let ?h = "next_hint p"
  have hint: "?h \<le> total_pfns p" using inv by (simp add: pmm_inv_def)
  have "alloc_one_loop p ?h ?h = alloc_one_loop p ?h (total_pfns p)"
    using full hint by (intro alloc_one_loop_skip[OF inv]) auto
  also have "\<dots> = alloc_one_loop p ?h 0" by (rule alloc_one_loop_wrap[OF inv])
  also have "\<dots> = alloc_one_loop p ?h (?h - 1)"
    using full hint pos by (intro alloc_one_loop_skip[OF inv]) auto
  also have "\<dots> = Some (Some (None, p))"
  proof -
    have "\<not> total_pfns p \<le> ?h - 1" using hint pos by linarith
    then show ?thesis
      using alloc_one_loop_step[OF inv, of ?h "?h - 1"] full pos by (simp add: Let_def)
  qed
  finally show ?thesis by (simp add: alloc_one_def)
qed

text \<open>With the hint at 0 the exit test \<open>pfn == start\<close> can never hold: \<open>pfn\<close> has just been
  incremented, and it is wrapped to 0 only after the test.\<close>

lemma alloc_one_loop_diverges:
  assumes inv: "pmm_inv p" and full: "free_pfns p = {}"
  shows "alloc_one_loop p 0 pfn = None"
proof (rule ccontr)
  assume "alloc_one_loop p 0 pfn \<noteq> None"
  then obtain r where ret: "alloc_one_loop p 0 pfn = Some r" by blast
  have "\<not> (p = p \<and> (0::nat) = 0 \<and> pmm_inv p \<and> free_pfns p = {})"
  proof (rule alloc_one_loop.raw_induct
      [where P = "\<lambda>q s i r. \<not> (q = p \<and> s = 0 \<and> pmm_inv q \<and> free_pfns q = {})", OF _ ret])
    fix f q s i r
    assume IH: "\<And>q s i r. f q s i = Some r \<Longrightarrow> \<not> (q = p \<and> s = 0 \<and> pmm_inv q \<and> free_pfns q = {})"
      and eq: "(let pfn = if total_pfns q \<le> i then 0 else i
         in case pmm_is_set q pfn of None \<Rightarrow> Some None
            | Some t \<Rightarrow>
                if \<not> t then case pmm_set q pfn of None \<Rightarrow> Some None
                  | Some p' \<Rightarrow> Some (Some (Some (base_pfn p' + pfn), p'\<lparr>next_hint := pfn + 1\<rparr>))
                else if pfn + 1 = s then Some (Some (None, q)) else f q s (pfn + 1)) = Some r"
    show "\<not> (q = p \<and> s = 0 \<and> pmm_inv q \<and> free_pfns q = {})"
    proof
      assume q: "q = p \<and> s = 0 \<and> pmm_inv q \<and> free_pfns q = {}"
      define j where "j = (if total_pfns q \<le> i then 0 else i)"
      have "j < total_pfns q" using q by (auto simp: j_def pmm_inv_def)
      then have "j < 8 * length (bitmap q)" and "bit_at (bitmap q) j"
        using q by (auto simp: pmm_inv_def free_pfns_def)
      with eq q have "f q s (j + 1) = Some r" by (simp add: j_def Let_def)
      from IH[OF this] q show False by blast
    qed
  qed
  with inv full show False by blast
qed

section \<open>Contiguous runs\<close>

lemma set_range_eq:
  "start + n \<le> 8 * length (bitmap p) \<Longrightarrow>
     \<exists>bm. set_range p start n = Some (p\<lparr>bitmap := bm\<rparr>) \<and> length bm = length (bitmap p)
        \<and> (\<forall>j. bit_at bm j \<longleftrightarrow> bit_at (bitmap p) j \<or> j \<in> {start..<start + n})"
proof (induction n arbitrary: p start)
  case 0
  then show ?case by (intro exI[of _ "bitmap p"]) simp
next
  case (Suc n)
  let ?p = "p\<lparr>bitmap := set_bit_at (bitmap p) start\<rparr>"
  have lt: "start < 8 * length (bitmap p)" using Suc.prems by simp
  have "start + 1 + n \<le> 8 * length (bitmap ?p)" using Suc.prems by simp
  from Suc.IH[OF this] obtain bm where bm: "set_range ?p (start + 1) n = Some (?p\<lparr>bitmap := bm\<rparr>)"
    "length bm = length (bitmap ?p)"
    "\<forall>j. bit_at bm j \<longleftrightarrow> bit_at (bitmap ?p) j \<or> j \<in> {start + 1..<start + 1 + n}"
    by blast
  have "{start..<start + Suc n} = insert start {start + 1..<start + 1 + n}" by auto
  then have "\<forall>j. bit_at bm j \<longleftrightarrow> bit_at (bitmap p) j \<or> j \<in> {start..<start + Suc n}"
    using bm(3) lt by (simp add: disj_ac)
  moreover have "set_range p start (Suc n) = Some (p\<lparr>bitmap := bm\<rparr>)" using bm(1) lt by simp
  ultimately show ?case using bm(2) by (intro exI[of _ bm]) simp
qed

text \<open>Loop invariant: the shared one of the run search, and where the current run starts.\<close>

definition contig_inv :: "pmm \<Rightarrow> nat \<Rightarrow> nat \<Rightarrow> nat \<Rightarrow> nat \<Rightarrow> bool" where
  "contig_inv p n pfn run start \<longleftrightarrow> run_inv (free_pfns p) n pfn run \<and> pfn \<le> total_pfns p
     \<and> (0 < run \<longrightarrow> start + run = pfn)"

abbreviation free_run :: "pmm \<Rightarrow> nat \<Rightarrow> nat \<Rightarrow> bool" where
  "free_run p \<equiv> is_run (free_pfns p)"

lemma contig_inv_used:
  assumes "contig_inv p n pfn run start" and "pfn < total_pfns p" and "pfn \<notin> free_pfns p"
  shows "contig_inv p n (pfn + 1) 0 start"
  using assms run_inv_used[of "free_pfns p" n pfn run] by (auto simp: contig_inv_def)

lemma contig_inv_free:
  assumes "contig_inv p n pfn run start" and "pfn < total_pfns p"
    and "pfn \<in> free_pfns p" and "run + 1 \<noteq> n"
  shows "contig_inv p n (pfn + 1) (run + 1) (if run = 0 then pfn else start)"
  using assms run_inv_free[of "free_pfns p" n pfn run] by (auto simp: contig_inv_def)

lemma contig_inv_done:
  assumes inv: "contig_inv p n pfn run start" and lt: "pfn < total_pfns p"
    and free: "pfn \<in> free_pfns p" and eq: "run + 1 = n"
  defines "st \<equiv> if run = 0 then pfn else start"
  shows "free_run p st n" and "st + n = pfn + 1" and "\<And>s. s < st \<Longrightarrow> \<not> free_run p s n"
proof -
  have ri: "run_inv (free_pfns p) n pfn run" using inv by (simp add: contig_inv_def)
  have st: "st = pfn - run" using inv by (auto simp: st_def contig_inv_def)
  show "st + n = pfn + 1" using st eq ri by (auto simp: run_inv_def)
  show "free_run p st n" "\<And>s. s < st \<Longrightarrow> \<not> free_run p s n"
    using run_inv_done[OF ri free eq] st by auto
qed

lemma alloc_contig_loop_spec:
  assumes "pmm_inv p" and "contig_inv p n pfn run start" and "pfn + k = total_pfns p"
  shows "(\<exists>s bm. alloc_contig_loop p n k pfn run start = Some (Some (s, p\<lparr>bitmap := bm\<rparr>))
            \<and> free_run p s n \<and> (\<forall>s' < s. \<not> free_run p s' n) \<and> length bm = length (bitmap p)
            \<and> (\<forall>j. bit_at bm j \<longleftrightarrow> bit_at (bitmap p) j \<or> j \<in> {s..<s + n}))
       \<or> alloc_contig_loop p n k pfn run start = Some None \<and> (\<forall>s. \<not> free_run p s n)"
  using assms(2,3)
proof (induction k arbitrary: pfn run start)
  case 0
  have "\<not> free_run p s n" for s
  proof (cases "s + n \<le> pfn")
    case False
    then have "s + n - 1 \<notin> free_pfns p" using 0 by (auto simp: free_pfns_def)
    moreover have "s + n - 1 \<in> {s..<s + n}" using 0 by (auto simp: contig_inv_def run_inv_def)
    ultimately show ?thesis unfolding is_run_def by blast
  qed (use 0 in \<open>auto simp: contig_inv_def run_inv_def\<close>)
  then show ?case by simp
next
  case (Suc k)
  then have lt: "pfn < total_pfns p" by simp
  then have lt8: "pfn < 8 * length (bitmap p)" using assms(1) by (simp add: pmm_inv_def)
  show ?case
  proof (cases "pfn \<in> free_pfns p")
    case False
    then have "alloc_contig_loop p n (Suc k) pfn run start = alloc_contig_loop p n k (pfn + 1) 0 start"
      using lt lt8 by (simp add: free_pfns_def)
    with Suc.IH[OF contig_inv_used[OF Suc.prems(1) lt False]] Suc.prems(2) show ?thesis by simp
  next
    case True
    then have bit: "\<not> bit_at (bitmap p) pfn" by (simp add: free_pfns_def)
    let ?st = "if run = 0 then pfn else start"
    show ?thesis
    proof (cases "run + 1 = n")
      case eq: True
      note d = contig_inv_done[OF Suc.prems(1) lt True eq]
      have "?st + n \<le> 8 * length (bitmap p)" using d(2) lt8 by simp
      from set_range_eq[OF this] obtain bm where
        "set_range p ?st n = Some (p\<lparr>bitmap := bm\<rparr>)" "length bm = length (bitmap p)"
        "\<forall>j. bit_at bm j \<longleftrightarrow> bit_at (bitmap p) j \<or> j \<in> {?st..<?st + n}"
        by blast
      with d(1,3) lt8 bit eq show ?thesis by (auto simp: Let_def)
    next
      case False
      then have "alloc_contig_loop p n (Suc k) pfn run start =
          alloc_contig_loop p n k (pfn + 1) (run + 1) ?st"
        using lt8 bit by (simp add: Let_def)
      with Suc.IH[OF contig_inv_free[OF Suc.prems(1) lt True False]] Suc.prems(2) show ?thesis by simp
    qed
  qed
qed

section \<open>Initialisation\<close>

definition region_pfns :: "MemoryRegion \<Rightarrow> nat set" where
  "region_pfns r = {mr_base r div PAGE_SIZE..<mr_base r div PAGE_SIZE + mr_length r div PAGE_SIZE}"

definition free_region_pfns :: "MemoryRegion list \<Rightarrow> nat set" where
  "free_region_pfns rs = (\<Union>r \<in> {r \<in> set rs. is_free (mr_kind r)}. region_pfns r)"

lemma max_phys_bound:
  assumes "max_phys rs m = Some mp"
  shows "m \<le> mp \<and> (\<forall>r \<in> set rs. mr_base r + mr_length r \<le> mp) \<and> (m < 2 ^ 64 \<longrightarrow> mp < 2 ^ 64)"
  using assms
proof (induction rs arbitrary: m)
  case Nil
  then show ?case by simp
next
  case (Cons r rs)
  from Cons.prems have "mr_base r + mr_length r < 2 ^ 64"
    and "max_phys rs (if m < mr_base r + mr_length r then mr_base r + mr_length r else m) = Some mp"
    by (auto split: option.splits simp: checked_simps)
  with Cons.IH[OF this(2)] show ?case by (auto split: if_splits)
qed

lemma region_pfn_bound:
  "pfn \<in> region_pfns r \<Longrightarrow> pfn * PAGE_SIZE < mr_base r + mr_length r"
  by (auto simp: region_pfns_def PAGE_SIZE_def)

lemma bitmap_home_Some:
  "bitmap_home rs n = Some home \<Longrightarrow>
     \<exists>r \<in> set rs. is_free (mr_kind r) \<and> mr_base r = home \<and> n \<le> mr_length r div PAGE_SIZE"
  by (induction rs) (auto split: if_splits)

text \<open>What the loops that edit the bitmap keep of the allocator.\<close>

definition same_frames :: "pmm \<Rightarrow> pmm \<Rightarrow> bool" where
  "same_frames p q \<longleftrightarrow> total_pfns q = total_pfns p \<and> base_pfn q = base_pfn p
     \<and> next_hint q = next_hint p \<and> length (bitmap q) = length (bitmap p)"

lemma same_frames_refl [simp]: "same_frames p p"
  by (simp add: same_frames_def)

lemma same_frames_trans: "same_frames p q \<Longrightarrow> same_frames q r \<Longrightarrow> same_frames p r"
  by (simp add: same_frames_def)

lemma same_frames_bitmap: "length bm = length (bitmap p) \<Longrightarrow> same_frames p (p\<lparr>bitmap := bm\<rparr>)"
  by (simp add: same_frames_def)

lemma clear_region_spec:
  assumes "total_pfns p \<le> 8 * length (bitmap p)" and "pfn + n \<le> total_pfns p"
  shows "\<exists>q. clear_region p pfn n free = Some (q, free + n) \<and> same_frames p q
           \<and> free_pfns q = free_pfns p \<union> {pfn..<pfn + n}"
  using assms
proof (induction n arbitrary: p pfn free)
  case 0
  then show ?case by simp
next
  case (Suc n)
  let ?p = "p\<lparr>bitmap := clear_bit_at (bitmap p) pfn\<rparr>"
  have lt: "pfn < total_pfns p" using Suc.prems by simp
  have "\<exists>q. clear_region ?p (pfn + 1) n (free + 1) = Some (q, free + 1 + n) \<and> same_frames ?p q
           \<and> free_pfns q = free_pfns ?p \<union> {pfn + 1..<pfn + 1 + n}"
    using Suc.prems by (intro Suc.IH) auto
  then obtain q where q: "clear_region ?p (pfn + 1) n (free + 1) = Some (q, free + 1 + n)"
    "same_frames ?p q" "free_pfns q = free_pfns ?p \<union> {pfn + 1..<pfn + 1 + n}" by blast
  have "{pfn..<pfn + Suc n} = insert pfn {pfn + 1..<pfn + 1 + n}" by auto
  then have "free_pfns q = free_pfns p \<union> {pfn..<pfn + Suc n}"
    using q(3) lt Suc.prems(1) by (simp add: free_pfns_def[of q])
  moreover have "same_frames p q"
    using same_frames_trans[OF same_frames_bitmap q(2)] by simp
  ultimately show ?case using q(1) lt Suc.prems(1) by auto
qed

lemma clear_regions_spec:
  assumes "total_pfns p \<le> 8 * length (bitmap p)"
    and "\<And>r. r \<in> set rs \<Longrightarrow> mr_base r div PAGE_SIZE + mr_length r div PAGE_SIZE \<le> total_pfns p"
  shows "\<exists>q. clear_regions p rs free =
             Some (q, free + (\<Sum>r\<leftarrow>filter (\<lambda>r. is_free (mr_kind r)) rs. mr_length r div PAGE_SIZE))
           \<and> same_frames p q \<and> free_pfns q = free_pfns p \<union> free_region_pfns rs"
  using assms
proof (induction rs arbitrary: p free)
  case Nil
  then show ?case by (simp add: free_region_pfns_def)
next
  case (Cons r rs)
  show ?case
  proof (cases "is_free (mr_kind r)")
    case False
    then have "free_region_pfns (r # rs) = free_region_pfns rs" by (auto simp: free_region_pfns_def)
    with False Cons.IH[of p free] Cons.prems show ?thesis by simp
  next
    case True
    let ?b = "mr_base r div PAGE_SIZE" and ?n = "mr_length r div PAGE_SIZE"
    from clear_region_spec[of p ?b ?n free] Cons.prems obtain q where
      q: "clear_region p ?b ?n free = Some (q, free + ?n)" "same_frames p q"
         "free_pfns q = free_pfns p \<union> {?b..<?b + ?n}" by auto
    have "\<exists>q'. clear_regions q rs (free + ?n) =
             Some (q', free + ?n + (\<Sum>r\<leftarrow>filter (\<lambda>r. is_free (mr_kind r)) rs. mr_length r div PAGE_SIZE))
           \<and> same_frames q q' \<and> free_pfns q' = free_pfns q \<union> free_region_pfns rs"
      using Cons.prems q(2) by (intro Cons.IH) (auto simp: same_frames_def)
    then obtain q' where q': "clear_regions q rs (free + ?n) =
             Some (q', free + ?n + (\<Sum>r\<leftarrow>filter (\<lambda>r. is_free (mr_kind r)) rs. mr_length r div PAGE_SIZE))"
      "same_frames q q'" "free_pfns q' = free_pfns q \<union> free_region_pfns rs" by blast
    have "free_region_pfns (r # rs) = {?b..<?b + ?n} \<union> free_region_pfns rs"
      using True by (auto simp: free_region_pfns_def region_pfns_def)
    then have "free_pfns q' = free_pfns p \<union> free_region_pfns (r # rs)"
      using q(3) q'(3) by auto
    with True q(1) q'(1) same_frames_trans[OF q(2) q'(2)] show ?thesis by (simp add: add.assoc)
  qed
qed

lemma reserve_range_spec:
  assumes "total_pfns p \<le> 8 * length (bitmap p)" and "pfn + n \<le> total_pfns p"
    and "card (free_pfns p) \<le> free"
  shows "\<exists>q. reserve_range p pfn n free = Some (q, free - card (free_pfns p \<inter> {pfn..<pfn + n}))
           \<and> same_frames p q \<and> free_pfns q = free_pfns p - {pfn..<pfn + n}"
  using assms
proof (induction n arbitrary: p pfn free)
  case 0
  then show ?case by simp
next
  case (Suc n)
  have lt: "pfn < total_pfns p" "pfn < 8 * length (bitmap p)" using Suc.prems by auto
  have split: "{pfn..<pfn + Suc n} = insert pfn {pfn + 1..<pfn + 1 + n}" by auto
  show ?case
  proof (cases "pfn \<in> free_pfns p")
    case False
    then have "bit_at (bitmap p) pfn" using lt by (simp add: free_pfns_def)
    then have eq: "reserve_range p pfn (Suc n) free = reserve_range p (pfn + 1) n free"
      using lt by simp
    have "\<exists>q. reserve_range p (pfn + 1) n free =
        Some (q, free - card (free_pfns p \<inter> {pfn + 1..<pfn + 1 + n}))
       \<and> same_frames p q \<and> free_pfns q = free_pfns p - {pfn + 1..<pfn + 1 + n}"
      using Suc.prems by (intro Suc.IH) auto
    then show ?thesis using False unfolding eq split by (simp add: Int_insert_right)
  next
    case True
    let ?p = "p\<lparr>bitmap := set_bit_at (bitmap p) pfn\<rparr>"
    have pos: "0 < card (free_pfns p)" using True by (auto simp: card_gt_0_iff)
    have free': "free_pfns ?p = free_pfns p - {pfn}" using lt by simp
    have "\<not> bit_at (bitmap p) pfn" using True by (simp add: free_pfns_def)
    then have eq: "reserve_range p pfn (Suc n) free = reserve_range ?p (pfn + 1) n (free - 1)"
      using lt pos Suc.prems(3) by (simp add: u64_sub_def)
    have "\<exists>q. reserve_range ?p (pfn + 1) n (free - 1) =
        Some (q, free - 1 - card (free_pfns ?p \<inter> {pfn + 1..<pfn + 1 + n}))
       \<and> same_frames ?p q \<and> free_pfns q = free_pfns ?p - {pfn + 1..<pfn + 1 + n}"
      using Suc.prems True free' by (intro Suc.IH) auto
    then obtain q where q: "reserve_range ?p (pfn + 1) n (free - 1) =
        Some (q, free - 1 - card (free_pfns ?p \<inter> {pfn + 1..<pfn + 1 + n}))"
      "same_frames ?p q" "free_pfns q = free_pfns ?p - {pfn + 1..<pfn + 1 + n}" by blast
    have "free_pfns p \<inter> insert pfn {pfn + 1..<pfn + 1 + n} =
        insert pfn (free_pfns ?p \<inter> {pfn + 1..<pfn + 1 + n})" using True free' by auto
    moreover have "pfn \<notin> free_pfns ?p \<inter> {pfn + 1..<pfn + 1 + n}" by auto
    ultimately have "card (free_pfns p \<inter> insert pfn {pfn + 1..<pfn + 1 + n}) =
        Suc (card (free_pfns ?p \<inter> {pfn + 1..<pfn + 1 + n}))" by simp
    moreover have "free_pfns q = free_pfns p - insert pfn {pfn + 1..<pfn + 1 + n}"
      using q(3) free' by auto
    moreover have "same_frames p q"
      using same_frames_trans[OF same_frames_bitmap q(2)] by simp
    ultimately show ?thesis using q(1) unfolding eq split by auto
  qed
qed

lemma reserve_null_spec:
  assumes "0 < total_pfns p" and "total_pfns p \<le> 8 * length (bitmap p)"
  shows "\<exists>q. reserve_null p free = Some (q, free - card (free_pfns p \<inter> {0}))
           \<and> same_frames p q \<and> free_pfns q = free_pfns p - {0}"
proof -
  have lt: "0 < 8 * length (bitmap p)" using assms by linarith
  show ?thesis
  proof (cases "0 \<in> free_pfns p")
    case True
    then show ?thesis
      using lt same_frames_bitmap[of "set_bit_at (bitmap p) 0" p]
      by (simp add: reserve_null_def free_pfns_def[of p])
  next
    case False
    then have "bit_at (bitmap p) 0" using assms by (simp add: free_pfns_def)
    with False lt show ?thesis by (simp add: reserve_null_def)
  qed
qed

section \<open>The statics: invariant and operations\<close>

definition frame_inv :: "frame_state \<Rightarrow> bool" where
  "frame_inv st \<longleftrightarrow> (case PMM st of
     None \<Rightarrow> False
   | Some p \<Rightarrow> pmm_inv p \<and> 0 \<notin> free_pfns p \<and> TOTAL_FRAMES st = total_pfns p
       \<and> FREE_FRAMES st = card (free_pfns p))"

definition free_set :: "frame_state \<Rightarrow> nat set" where
  "free_set st = (case PMM st of None \<Rightarrow> {} | Some p \<Rightarrow> free_pfns p)"

text \<open>A state in which the search of \<^const>\<open>alloc_one\<close> is certain to end.\<close>

definition search_ends :: "frame_state \<Rightarrow> bool" where
  "search_ends st \<longleftrightarrow> free_set st \<noteq> {} \<or> (case PMM st of None \<Rightarrow> True | Some p \<Rightarrow> 0 < next_hint p)"

lemma finite_free_set [simp]: "finite (free_set st)"
  by (simp add: free_set_def split: option.splits)

lemma frame_inv_cases:
  assumes "frame_inv st"
  obtains p where "PMM st = Some p" "pmm_inv p" "0 \<notin> free_pfns p" "free_set st = free_pfns p"
    "TOTAL_FRAMES st = total_pfns p" "FREE_FRAMES st = card (free_pfns p)"
  using assms by (auto simp: frame_inv_def free_set_def split: option.splits)

lemma free_pfns_less: "pfn \<in> free_pfns p \<Longrightarrow> pfn < total_pfns p"
  by (simp add: free_pfns_def)

lemma card_free_pfns_le: "card (free_pfns p) \<le> total_pfns p"
  using card_mono[of "{..<total_pfns p}" "free_pfns p"] by (auto simp: free_pfns_def)

lemma pfn_mul_page: "pmm_inv p \<Longrightarrow> pfn < total_pfns p \<Longrightarrow> u64_mul pfn PAGE_SIZE = Some (pfn * PAGE_SIZE)"
  by (simp add: checked_simps pmm_inv_def PAGE_SIZE_def)

lemma alloc_frame_found:
  assumes inv: "frame_inv st" and ne: "free_set st \<noteq> {}"
  obtains p pfn st' where "PMM st = Some p" "next_free p pfn"
    "alloc_frame st = Some (Some (pfn * PAGE_SIZE), st')"
    "frame_inv st'" "search_ends st'" "free_set st' = free_set st - {pfn}" "pfn \<in> free_set st" "pfn \<noteq> 0"
    "TOTAL_FRAMES st' = TOTAL_FRAMES st"
proof -
  from inv obtain p where p: "PMM st = Some p" "pmm_inv p" "0 \<notin> free_pfns p"
    "free_set st = free_pfns p" "TOTAL_FRAMES st = total_pfns p" "FREE_FRAMES st = card (free_pfns p)"
    by (rule frame_inv_cases)
  with ne obtain pfn where nf: "next_free p pfn" using ex_next_free by metis
  then have free: "pfn \<in> free_pfns p" by (simp add: next_free_def)
  then have lt: "pfn < total_pfns p" by (rule free_pfns_less)
  then have lt8: "pfn < 8 * length (bitmap p)" using p(2) by (simp add: pmm_inv_def)
  let ?p = "p\<lparr>bitmap := set_bit_at (bitmap p) pfn, next_hint := pfn + 1\<rparr>"
  let ?st = "st\<lparr>PMM := Some ?p, FREE_FRAMES := fetch_sub (FREE_FRAMES st) 1\<rparr>"
  have "alloc_frame st = Some (Some (pfn * PAGE_SIZE), ?st)"
    using p alloc_one_found[OF p(2) nf] pfn_mul_page[OF p(2) lt] by (simp add: alloc_frame_def)
  moreover have fs: "free_pfns ?p = free_pfns p - {pfn}" using lt8 by simp
  have "0 < card (free_pfns p)" using free by (auto simp: card_gt_0_iff)
  then have cnt: "fetch_sub (FREE_FRAMES st) 1 = card (free_pfns p - {pfn})"
    using free p(6) by (simp add: fetch_sub_def)
  have "pmm_inv ?p" using p(2) lt by (simp add: pmm_inv_def)
  then have "frame_inv ?st" using p(3,5) cnt fs by (simp add: frame_inv_def)
  moreover have "search_ends ?st" by (simp add: search_ends_def)
  moreover have "free_set ?st = free_set st - {pfn}" using fs p(4) by (simp add: free_set_def)
  moreover have "pfn \<noteq> 0" using free p(3) by metis
  ultimately show ?thesis using p(1,4) nf free by (intro that[of p pfn ?st]) simp_all
qed

lemma alloc_frame_none:
  assumes inv: "frame_inv st" and full: "free_set st = {}" and ends: "search_ends st"
  shows "alloc_frame st = Some (None, st)"
  using inv
proof (rule frame_inv_cases)
  fix p assume p: "PMM st = Some p" "pmm_inv p" "free_set st = free_pfns p"
  then have "0 < next_hint p" using full ends by (simp add: search_ends_def)
  then show ?thesis using p full alloc_one_full[of p] by (simp add: alloc_frame_def)
qed

lemma alloc_contig_spec:
  assumes inv: "frame_inv st" and n: "0 < n"
  shows "(\<exists>start st'. alloc_contig st n = Some (Some (start * PAGE_SIZE), st')
            \<and> {start..<start + n} \<subseteq> free_set st \<and> (\<forall>s < start. \<not> {s..<s + n} \<subseteq> free_set st)
            \<and> free_set st' = free_set st - {start..<start + n} \<and> frame_inv st' \<and> start \<noteq> 0)
       \<or> alloc_contig st n = Some (None, st) \<and> (\<forall>s. \<not> {s..<s + n} \<subseteq> free_set st)"
proof -
  from inv obtain p where p: "PMM st = Some p" "pmm_inv p" "0 \<notin> free_pfns p"
    "free_set st = free_pfns p" "TOTAL_FRAMES st = total_pfns p" "FREE_FRAMES st = card (free_pfns p)"
    by (rule frame_inv_cases)
  have "contig_inv p n 0 0 0" using run_inv_start[OF n] by (simp add: contig_inv_def)
  from alloc_contig_loop_spec[OF p(2) this add_0]
  consider (found) s bm where "alloc_contig_loop p n (total_pfns p) 0 0 0 = Some (Some (s, p\<lparr>bitmap := bm\<rparr>))"
      "free_run p s n" "\<forall>s' < s. \<not> free_run p s' n" "length bm = length (bitmap p)"
      "\<forall>j. bit_at bm j \<longleftrightarrow> bit_at (bitmap p) j \<or> j \<in> {s..<s + n}"
    | (none) "alloc_contig_loop p n (total_pfns p) 0 0 0 = Some None" "\<forall>s. \<not> free_run p s n" by blast
  then show ?thesis
  proof cases
    case none
    then show ?thesis using p(1,4) by (simp add: alloc_contig_def is_run_def)
  next
    case found
    let ?p = "p\<lparr>bitmap := bm\<rparr>"
    let ?st = "st\<lparr>PMM := Some ?p, FREE_FRAMES := fetch_sub (FREE_FRAMES st) n\<rparr>"
    have run: "{s..<s + n} \<subseteq> free_pfns p" using found by (simp add: is_run_def)
    then have s: "s \<in> free_pfns p" using n by auto
    have fs: "free_pfns ?p = free_pfns p - {s..<s + n}" 
      by (rule set_eqI) (simp add: free_pfns_def found(5) conj_ac)
    have "n \<le> card (free_pfns p)" using card_mono[OF _ run] by simp
    then have cnt: "fetch_sub (FREE_FRAMES st) n = card (free_pfns ?p)"
      using p(6) run fs by (simp add: fetch_sub_def card_Diff_subset)
    have "alloc_contig st n = Some (Some (s * PAGE_SIZE), ?st)"
      using p found(1) pfn_mul_page[OF p(2) free_pfns_less[OF s]] by (simp add: alloc_contig_def)
    moreover have "frame_inv ?st"
      using p(2,3,5) found(4) cnt fs by (simp add: frame_inv_def pmm_inv_def)
    moreover have "free_set ?st = free_set st - {s..<s + n}" using fs p by (simp add: free_set_def)
    moreover have "s \<noteq> 0" using s p(3) by metis
    moreover have "{s..<s + n} \<subseteq> free_set st \<and> (\<forall>s' < s. \<not> {s'..<s' + n} \<subseteq> free_set st)"
      using run found(3) p(4) by (simp add: is_run_def)
    ultimately show ?thesis by blast
  qed
qed

lemma free_frame_spec:
  assumes inv: "frame_inv st" and used: "phys div PAGE_SIZE \<notin> free_set st"
    and lt: "phys div PAGE_SIZE < TOTAL_FRAMES st" and nz: "PAGE_SIZE \<le> phys"
  shows "\<exists>st'. free_frame st phys = Some st' \<and> frame_inv st' \<and> search_ends st'
           \<and> free_set st' = insert (phys div PAGE_SIZE) (free_set st)
           \<and> TOTAL_FRAMES st' = TOTAL_FRAMES st"
  using inv
proof (rule frame_inv_cases)
  fix p assume p: "PMM st = Some p" "pmm_inv p" "0 \<notin> free_pfns p"
    "free_set st = free_pfns p" "TOTAL_FRAMES st = total_pfns p" "FREE_FRAMES st = card (free_pfns p)"
  let ?pfn = "phys div PAGE_SIZE"
  have lt8: "?pfn < 8 * length (bitmap p)" using lt p by (simp add: pmm_inv_def)
  define h where "h = (if ?pfn < next_hint p then ?pfn else next_hint p)"
  let ?p = "p\<lparr>bitmap := clear_bit_at (bitmap p) ?pfn, next_hint := h\<rparr>"
  have one: "free_one p ?pfn = Some ?p" using lt8 by (simp add: free_one_def h_def)
  have fs: "free_pfns ?p = insert ?pfn (free_pfns p)" using lt8 lt p(5) by simp
  have card: "card (free_pfns ?p) = card (free_pfns p) + 1" using fs used p(4) by simp
  have "card (free_pfns ?p) \<le> 2 ^ 52"
    using card_free_pfns_le[of ?p] p(2) by (simp add: pmm_inv_def)
  then have "fetch_add (FREE_FRAMES st) 1 = card (free_pfns ?p)"
    using card p(6) by (simp add: fetch_add_def)
  moreover have "pmm_inv ?p" using p(2) by (simp add: pmm_inv_def h_def)
  moreover have "0 \<notin> free_pfns ?p"
    using fs p(3) nz by (simp add: PAGE_SIZE_def div_eq_0_iff)
  moreover define st' where "st' = st\<lparr>PMM := Some ?p, FREE_FRAMES := fetch_add (FREE_FRAMES st) 1\<rparr>"
  ultimately have "frame_inv st'" using p(5) by (simp only: frame_inv_def) simp
  moreover have "free_set st' = insert ?pfn (free_set st)" using fs p(4) by (simp add: free_set_def st'_def)
  moreover have "free_frame st phys = Some st'" using p(1) one by (simp add: free_frame_def st'_def)
  moreover have "TOTAL_FRAMES st' = TOTAL_FRAMES st" by (simp add: st'_def)
  ultimately show ?thesis by (auto simp: search_ends_def)
qed

lemma alloc_frame_hangs:
  assumes inv: "frame_inv st" and "\<not> search_ends st"
  shows "alloc_frame st = None"
  using inv
proof (rule frame_inv_cases)
  fix p assume p: "PMM st = Some p" "pmm_inv p" "free_set st = free_pfns p"
  then have "next_hint p = 0" "free_pfns p = {}" using assms(2) by (auto simp: search_ends_def)
  then show ?thesis using p alloc_one_loop_diverges[of p 0] by (simp add: alloc_frame_def alloc_one_def)
qed

lemma free_set_bound: "frame_inv st \<Longrightarrow> pfn \<in> free_set st \<Longrightarrow> 0 < pfn \<and> pfn < TOTAL_FRAMES st"
  by (rule frame_inv_cases, assumption) (metis free_pfns_less gr0I)

lemma total_frames_bound: "frame_inv st \<Longrightarrow> TOTAL_FRAMES st \<le> 2 ^ 52"
  by (rule frame_inv_cases, assumption) (simp add: pmm_inv_def)

section \<open>The contract the clients rely on\<close>

text \<open>
  What the page-table code, the IPC layer and the program loader need of a frame allocator. The
  laws say exactly when an allocation succeeds, reports exhaustion or never returns.
\<close>

locale frame_allocator =
  fixes alloc :: "'s \<Rightarrow> (nat option \<times> 's) may_stop"
    and free :: "'s \<Rightarrow> nat \<Rightarrow> 's may_stop"
    and inv :: "'s \<Rightarrow> bool"
    and ready :: "'s \<Rightarrow> bool"
    and avail :: "'s \<Rightarrow> nat set"
    and limit :: "'s \<Rightarrow> nat"
  assumes alloc_some: "inv s \<Longrightarrow> avail s \<noteq> {} \<Longrightarrow>
      \<exists>pfn s'. alloc s = Some (Some (pfn * PAGE_SIZE), s') \<and> pfn \<in> avail s \<and> inv s' \<and> ready s'
        \<and> avail s' = avail s - {pfn} \<and> limit s' = limit s"
    and alloc_none: "inv s \<Longrightarrow> avail s = {} \<Longrightarrow> ready s \<Longrightarrow> alloc s = Some (None, s)"
    and alloc_stuck: "inv s \<Longrightarrow> \<not> ready s \<Longrightarrow> alloc s = None"
    and free_law: "inv s \<Longrightarrow> phys div PAGE_SIZE \<notin> avail s \<Longrightarrow> phys div PAGE_SIZE < limit s \<Longrightarrow>
      PAGE_SIZE \<le> phys \<Longrightarrow> \<exists>s'. free s phys = Some s' \<and> inv s' \<and> ready s'
        \<and> avail s' = insert (phys div PAGE_SIZE) (avail s) \<and> limit s' = limit s"
    and avail_bound: "inv s \<Longrightarrow> pfn \<in> avail s \<Longrightarrow> 0 < pfn \<and> pfn < limit s"
begin

lemma alloc_result:
  assumes "inv s" and "alloc s = Some (r, s')"
  shows "inv s' \<and> limit s' = limit s \<and> ready s' \<and>
    (case r of
       None \<Rightarrow> s' = s \<and> avail s = {}
     | Some phys \<Rightarrow> \<exists>pfn \<in> avail s. phys = pfn * PAGE_SIZE \<and> avail s' = avail s - {pfn})"
proof (cases "avail s = {}")
  case True
  show ?thesis
  proof (cases "ready s")
    case True
    with alloc_none[of s] \<open>avail s = {}\<close> assms have "r = None" "s' = s" by simp_all
    with \<open>avail s = {}\<close> \<open>ready s\<close> assms(1) show ?thesis by simp
  next
    case False
    with alloc_stuck[of s] assms show ?thesis by simp
  qed
next
  case False
  from alloc_some[OF assms(1) this] obtain pfn t where
    t: "alloc s = Some (Some (pfn * PAGE_SIZE), t)" "pfn \<in> avail s" "inv t" "ready t"
       "avail t = avail s - {pfn}" "limit t = limit s" by blast
  then have "r = Some (pfn * PAGE_SIZE)" "s' = t" using assms(2) by simp_all
  with t show ?thesis by (auto intro: bexI[of _ pfn])
qed

lemma alloc_total: "inv s \<Longrightarrow> ready s \<Longrightarrow> \<exists>r s'. alloc s = Some (r, s')"
  using alloc_some[of s] alloc_none[of s] by (cases "avail s = {}") auto

lemma two_allocs_differ:
  assumes "inv s" and "alloc s = Some (Some a, s1)" and "alloc s1 = Some (Some b, s2)"
  shows "a \<noteq> b"
proof -
  from alloc_result[OF assms(1,2)] obtain i where i: "inv s1" "avail s1 = avail s - {i}" "a = i * PAGE_SIZE"
    by auto
  from alloc_result[OF i(1) assms(3)] obtain j where "j \<in> avail s1" "b = j * PAGE_SIZE" by auto
  with i show ?thesis by (auto simp: PAGE_SIZE_def)
qed

lemma alloc_then_free:
  assumes "inv s" and "alloc s = Some (Some a, s1)"
  shows "\<exists>s2. free s1 a = Some s2 \<and> inv s2 \<and> ready s2 \<and> avail s2 = avail s \<and> limit s2 = limit s"
proof -
  from alloc_result[OF assms] obtain pfn where pfn: "pfn \<in> avail s" "a = pfn * PAGE_SIZE"
    "avail s1 = avail s - {pfn}" "inv s1" "limit s1 = limit s" by auto
  have bound: "0 < pfn" "pfn < limit s" using avail_bound[OF assms(1) pfn(1)] by auto
  have a: "a div PAGE_SIZE = pfn" "PAGE_SIZE \<le> a" using pfn(2) bound by (auto simp: PAGE_SIZE_def)
  have "insert pfn (avail s1) = avail s" using pfn(1,3) by auto
  with free_law[of s1 a] pfn a bound show ?thesis by simp
qed

end

interpretation fa: frame_allocator alloc_frame free_frame frame_inv search_ends free_set TOTAL_FRAMES
proof
  fix s :: frame_state assume "frame_inv s" "free_set s \<noteq> {}"
  then show "\<exists>pfn s'. alloc_frame s = Some (Some (pfn * PAGE_SIZE), s') \<and> pfn \<in> free_set s
      \<and> frame_inv s' \<and> search_ends s' \<and> free_set s' = free_set s - {pfn}
      \<and> TOTAL_FRAMES s' = TOTAL_FRAMES s"
    by (rule alloc_frame_found) blast
qed (rule alloc_frame_none alloc_frame_hangs free_frame_spec free_set_bound; assumption)+

section \<open>Correctness of \<open>init\<close>\<close>

lemma sum_region_pages:
  assumes "\<And>r. r \<in> set rs \<Longrightarrow> finite (f r)"
    and "\<And>i j. i < j \<Longrightarrow> j < length rs \<Longrightarrow> f (rs ! i) \<inter> f (rs ! j) = {}"
  shows "card (\<Union>r \<in> set rs. f r) = (\<Sum>r\<leftarrow>rs. card (f r))"
  using assms
proof (induction rs)
  case Nil
  then show ?case by simp
next
  case (Cons r rs)
  have "f r \<inter> f x = {}" if x: "x \<in> set rs" for x
  proof -
    from x obtain j where "j < length rs" "x = rs ! j" by (auto simp: in_set_conv_nth)
    then show ?thesis using Cons.prems(2)[of 0 "Suc j"] by simp
  qed
  then have "f r \<inter> (\<Union>x \<in> set rs. f x) = {}" by blast
  moreover have "card (\<Union>x \<in> set rs. f x) = (\<Sum>x\<leftarrow>rs. card (f x))"
  proof (rule Cons.IH)
    show "f (rs ! i) \<inter> f (rs ! j) = {}" if "i < j" "j < length rs" for i j
      using Cons.prems(2)[of "Suc i" "Suc j"] that by simp
  qed (use Cons.prems(1) in auto)
  ultimately show ?case using Cons.prems(1) by (simp add: card_Un_disjoint)
qed

lemma card_UN_le_sum_list:
  "(\<And>r. r \<in> set rs \<Longrightarrow> finite (f r)) \<Longrightarrow> card (\<Union>r \<in> set rs. f r) \<le> (\<Sum>r\<leftarrow>rs. card (f r))"
proof (induction rs)
  case (Cons r rs)
  have "card (\<Union>x \<in> set (r # rs). f x) \<le> card (f r) + card (\<Union>x \<in> set rs. f x)"
    by (simp add: card_Un_le)
  also have "\<dots> \<le> card (f r) + (\<Sum>x\<leftarrow>rs. card (f x))" using Cons by simp
  finally show ?case by simp
qed simp

definition free_regions :: "MemoryRegion list \<Rightarrow> MemoryRegion list" where
  "free_regions rs = filter (\<lambda>r. is_free (mr_kind r)) rs"

definition disjoint_regions :: "MemoryRegion list \<Rightarrow> bool" where
  "disjoint_regions rs \<longleftrightarrow> (\<forall>j < length rs. \<forall>i < j. region_pfns (rs ! i) \<inter> region_pfns (rs ! j) = {})"

lemma card_region_pfns [simp]: "card (region_pfns r) = mr_length r div PAGE_SIZE"
  by (simp add: region_pfns_def)

lemma finite_region_pfns [simp]: "finite (region_pfns r)"
  by (simp add: region_pfns_def)

lemma free_region_pfns_eq: "free_region_pfns rs = (\<Union>r \<in> set (free_regions rs). region_pfns r)"
  by (auto simp: free_region_pfns_def free_regions_def)

lemma card_free_region_pfns:
  "card (free_region_pfns rs) \<le> (\<Sum>r\<leftarrow>free_regions rs. mr_length r div PAGE_SIZE)"
  using card_UN_le_sum_list[of "free_regions rs" region_pfns] by (simp add: free_region_pfns_eq)

lemma card_free_region_pfns_disjoint:
  "disjoint_regions (free_regions rs) \<Longrightarrow>
     card (free_region_pfns rs) = (\<Sum>r\<leftarrow>free_regions rs. mr_length r div PAGE_SIZE)"
  using sum_region_pages[of "free_regions rs" region_pfns]
  by (simp add: free_region_pfns_eq disjoint_regions_def)

text \<open>The frames the bitmap itself occupies.\<close>

definition bitmap_pfns :: "nat \<Rightarrow> nat \<Rightarrow> nat set" where
  "bitmap_pfns mp home = {home div PAGE_SIZE..<home div PAGE_SIZE
     + div_ceil (div_ceil (div_ceil mp PAGE_SIZE) 8) PAGE_SIZE}"

lemma region_end_le_total:
  assumes "max_phys rs 0 = Some mp" and "r \<in> set rs"
  shows "mr_base r div PAGE_SIZE + mr_length r div PAGE_SIZE \<le> div_ceil mp PAGE_SIZE"
proof (cases "mr_length r div PAGE_SIZE")
  case 0
  have "mr_base r \<le> mp" using max_phys_bound[OF assms(1)] assms(2) by fastforce
  then have "mr_base r div PAGE_SIZE * PAGE_SIZE \<le> mp"
    by (meson div_times_less_eq_dividend le_trans)
  show ?thesis
  proof (cases "mr_base r div PAGE_SIZE")
    case (Suc k)
    then have "k * PAGE_SIZE < mp"
      using \<open>mr_base r div PAGE_SIZE * PAGE_SIZE \<le> mp\<close> by (simp add: PAGE_SIZE_def)
    then have "k < div_ceil mp PAGE_SIZE" by (simp add: less_div_ceil_iff PAGE_SIZE_def)
    then show ?thesis using Suc 0 by simp
  qed (use 0 in simp)
next
  case (Suc k)
  then have "mr_base r div PAGE_SIZE + k \<in> region_pfns r" by (simp add: region_pfns_def)
  from region_pfn_bound[OF this] have "(mr_base r div PAGE_SIZE + k) * PAGE_SIZE < mp"
    using max_phys_bound[OF assms(1)] assms(2) by fastforce
  then have "mr_base r div PAGE_SIZE + k < div_ceil mp PAGE_SIZE"
    by (simp add: less_div_ceil_iff PAGE_SIZE_def)
  then show ?thesis using Suc by simp
qed

lemma bitmap_bytes_enough: "n \<le> 8 * div_ceil n 8"
  using less_div_ceil_iff[of 8 "div_ceil n 8" n] by (simp add: mult.commute)

lemma total_pfns_bound: "mp < 2 ^ 64 \<Longrightarrow> div_ceil mp PAGE_SIZE \<le> 2 ^ 52"
  by (rule ccontr) (auto simp: not_le less_div_ceil_iff PAGE_SIZE_def)

lemma pmm_init_spec:
  assumes mp: "max_phys regions 0 = Some mp" and pos: "0 < mp"
    and home: "bitmap_home regions (div_ceil (div_ceil (div_ceil mp PAGE_SIZE) 8) PAGE_SIZE) = Some home"
  shows "\<exists>st p. pmm_init regions = Some st \<and> PMM st = Some p \<and> pmm_inv p
    \<and> TOTAL_FRAMES st = total_pfns p \<and> total_pfns p = div_ceil mp PAGE_SIZE
    \<and> free_pfns p = free_region_pfns regions - bitmap_pfns mp home - {0}
    \<and> card (free_pfns p) \<le> FREE_FRAMES st
    \<and> (disjoint_regions (free_regions regions) \<longrightarrow> frame_inv st)"
proof -
  define total where "total = div_ceil mp PAGE_SIZE"
  define bytes where "bytes = div_ceil total 8"
  define pages where "pages = div_ceil bytes PAGE_SIZE"
  define n where "n = (\<Sum>r\<leftarrow>free_regions regions. mr_length r div PAGE_SIZE)"
  define p where "p = \<lparr>bitmap = replicate bytes (0xFF :: u8), base_pfn = 0, total_pfns = total, next_hint = 0\<rparr>"
  let ?B = "{home div PAGE_SIZE..<home div PAGE_SIZE + pages}" and ?F = "free_region_pfns regions"
  have len: "total_pfns p \<le> 8 * length (bitmap p)"
    by (simp add: p_def bytes_def bitmap_bytes_enough)
  have none: "free_pfns p = {}"
    using len by (auto simp: free_pfns_def p_def bit_at_all_ones)
  have tp: "0 < total" using pos by (simp add: total_def less_div_ceil_iff PAGE_SIZE_def)
  have tb: "total \<le> 2 ^ 52"
    unfolding total_def using max_phys_bound[OF mp] by (intro total_pfns_bound) simp
  obtain p1 where p1: "clear_regions p regions 0 = Some (p1, n)" "same_frames p p1" "free_pfns p1 = ?F"
    using clear_regions_spec[OF len, of regions 0] region_end_le_total[OF mp] none
    by (auto simp: p_def total_def n_def free_regions_def)
  have card1: "card ?F \<le> n" unfolding n_def by (rule card_free_region_pfns)
  from bitmap_home_Some[OF home] obtain r where "r \<in> set regions" "mr_base r = home"
    "pages \<le> mr_length r div PAGE_SIZE" by (auto simp: pages_def bytes_def total_def)
  with region_end_le_total[OF mp, of r] have fits: "home div PAGE_SIZE + pages \<le> total"
    by (simp add: total_def)
  obtain p2 where p2: "reserve_range p1 (home div PAGE_SIZE) pages n = Some (p2, n - card (?F \<inter> ?B))"
      "same_frames p1 p2" "free_pfns p2 = ?F - ?B"
    using reserve_range_spec[of p1 "home div PAGE_SIZE" pages n] len p1(2,3) card1 fits
    by (auto simp: same_frames_def p_def)
  obtain p3 where p3: "reserve_null p2 (n - card (?F \<inter> ?B)) =
        Some (p3, n - card (?F \<inter> ?B) - card ((?F - ?B) \<inter> {0}))"
      "same_frames p2 p3" "free_pfns p3 = ?F - ?B - {0}"
    using reserve_null_spec[of p2 "n - card (?F \<inter> ?B)"] len p1(2) p2(2,3) tp
    by (simp add: same_frames_def p_def) blast
  let ?free = "n - card (?F \<inter> ?B) - card ((?F - ?B) \<inter> {0})"
  let ?st = "\<lparr>PMM = Some p3, TOTAL_FRAMES = total, FREE_FRAMES = ?free\<rparr>"
  have init: "pmm_init regions = Some ?st"
    using mp home p1(1) p2(1) p3(1)
    by (simp add: pmm_init_def Let_def p_def total_def bytes_def pages_def)
  have sf: "same_frames p p3" using p1(2) p2(2) p3(2) same_frames_trans by blast
  then have inv: "pmm_inv p3" using len tp tb by (simp add: pmm_inv_def same_frames_def p_def)
  have fin: "finite ?F" by (simp add: free_region_pfns_eq)
  have card3: "card (free_pfns p3) = card ?F - card (?F \<inter> ?B) - card ((?F - ?B) \<inter> {0})"
    unfolding p3(3) using fin by (simp add: card_Diff_subset_Int)
  show ?thesis
    using init inv sf p3(3) card3 card1 card_free_region_pfns_disjoint[of regions]
    by (intro exI[of _ ?st] exI[of _ p3])
      (auto simp: same_frames_def p_def total_def bytes_def pages_def bitmap_pfns_def frame_inv_def n_def)
qed

section \<open>Properties\<close>

lemma free_pfns_code [code]:
  "free_pfns p = set (filter (\<lambda>pfn. \<not> bit_at (bitmap p) pfn) [0..<total_pfns p])"
  by (auto simp: free_pfns_def)

declare alloc_one_loop.simps [code]

text \<open>A memory map with three usable frames (one of them frame 0, which holds the bitmap), a
  reserved hole, and two reclaimable frames followed by half a page.\<close>

definition demo_map :: "MemoryRegion list" where
  "demo_map = [\<lparr>mr_base = 0, mr_length = 0x3000, mr_kind = Usable\<rparr>,
     \<lparr>mr_base = 0x3000, mr_length = 0x6000, mr_kind = Reserved\<rparr>,
     \<lparr>mr_base = 0x9000, mr_length = 0x2800, mr_kind = BootloaderReclaimable\<rparr>]"

definition demo_frames :: frame_state where
  "demo_frames = the (pmm_init demo_map)"

text \<open>
  C1: A call of \<open>alloc_frame\<close> in a state that satisfies the allocator's invariant either hands
  out a frame or reports exhaustion, with nothing changed. The frame it hands out is the first free
  one at or above the hint (the lowest free one when there is none above), is never frame 0, and is
  the only one to leave the free set; the invariant, the counter included, holds afterwards. The
  call fails to return in exactly one situation: no frame is free and the hint is 0.
\<close>

theorem alloc_frame_correct:
  assumes "frame_inv st"
  shows "case alloc_frame st of
      None \<Rightarrow> free_set st = {} \<and> next_hint (the (PMM st)) = 0
    | Some (None, st') \<Rightarrow> free_set st = {} \<and> 0 < next_hint (the (PMM st)) \<and> st' = st
    | Some (Some phys, st') \<Rightarrow>
        (\<exists>pfn. phys = pfn * PAGE_SIZE \<and> next_free (the (PMM st)) pfn \<and> pfn \<noteq> 0
           \<and> free_set st' = free_set st - {pfn} \<and> frame_inv st' \<and> search_ends st')"
proof (cases "free_set st = {}")
  case False
  with assms show ?thesis by (rule alloc_frame_found) auto
next
  case True
  then have "search_ends st \<longleftrightarrow> 0 < next_hint (the (PMM st))"
    using assms by (auto simp: search_ends_def elim: frame_inv_cases)
  then show ?thesis
    using assms True alloc_frame_none[of st] alloc_frame_hangs[of st] by (cases "search_ends st") auto
qed

theorem alloc_frame_correct_witness:
  "frame_inv demo_frames \<and> map_option fst (alloc_frame demo_frames) = Some (Some 0x1000)
     \<and> (\<exists>pfn. next_free (the (PMM demo_frames)) pfn \<and> 0x1000 = pfn * PAGE_SIZE)"
proof -
  have inv: "frame_inv demo_frames" by code_simp
  have first: "map_option fst (alloc_frame demo_frames) = Some (Some 0x1000)" by code_simp
  then obtain st' where "alloc_frame demo_frames = Some (Some 0x1000, st')" by auto
  with alloc_frame_correct[OF inv] have "\<exists>pfn. next_free (the (PMM demo_frames)) pfn \<and> 0x1000 = pfn * PAGE_SIZE"
    by auto
  with inv first show ?thesis by blast
qed

text \<open>
  C2: \<open>alloc_contig(n)\<close>, for a positive \<open>n\<close>, always returns. It hands out the lowest run of \<open>n\<close>
  free frames and removes exactly that run from the free set, keeping the invariant and the counter;
  it reports failure only when no such run exists, and then changes nothing.
\<close>

theorem alloc_contig_correct:
  assumes "frame_inv st" and "0 < n"
  shows "(\<exists>start st'. alloc_contig st n = Some (Some (start * PAGE_SIZE), st')
            \<and> {start..<start + n} \<subseteq> free_set st \<and> (\<forall>s < start. \<not> {s..<s + n} \<subseteq> free_set st)
            \<and> free_set st' = free_set st - {start..<start + n} \<and> frame_inv st' \<and> start \<noteq> 0)
       \<or> alloc_contig st n = Some (None, st) \<and> (\<forall>s. \<not> {s..<s + n} \<subseteq> free_set st)"
  using alloc_contig_spec[OF assms] .

theorem alloc_contig_correct_witness:
  "frame_inv demo_frames \<and> map_option fst (alloc_contig demo_frames 2) = Some (Some 0x1000)
     \<and> (\<exists>start. start * PAGE_SIZE = 0x1000 \<and> {start..<start + 2} \<subseteq> free_set demo_frames)"
proof -
  have inv: "frame_inv demo_frames" by code_simp
  have first: "map_option fst (alloc_contig demo_frames 2) = Some (Some 0x1000)" by code_simp
  then obtain st where st: "alloc_contig demo_frames 2 = Some (Some 0x1000, st)" by auto
  from alloc_contig_correct[OF inv zero_less_numeral[of "num.Bit0 num.One"]] st
  obtain start where "Some (Some 0x1000, st) = Some (Some (start * PAGE_SIZE), st)"
    "{start..<start + 2} \<subseteq> free_set demo_frames" by fastforce
  then have "\<exists>start. start * PAGE_SIZE = 0x1000 \<and> {start..<start + 2} \<subseteq> free_set demo_frames" by auto
  with inv first show ?thesis by blast
qed



text \<open>
  C4: Giving back a frame that \<open>alloc_frame\<close> has just handed out restores the set of free frames,
  the invariant and the frame counter.
\<close>

theorem free_frame_undoes_alloc_frame:
  assumes "frame_inv st" and "alloc_frame st = Some (Some phys, st1)"
  shows "\<exists>st2. free_frame st1 phys = Some st2 \<and> frame_inv st2 \<and> free_set st2 = free_set st
           \<and> free_frames st2 = free_frames st"
proof -
  from fa.alloc_then_free[OF assms] obtain st2 where
    st2: "free_frame st1 phys = Some st2" "frame_inv st2" "free_set st2 = free_set st" by blast
  have "FREE_FRAMES s = card (free_set s)" if "frame_inv s" for s
    using that by (rule frame_inv_cases) simp
  with st2 assms(1) show ?thesis by (simp add: free_frames_def)
qed

theorem free_frame_undoes_alloc_frame_witness:
  "frame_inv demo_frames \<and> (\<exists>st1 st2. alloc_frame demo_frames = Some (Some 0x1000, st1)
     \<and> free_frame st1 0x1000 = Some st2 \<and> free_set st2 = free_set demo_frames)"
proof -
  have inv: "frame_inv demo_frames" by code_simp
  have "map_option fst (alloc_frame demo_frames) = Some (Some 0x1000)" by code_simp
  then obtain st1 where "alloc_frame demo_frames = Some (Some 0x1000, st1)" by auto
  with free_frame_undoes_alloc_frame[OF inv this] inv show ?thesis by blast
qed

end
