(* ===== verification/Byte_Codec.thy ===== *)
theory Byte_Codec
  imports Prelude
begin

text \<open>
  Little- and big-endian byte encodings of machine words (\<open>to_le_bytes\<close>, \<open>from_le_bytes\<close>,
  \<open>to_be_bytes\<close>, \<open>from_be_bytes\<close> of the Rust standard library), and byte-addressed memory with
  block reads and writes. Page tables, disk structures, network packets and device queues all use
  these.
\<close>

section \<open>Words and bytes\<close>

fun word_to_le :: "nat \<Rightarrow> 'a::len word \<Rightarrow> bytes" where
  "word_to_le 0 w = []"
| "word_to_le (Suc n) w = ucast w # word_to_le n (drop_bit 8 w)"

fun le_to_word :: "bytes \<Rightarrow> 'a::len word" where
  "le_to_word [] = 0"
| "le_to_word (b # bs) = ucast b OR push_bit 8 (le_to_word bs)"

definition word_to_be :: "nat \<Rightarrow> 'a::len word \<Rightarrow> bytes" where
  "word_to_be n w = rev (word_to_le n w)"

definition be_to_word :: "bytes \<Rightarrow> 'a::len word" where
  "be_to_word bs = le_to_word (rev bs)"

lemma length_word_to_le [simp]: "length (word_to_le n w) = n"
  by (induction n arbitrary: w) auto

lemma length_word_to_be [simp]: "length (word_to_be n w) = n"
  by (simp add: word_to_be_def)

lemma le_to_word_word_to_le: "le_to_word (word_to_le n w) = take_bit (8 * n) w"
proof (induction n arbitrary: w)
  case 0
  then show ?case by simp
next
  case (Suc n)
  have "bit (ucast (ucast w :: u8) OR push_bit 8 (take_bit (8 * n) (drop_bit 8 w))) i
      \<longleftrightarrow> bit (take_bit (8 * Suc n) w) i" if "i < LENGTH('a)" for i
    using that by (cases "i < 8") (auto simp: bit_simps)
  then show ?case using Suc by (auto intro!: bit_word_eqI)
qed

lemma le_word_roundtrip [simp]:
  "LENGTH('a::len) \<le> 8 * n \<Longrightarrow> le_to_word (word_to_le n (w :: 'a word)) = w"
  by (simp add: le_to_word_word_to_le take_bit_word_eq_self)

lemma be_word_roundtrip [simp]:
  "LENGTH('a::len) \<le> 8 * n \<Longrightarrow> be_to_word (word_to_be n (w :: 'a word)) = w"
  by (simp add: be_to_word_def word_to_be_def)

lemma word_to_le_le_to_word:
  "8 * length bs \<le> LENGTH('a::len) \<Longrightarrow> word_to_le (length bs) (le_to_word bs :: 'a word) = bs"
proof (induction bs)
  case Nil
  then show ?case by simp
next
  case (Cons b bs)
  have low: "ucast (ucast b OR push_bit 8 (le_to_word bs :: 'a word)) = b"
    using Cons.prems by (intro bit_word_eqI) (auto simp: bit_simps)
  have "drop_bit 8 (ucast b OR push_bit 8 (le_to_word bs :: 'a word)) =
      take_bit (LENGTH('a) - 8) (le_to_word bs :: 'a word)"
    by (intro bit_word_eqI) (auto simp: bit_simps dest: bit_imp_le_length)
  moreover have "take_bit (LENGTH('a) - 8) (le_to_word bs :: 'a word) = le_to_word bs"
    if "8 * length bs \<le> LENGTH('a) - 8"
  proof -
    have "le_to_word bs = take_bit (8 * length bs) (le_to_word bs :: 'a word)"
      using Cons le_to_word_word_to_le[of "length bs" "le_to_word bs :: 'a word"] by simp
    then show ?thesis using that by (metis take_bit_take_bit min_absorb2)
  qed
  ultimately show ?case using Cons low by simp
qed

lemma word_to_be_be_to_word:
  "8 * length bs \<le> LENGTH('a::len) \<Longrightarrow> word_to_be (length bs) (be_to_word bs :: 'a word) = bs"
  using word_to_le_le_to_word[of "rev bs", where 'a = 'a] by (simp add: be_to_word_def word_to_be_def)

lemma le_to_word_zeros [simp]: "le_to_word (replicate n 0) = 0"
  by (induction n) auto

section \<open>Byte-addressed memory\<close>

type_synonym memory = "nat \<Rightarrow> u8"

definition mem_read :: "memory \<Rightarrow> nat \<Rightarrow> nat \<Rightarrow> bytes" where
  "mem_read m a n = map (\<lambda>i. m (a + i)) [0..<n]"

definition mem_write :: "memory \<Rightarrow> nat \<Rightarrow> bytes \<Rightarrow> memory" where
  "mem_write m a bs = (\<lambda>x. if a \<le> x \<and> x < a + length bs then bs ! (x - a) else m x)"

definition mem_fill :: "memory \<Rightarrow> nat \<Rightarrow> u8 \<Rightarrow> nat \<Rightarrow> memory" where
  "mem_fill m a b n = (\<lambda>x. if a \<le> x \<and> x < a + n then b else m x)"

lemma length_mem_read [simp]: "length (mem_read m a n) = n"
  by (simp add: mem_read_def)

lemma mem_read_write_same [simp]: "mem_read (mem_write m a bs) a (length bs) = bs"
  by (auto simp: mem_read_def mem_write_def intro: nth_equalityI)

lemma mem_read_write_disjoint:
  "a + n \<le> b \<or> b + length bs \<le> a \<Longrightarrow> mem_read (mem_write m b bs) a n = mem_read m a n"
  by (auto simp: mem_read_def mem_write_def)

lemma mem_read_fill_inside:
  "b \<le> a \<Longrightarrow> a + n \<le> b + k \<Longrightarrow> mem_read (mem_fill m b v k) a n = replicate n v"
  by (auto simp: mem_read_def mem_fill_def intro: nth_equalityI)

lemma mem_read_fill_disjoint:
  "a + n \<le> b \<or> b + k \<le> a \<Longrightarrow> mem_read (mem_fill m b v k) a n = mem_read m a n"
  by (auto simp: mem_read_def mem_fill_def)

lemma mem_write_outside: "x < a \<or> a + length bs \<le> x \<Longrightarrow> mem_write m a bs x = m x"
  by (auto simp: mem_write_def)

lemma mem_write_inside: "i < length bs \<Longrightarrow> mem_write m a bs (a + i) = bs ! i"
  by (simp add: mem_write_def)

lemma mem_fill_outside: "x < a \<or> a + n \<le> x \<Longrightarrow> mem_fill m a b n x = m x"
  by (auto simp: mem_fill_def)

end
