(* ===== verification/Vmm.thy ===== *)
theory Vmm
  imports Pmm Byte_Codec "HOL-Library.Monad_Syntax" "HOL-Library.Sublist"
begin

text \<open>
  The virtual memory manager, \<open>kernel/src/mm/vmm.rs\<close>. Physical memory is a byte-addressed store
  shared by the page tables and by the frames they map. A reference to a page table is the physical
  address it is reached at through the direct map; forming it aborts when the sum with
  \<^const>\<open>HHDM_OFFSET\<close> overflows.

  The page-table entry type, its flag constants and the address types belong to the crate
  \<open>x86_64\<close>. They are the record \<open>x86_api\<close>, an argument of every definition that uses them; what
  is relied on is the predicate \<open>x86_laws\<close>, and \<open>x86_impl\<close> is the layout of the architecture.
\<close>

section \<open>The interface to the page-table entries\<close>

record x86_api =
  PTF_PRESENT :: u64
  PTF_WRITABLE :: u64
  PTF_USER_ACCESSIBLE :: u64
  PTF_WRITE_THROUGH :: u64
  PTF_NO_CACHE :: u64
  PTF_NO_EXECUTE :: u64
  PTF_all :: u64
  pt_flags :: "u64 \<Rightarrow> u64"
  pt_addr :: "u64 \<Rightarrow> nat"
  pt_set_addr :: "nat \<Rightarrow> u64 \<Rightarrow> u64 may_stop"
  pt_set_flags :: "u64 \<Rightarrow> u64 \<Rightarrow> u64"
  va_canonical :: "nat \<Rightarrow> bool"

definition contains :: "u64 \<Rightarrow> u64 \<Rightarrow> bool" where
  "contains fs f \<longleftrightarrow> fs AND f = f"

section \<open>Mapping flags\<close>

type_synonym MapFlags = u64

definition MF_WRITE :: MapFlags where "MF_WRITE = 1"
definition MF_USER :: MapFlags where "MF_USER = 2"
definition MF_NX :: MapFlags where "MF_NX = 4"
definition MF_MMIO :: MapFlags where "MF_MMIO = 8"

definition leaf :: "x86_api \<Rightarrow> MapFlags \<Rightarrow> u64" where
  "leaf P self =
     (let f = PTF_PRESENT P;
          f = (if contains self MF_WRITE then f OR PTF_WRITABLE P else f);
          f = (if contains self MF_USER then f OR PTF_USER_ACCESSIBLE P else f);
          f = (if contains self MF_NX then f OR PTF_NO_EXECUTE P else f);
          f = (if contains self MF_MMIO then f OR (PTF_NO_CACHE P OR PTF_WRITE_THROUGH P) else f)
      in f)"

definition intermediate :: "x86_api \<Rightarrow> MapFlags \<Rightarrow> u64" where
  "intermediate P self =
     (let f = PTF_PRESENT P OR PTF_WRITABLE P;
          f = (if contains self MF_USER then f OR PTF_USER_ACCESSIBLE P else f)
      in f)"

datatype MapError = OutOfMemory | AlreadyMapped | Misaligned | NoVirtualSpace

section \<open>State\<close>

record AddressSpace =
  pml4_phys :: nat

record vm_state =
  frames :: frame_state
  ram :: memory
  KERNEL_AS :: "AddressSpace option"
  MMIO_NEXT :: nat

definition MMIO_VA_BASE :: nat where "MMIO_VA_BASE = 0xFFFF900000000000"
definition MMIO_VA_END :: nat where "MMIO_VA_END = 0xFFFF900040000000"
definition USER_IPC_BASE :: nat where "USER_IPC_BASE = 0x20000000"
definition USER_IPC_END :: nat where "USER_IPC_END = 0x60000000"

text \<open>\<open>init\<close> reads the root of the tables from CR3, an argument here.\<close>

definition vmm_init :: "nat \<Rightarrow> vm_state \<Rightarrow> vm_state" where
  "vmm_init cr3 st = st\<lparr>KERNEL_AS := Some \<lparr>pml4_phys = cr3\<rparr>\<rparr>"

definition vmm_kernel :: "vm_state \<Rightarrow> AddressSpace may_stop" where
  "vmm_kernel st = KERNEL_AS st"

section \<open>Page tables in memory\<close>

definition entry_get :: "memory \<Rightarrow> nat \<Rightarrow> nat \<Rightarrow> u64" where
  "entry_get m t i = le_to_word (mem_read m (t + 8 * i) 8)"

definition entry_put :: "memory \<Rightarrow> nat \<Rightarrow> nat \<Rightarrow> u64 \<Rightarrow> memory" where
  "entry_put m t i e = mem_write m (t + 8 * i) (word_to_le 8 e)"

definition present :: "x86_api \<Rightarrow> u64 \<Rightarrow> bool" where
  "present P e \<longleftrightarrow> contains (pt_flags P e) (PTF_PRESENT P)"

definition pml4_ref :: "nat \<Rightarrow> nat may_stop" where
  "pml4_ref phys = map_option (\<lambda>_. phys) (u64_add phys HHDM_OFFSET)"

definition pml4_idx :: "nat \<Rightarrow> nat" where "pml4_idx v = v div 2 ^ 39 mod 512"
definition pdpt_idx :: "nat \<Rightarrow> nat" where "pdpt_idx v = v div 2 ^ 30 mod 512"
definition pd_idx :: "nat \<Rightarrow> nat" where "pd_idx v = v div 2 ^ 21 mod 512"
definition pt_idx :: "nat \<Rightarrow> nat" where "pt_idx v = v div 2 ^ 12 mod 512"

text \<open>The entry of \<open>ensure_child\<close> and \<open>child_mut\<close> is the one of table \<open>t\<close> at index \<open>i\<close>.\<close>

definition child_mut :: "x86_api \<Rightarrow> memory \<Rightarrow> nat \<Rightarrow> nat \<Rightarrow> nat option may_stop" where
  "child_mut P m t i =
     (let entry = entry_get m t i in
      if \<not> present P entry then Some None
      else do { c \<leftarrow> pml4_ref (pt_addr P entry); Some (Some c) })"

definition ensure_child ::
  "x86_api \<Rightarrow> vm_state \<Rightarrow> nat \<Rightarrow> nat \<Rightarrow> u64 \<Rightarrow> ((MapError + nat) \<times> vm_state) may_stop" where
  "ensure_child P st t i inter_flags =
     (let entry = entry_get (ram st) t i in
      if present P entry then
        (let existing = pt_flags P entry; union = existing OR inter_flags;
             entry' = (if union \<noteq> existing then pt_set_flags P entry union else entry);
             st' = (if union \<noteq> existing then st\<lparr>ram := entry_put (ram st) t i entry'\<rparr> else st) in
         do { c \<leftarrow> pml4_ref (pt_addr P entry'); Some (Inr c, st') })
      else
        do { (r, fs) \<leftarrow> alloc_frame (frames st);
             (case r of
                None \<Rightarrow> Some (Inl OutOfMemory, st\<lparr>frames := fs\<rparr>)
              | Some new \<Rightarrow>
                  do { c \<leftarrow> pml4_ref new;
                       entry' \<leftarrow> pt_set_addr P new inter_flags;
                       Some (Inr c, st\<lparr>frames := fs,
                         ram := entry_put (mem_fill (ram st) new 0 PAGE_SIZE) t i entry'\<rparr>) }) })"

section \<open>Operations on an address space\<close>

definition new_user :: "vm_state \<Rightarrow> (AddressSpace option \<times> vm_state) may_stop" where
  "new_user st =
     do { (r, fs) \<leftarrow> alloc_frame (frames st);
          (case r of
             None \<Rightarrow> Some (None, st\<lparr>frames := fs\<rparr>)
           | Some phys \<Rightarrow>
               do { new_pml4 \<leftarrow> pml4_ref phys;
                    k \<leftarrow> KERNEL_AS st;
                    kernel_pml4 \<leftarrow> pml4_ref (pml4_phys k);
                    let m = mem_fill (ram st) new_pml4 0 PAGE_SIZE in
                    Some (Some \<lparr>pml4_phys = phys\<rparr>, st\<lparr>frames := fs,
                      ram := foldl (\<lambda>m i. entry_put m new_pml4 i (entry_get m kernel_pml4 i)) m [256..<512]\<rparr>) }) }"

text \<open>\<open>activate\<close> loads CR3; the result is the value written. A root that is not the start of a frame
  aborts.\<close>

definition activate :: "AddressSpace \<Rightarrow> nat may_stop" where
  "activate self = (if pml4_phys self mod PAGE_SIZE = 0 \<and> pml4_phys self < 2 ^ 52
     then Some (pml4_phys self) else None)"

definition map_4k ::
  "x86_api \<Rightarrow> AddressSpace \<Rightarrow> nat \<Rightarrow> nat \<Rightarrow> MapFlags \<Rightarrow> vm_state \<Rightarrow> ((MapError + unit) \<times> vm_state) may_stop" where
  "map_4k P self virt phys flags st =
     (if virt mod PAGE_SIZE \<noteq> 0 \<or> phys mod PAGE_SIZE \<noteq> 0 then Some (Inl Misaligned, st)
      else do {
        pml4 \<leftarrow> pml4_ref (pml4_phys self);
        (r1, st1) \<leftarrow> ensure_child P st pml4 (pml4_idx virt) (intermediate P flags);
        (case r1 of Inl e \<Rightarrow> Some (Inl e, st1) | Inr pdpt \<Rightarrow> do {
          (r2, st2) \<leftarrow> ensure_child P st1 pdpt (pdpt_idx virt) (intermediate P flags);
          (case r2 of Inl e \<Rightarrow> Some (Inl e, st2) | Inr pd \<Rightarrow> do {
            (r3, st3) \<leftarrow> ensure_child P st2 pd (pd_idx virt) (intermediate P flags);
            (case r3 of Inl e \<Rightarrow> Some (Inl e, st3) | Inr pt \<Rightarrow>
              (if present P (entry_get (ram st3) pt (pt_idx virt)) then Some (Inl AlreadyMapped, st3)
               else do {
                 slot \<leftarrow> pt_set_addr P phys (leaf P flags);
                 Some (Inr (), st3\<lparr>ram := entry_put (ram st3) pt (pt_idx virt) slot\<rparr>) })) }) }) })"

text \<open>The loop \<open>for i in 0..pages\<close>: \<open>k\<close> iterations are left, the next one is \<open>i\<close>.\<close>

fun map_anon_loop ::
  "x86_api \<Rightarrow> AddressSpace \<Rightarrow> nat \<Rightarrow> nat \<Rightarrow> nat \<Rightarrow> MapFlags \<Rightarrow> vm_state \<Rightarrow> ((MapError + unit) \<times> vm_state) may_stop" where
  "map_anon_loop P self virt i 0 flags st = Some (Inr (), st)"
| "map_anon_loop P self virt i (Suc k) flags st =
     do { (r, fs) \<leftarrow> alloc_frame (frames st);
          (case r of
             None \<Rightarrow> Some (Inl OutOfMemory, st\<lparr>frames := fs\<rparr>)
           | Some frame \<Rightarrow>
               do { c \<leftarrow> pml4_ref frame;
                    off \<leftarrow> u64_mul i PAGE_SIZE;
                    va \<leftarrow> u64_add virt off;
                    (r', st') \<leftarrow> map_4k P self va frame flags
                      (st\<lparr>frames := fs, ram := mem_fill (ram st) c 0 PAGE_SIZE\<rparr>);
                    (case r' of Inl e \<Rightarrow> Some (Inl e, st')
                     | Inr _ \<Rightarrow> map_anon_loop P self virt (i + 1) k flags st') }) }"

definition map_anon ::
  "x86_api \<Rightarrow> AddressSpace \<Rightarrow> nat \<Rightarrow> nat \<Rightarrow> MapFlags \<Rightarrow> vm_state \<Rightarrow> ((MapError + unit) \<times> vm_state) may_stop" where
  "map_anon P self virt pages flags st = map_anon_loop P self virt 0 pages flags st"

definition unmap_4k :: "x86_api \<Rightarrow> AddressSpace \<Rightarrow> nat \<Rightarrow> vm_state \<Rightarrow> (nat option \<times> vm_state) may_stop" where
  "unmap_4k P self virt st =
     do { pml4 \<leftarrow> pml4_ref (pml4_phys self);
          r1 \<leftarrow> child_mut P (ram st) pml4 (pml4_idx virt);
          (case r1 of None \<Rightarrow> Some (None, st) | Some pdpt \<Rightarrow> do {
            r2 \<leftarrow> child_mut P (ram st) pdpt (pdpt_idx virt);
            (case r2 of None \<Rightarrow> Some (None, st) | Some pd \<Rightarrow> do {
              r3 \<leftarrow> child_mut P (ram st) pd (pd_idx virt);
              (case r3 of None \<Rightarrow> Some (None, st) | Some pt \<Rightarrow>
                (let slot = entry_get (ram st) pt (pt_idx virt) in
                 if \<not> present P slot then Some (None, st)
                 else if va_canonical P virt
                 then Some (Some (pt_addr P slot), st\<lparr>ram := entry_put (ram st) pt (pt_idx virt) 0\<rparr>)
                 else None)) }) }) }"

definition phys_for_virt :: "x86_api \<Rightarrow> AddressSpace \<Rightarrow> memory \<Rightarrow> nat \<Rightarrow> nat option may_stop" where
  "phys_for_virt P self m virt =
     do { pml4 \<leftarrow> pml4_ref (pml4_phys self);
          let e1 = entry_get m pml4 (pml4_idx virt) in
          if \<not> present P e1 then Some None else do {
          pdpt \<leftarrow> pml4_ref (pt_addr P e1);
          let e2 = entry_get m pdpt (pdpt_idx virt) in
          if \<not> present P e2 then Some None else do {
          pd \<leftarrow> pml4_ref (pt_addr P e2);
          let e3 = entry_get m pd (pd_idx virt) in
          if \<not> present P e3 then Some None else do {
          pt \<leftarrow> pml4_ref (pt_addr P e3);
          let e4 = entry_get m pt (pt_idx virt) in
          if \<not> present P e4 then Some None
          else Some (Some (pt_addr P e4 + virt mod PAGE_SIZE)) } } } }"

definition is_mapped_4k :: "x86_api \<Rightarrow> AddressSpace \<Rightarrow> memory \<Rightarrow> nat \<Rightarrow> bool may_stop" where
  "is_mapped_4k P self m virt =
     do { pml4 \<leftarrow> pml4_ref (pml4_phys self);
          let e1 = entry_get m pml4 (pml4_idx virt) in
          if \<not> present P e1 then Some False else do {
          pdpt \<leftarrow> pml4_ref (pt_addr P e1);
          let e2 = entry_get m pdpt (pdpt_idx virt) in
          if \<not> present P e2 then Some False else do {
          pd \<leftarrow> pml4_ref (pt_addr P e2);
          let e3 = entry_get m pd (pd_idx virt) in
          if \<not> present P e3 then Some False else do {
          pt \<leftarrow> pml4_ref (pt_addr P e3);
          Some (present P (entry_get m pt (pt_idx virt))) } } } }"

text \<open>\<open>copy_to_user\<close> and \<open>zero_user\<close> go page by page; each round moves at least one byte.\<close>

function copy_to_user_loop ::
  "x86_api \<Rightarrow> AddressSpace \<Rightarrow> nat \<Rightarrow> bytes \<Rightarrow> nat \<Rightarrow> vm_state \<Rightarrow> ((MapError + unit) \<times> vm_state) may_stop" where
  "copy_to_user_loop P self virt bs written st =
     (if written < length bs then
        do { va \<leftarrow> u64_add virt written;
             r \<leftarrow> phys_for_virt P self (ram st) va;
             (case r of None \<Rightarrow> Some (Inl NoVirtualSpace, st)
              | Some phys \<Rightarrow>
                  (let page_left = PAGE_SIZE - va mod PAGE_SIZE;
                       n = min page_left (length bs - written) in
                   do { dst \<leftarrow> pml4_ref phys;
                        copy_to_user_loop P self virt bs (written + n)
                          (st\<lparr>ram := mem_write (ram st) dst (take n (drop written bs))\<rparr>) })) }
      else Some (Inr (), st))"
  by pat_completeness auto
termination
  by (relation "measure (\<lambda>(P, self, virt, bs, written, st). length bs - written)")
    (auto simp: PAGE_SIZE_def)

declare copy_to_user_loop.simps [simp del]

definition copy_to_user ::
  "x86_api \<Rightarrow> AddressSpace \<Rightarrow> nat \<Rightarrow> bytes \<Rightarrow> vm_state \<Rightarrow> ((MapError + unit) \<times> vm_state) may_stop" where
  "copy_to_user P self virt bs st = copy_to_user_loop P self virt bs 0 st"

function zero_user_loop ::
  "x86_api \<Rightarrow> AddressSpace \<Rightarrow> nat \<Rightarrow> nat \<Rightarrow> nat \<Rightarrow> vm_state \<Rightarrow> ((MapError + unit) \<times> vm_state) may_stop" where
  "zero_user_loop P self virt len dn st =
     (if dn < len then
        do { va \<leftarrow> u64_add virt dn;
             r \<leftarrow> phys_for_virt P self (ram st) va;
             (case r of None \<Rightarrow> Some (Inl NoVirtualSpace, st)
              | Some phys \<Rightarrow>
                  (let page_left = PAGE_SIZE - va mod PAGE_SIZE;
                       n = min page_left (len - dn) in
                   do { dst \<leftarrow> pml4_ref phys;
                        zero_user_loop P self virt len (dn + n)
                          (st\<lparr>ram := mem_fill (ram st) dst 0 n\<rparr>) })) }
      else Some (Inr (), st))"
  by pat_completeness auto
termination
  by (relation "measure (\<lambda>(P, self, virt, len, dn, st). len - dn)")
    (auto simp: PAGE_SIZE_def)

declare zero_user_loop.simps [simp del]

definition zero_user ::
  "x86_api \<Rightarrow> AddressSpace \<Rightarrow> nat \<Rightarrow> nat \<Rightarrow> vm_state \<Rightarrow> ((MapError + unit) \<times> vm_state) may_stop" where
  "zero_user P self virt len st = zero_user_loop P self virt len 0 st"

section \<open>Moving pages between address spaces\<close>

definition MF_USER_RW_NX :: MapFlags where
  "MF_USER_RW_NX = MF_WRITE OR MF_USER OR MF_NX"

text \<open>Rollback: \<open>back_va\<close> of the \<open>j\<close>-th frame; the result of each \<open>map_4k\<close> is discarded.\<close>

fun steal_rollback :: "x86_api \<Rightarrow> AddressSpace \<Rightarrow> nat \<Rightarrow> nat \<Rightarrow> nat list \<Rightarrow> vm_state \<Rightarrow> vm_state may_stop" where
  "steal_rollback P self virt j [] st = Some st"
| "steal_rollback P self virt j (p # ps) st =
     do { off \<leftarrow> u64_mul j PAGE_SIZE;
          back_va \<leftarrow> u64_add virt off;
          (r, st') \<leftarrow> map_4k P self back_va p MF_USER_RW_NX st;
          steal_rollback P self virt (j + 1) ps st' }"

fun steal_loop ::
  "x86_api \<Rightarrow> AddressSpace \<Rightarrow> nat \<Rightarrow> nat \<Rightarrow> nat \<Rightarrow> nat list \<Rightarrow> vm_state \<Rightarrow> ((MapError + nat list) \<times> vm_state) may_stop" where
  "steal_loop P self virt i 0 out st = Some (Inr out, st)"
| "steal_loop P self virt i (Suc k) out st =
     do { off \<leftarrow> u64_mul i PAGE_SIZE;
          va \<leftarrow> u64_add virt off;
          (r, st') \<leftarrow> unmap_4k P self va st;
          (case r of
             Some phys \<Rightarrow> steal_loop P self virt (i + 1) k (out @ [phys]) st'
           | None \<Rightarrow> do { st'' \<leftarrow> steal_rollback P self virt 0 out st'; Some (Inl AlreadyMapped, st'') }) }"

definition steal_pages ::
  "x86_api \<Rightarrow> AddressSpace \<Rightarrow> nat \<Rightarrow> nat \<Rightarrow> vm_state \<Rightarrow> ((MapError + nat list) \<times> vm_state) may_stop" where
  "steal_pages P self virt pages st =
     (if virt mod PAGE_SIZE \<noteq> 0 then Some (Inl Misaligned, st)
      else steal_loop P self virt 0 pages [] st)"

fun install_loop ::
  "x86_api \<Rightarrow> AddressSpace \<Rightarrow> nat \<Rightarrow> nat \<Rightarrow> nat list \<Rightarrow> vm_state \<Rightarrow> ((MapError + unit) \<times> vm_state) may_stop" where
  "install_loop P self virt i [] st = Some (Inr (), st)"
| "install_loop P self virt i (phys # ps) st =
     do { off \<leftarrow> u64_mul i PAGE_SIZE;
          va \<leftarrow> u64_add virt off;
          (r, st') \<leftarrow> map_4k P self va phys MF_USER_RW_NX st;
          (case r of Inl e \<Rightarrow> Some (Inl e, st') | Inr _ \<Rightarrow> install_loop P self virt (i + 1) ps st') }"

definition install_pages ::
  "x86_api \<Rightarrow> AddressSpace \<Rightarrow> nat \<Rightarrow> nat list \<Rightarrow> vm_state \<Rightarrow> ((MapError + unit) \<times> vm_state) may_stop" where
  "install_pages P self virt fs st = install_loop P self virt 0 fs st"

text \<open>The search for a free range in the IPC window; \<open>run_start\<close>, \<open>run\<close> and \<open>va\<close> are the loop's
  variables.\<close>

function find_vm_loop ::
  "x86_api \<Rightarrow> AddressSpace \<Rightarrow> memory \<Rightarrow> nat \<Rightarrow> nat option \<Rightarrow> nat \<Rightarrow> nat \<Rightarrow> nat option may_stop" where
  "find_vm_loop P self m pages run_start run va =
     do { len \<leftarrow> u64_mul pages PAGE_SIZE;
          e \<leftarrow> u64_add va len;
          if e \<le> USER_IPC_END then
            do { mapped \<leftarrow> is_mapped_4k P self m va;
                 if mapped then find_vm_loop P self m pages None 0 (va + PAGE_SIZE)
                 else
                   (let run_start' = (if run = 0 then Some va else run_start); run' = run + 1 in
                    if run' = pages then Some run_start'
                    else find_vm_loop P self m pages run_start' run' (va + PAGE_SIZE)) }
          else Some None }"
  by pat_completeness auto
termination
  by (relation "measure (\<lambda>(P, self, m, pages, run_start, run, va). USER_IPC_END + 1 - va)")
    (auto simp: PAGE_SIZE_def checked_simps)

declare find_vm_loop.simps [simp del]

definition find_user_vm_range :: "x86_api \<Rightarrow> AddressSpace \<Rightarrow> memory \<Rightarrow> nat \<Rightarrow> nat option may_stop" where
  "find_user_vm_range P self m pages = find_vm_loop P self m pages None 0 USER_IPC_BASE"

section \<open>Device windows\<close>

fun mmio_loop ::
  "x86_api \<Rightarrow> AddressSpace \<Rightarrow> nat \<Rightarrow> nat \<Rightarrow> nat \<Rightarrow> nat \<Rightarrow> vm_state \<Rightarrow> ((MapError + unit) \<times> vm_state) may_stop" where
  "mmio_loop P self virt_base first i 0 st = Some (Inr (), st)"
| "mmio_loop P self virt_base first i (Suc k) st =
     do { off \<leftarrow> u64_mul i PAGE_SIZE;
          v \<leftarrow> u64_add virt_base off;
          p \<leftarrow> u64_add first off;
          (r, st') \<leftarrow> map_4k P self v p (MF_WRITE OR MF_NX OR MF_MMIO) st;
          (case r of Inl e \<Rightarrow> Some (Inl e, st')
           | Inr _ \<Rightarrow> mmio_loop P self virt_base first (i + 1) k st') }"

definition map_mmio :: "x86_api \<Rightarrow> nat \<Rightarrow> nat \<Rightarrow> vm_state \<Rightarrow> ((MapError + nat) \<times> vm_state) may_stop" where
  "map_mmio P phys bs st =
     do { let page_off = phys mod PAGE_SIZE;
          let first = phys - phys mod PAGE_SIZE;
          e \<leftarrow> u64_add phys bs;
          e \<leftarrow> u64_add e PAGE_SIZE;
          e \<leftarrow> u64_sub e 1;
          let last = e - e mod PAGE_SIZE;
          d \<leftarrow> u64_sub last first;
          let pages = d div PAGE_SIZE;
          let base = MMIO_NEXT st;
          lim \<leftarrow> u64_add base (pages * PAGE_SIZE);
          if MMIO_VA_END < lim then Some (Inl NoVirtualSpace, st)
          else do {
            let st1 = st\<lparr>MMIO_NEXT := lim\<rparr>;
            as \<leftarrow> KERNEL_AS st1;
            (r, st2) \<leftarrow> mmio_loop P as base first 0 pages st1;
            (case r of Inl err \<Rightarrow> Some (Inl err, st2)
             | Inr _ \<Rightarrow> do { v \<leftarrow> u64_add base page_off; Some (Inr v, st2) }) } }"

section \<open>Kernel heap set-up\<close>

text \<open>\<open>mm/heap.rs\<close>: the heap's frames are reserved in one piece; the allocator that manages them is
  a library. \<open>init\<close> aborts when there is no such run.\<close>

definition HEAP_SIZE :: nat where "HEAP_SIZE = 4 * 1024 * 1024"

definition heap_init :: "vm_state \<Rightarrow> (nat \<times> vm_state) may_stop" where
  "heap_init st =
     do { (r, fs) \<leftarrow> alloc_contig (frames st) (HEAP_SIZE div PAGE_SIZE);
          phys \<leftarrow> r;
          virt \<leftarrow> u64_add phys HHDM_OFFSET;
          Some (virt, st\<lparr>frames := fs\<rparr>) }"

text \<open>\<open>mm::init\<close>: frame allocator, heap, then the VMM.\<close>

definition mm_init :: "MemoryRegion list \<Rightarrow> nat \<Rightarrow> vm_state \<Rightarrow> vm_state may_stop" where
  "mm_init regions cr3 st =
     do { fs \<leftarrow> pmm_init regions;
          (_, st1) \<leftarrow> heap_init (st\<lparr>frames := fs\<rparr>);
          Some (vmm_init cr3 st1) }"

end
