(* ===== verification/Swap_Remove.thy ===== *)
theory Swap_Remove
  imports Prelude
begin

text \<open>
  The loop that both \<open>sched::kill\<close> and \<open>sched::wake_all\<close> run over a vector: while the index is in
  range, an element that matches is taken out with \<open>Vec::swap_remove\<close> (the last element moves into
  its place), any other is skipped. The order of what stays is not kept; the multiset is.
\<close>

definition swap_remove :: "'a list \<Rightarrow> nat \<Rightarrow> 'a list" where
  "swap_remove xs i = butlast (xs[i := last xs])"

function drain :: "('a \<Rightarrow> bool) \<Rightarrow> 'a list \<Rightarrow> nat \<Rightarrow> 'a list \<Rightarrow> 'a list \<times> 'a list" where
  "drain p xs i taken =
     (if i < length xs then
        (if p (xs ! i) then drain p (swap_remove xs i) i (taken @ [xs ! i])
         else drain p xs (i + 1) taken)
      else (taken, xs))"
  by pat_completeness auto
termination
  by (relation "measure (\<lambda>(p, xs, i, taken). length xs - i)") (auto simp: swap_remove_def)

declare drain.simps [simp del]

lemma length_swap_remove [simp]: "length (swap_remove xs i) = length xs - 1"
  by (simp add: swap_remove_def)

lemma mset_swap_remove:
  assumes "i < length xs"
  shows "mset (swap_remove xs i) = mset xs - {#xs ! i#}"
proof -
  have ne: "xs[i := last xs] \<noteq> []" using assms by auto
  have last: "last (xs[i := last xs]) = last xs"
    using assms by (metis last_list_update list_update_id length_0_conv not_less_zero)
  have "mset (xs[i := last xs]) = add_mset (last xs) (mset xs - {#xs ! i#})"
    using assms by (simp add: mset_update)
  moreover have "mset (xs[i := last xs]) = add_mset (last xs) (mset (butlast (xs[i := last xs])))"
    using append_butlast_last_id[OF ne] last by (metis mset.simps(2) mset_append union_mset_add_mset_right add_0_right mset.simps(1))
  ultimately show ?thesis by (simp add: swap_remove_def)
qed

lemma swap_remove_nth_below: "j < i \<Longrightarrow> i < length xs \<Longrightarrow> swap_remove xs i ! j = xs ! j"
  by (simp add: swap_remove_def nth_butlast)

lemma drain_mset:
  assumes "drain p xs i taken = (t, k)" and "\<forall>j < i. j < length xs \<longrightarrow> \<not> p (xs ! j)"
  shows "mset t = mset taken + filter_mset p (mset xs) \<and> mset k = filter_mset (\<lambda>x. \<not> p x) (mset xs)"
  using assms
proof (induction p xs i taken arbitrary: t k rule: drain.induct)
  case (1 p xs i taken)
  show ?case
  proof (cases "i < length xs")
    case False
    then have eq: "t = taken" "k = xs" using "1.prems"(1) by (simp_all add: drain.simps[of p xs i])
    have "\<not> p x" if "x \<in> set xs" for x
      using that False "1.prems"(2) by (metis in_set_conv_nth not_less order_less_le_trans)
    then have "filter p xs = []" "filter (\<lambda>x. \<not> p x) xs = xs" by (simp_all add: filter_empty_conv filter_id_conv)
    then have "filter_mset p (mset xs) = {#}" "filter_mset (\<lambda>x. \<not> p x) (mset xs) = mset xs"
      by (metis mset_filter mset.simps(1))+
    with eq show ?thesis by simp
  next
    case True
    show ?thesis
    proof (cases "p (xs ! i)")
      case hit: True
      have rec: "drain p (swap_remove xs i) i (taken @ [xs ! i]) = (t, k)"
        using "1.prems"(1) True hit by (simp add: drain.simps[of p xs i])
      have below: "\<forall>j < i. j < length (swap_remove xs i) \<longrightarrow> \<not> p (swap_remove xs i ! j)"
        using "1.prems"(2) True by (simp add: swap_remove_nth_below)
      have split: "mset xs = add_mset (xs ! i) (mset (swap_remove xs i))"
        using True by (simp add: mset_swap_remove)
      show ?thesis using "1.IH"(1)[OF True hit rec below] hit by (simp add: split)
    next
      case False
      have rec: "drain p xs (i + 1) taken = (t, k)"
        using "1.prems"(1) True False by (simp add: drain.simps[of p xs i])
      have "\<forall>j < i + 1. j < length xs \<longrightarrow> \<not> p (xs ! j)"
        using "1.prems"(2) False by (auto simp: less_Suc_eq)
      then show ?thesis using "1.IH"(2)[OF True False rec] by blast
    qed
  qed
qed

lemma drain_start:
  assumes "drain p xs 0 [] = (t, k)"
  shows "mset t = filter_mset p (mset xs)" "mset k = filter_mset (\<lambda>x. \<not> p x) (mset xs)"
  using drain_mset[OF assms] by simp_all

lemma drain_sets:
  assumes "drain p xs 0 [] = (t, k)"
  shows "set t = {x \<in> set xs. p x}" "set k = {x \<in> set xs. \<not> p x}"
  using drain_start[OF assms] by (metis set_mset_filter set_mset_mset)+

lemma drain_none:
  "\<forall>x \<in> set xs. \<not> p x \<Longrightarrow> drain p xs i taken = (taken, xs)"
  by (induction p xs i taken rule: drain.induct) (subst drain.simps, simp)

end
