(* ===== verification/Sched.thy ===== *)
theory Sched
  imports Vmm Swap_Remove
begin

text \<open>
  The scheduler, \<open>kernel/src/sched/mod.rs\<close>, and the task objects of \<open>sched/task.rs\<close>. A task object
  (an \<open>Arc<Task>\<close>) is referred to by its id, which is unique; \<open>objs\<close> is the store of task objects,
  and the run queue, the wait queues, the current slot and the list of registered tasks hold ids.
  The descriptor table and the capability table of a task are kept with the file and message layers.
  What \<open>switch_context\<close> does to the registers and the stacks is the subject of \<open>Context_Switch\<close>; here a
  switch is the pair of the outgoing and the incoming task. The statics \<open>cr3\<close> and \<open>kernel_stack\<close> stand for
  the register CR3 and for the stack pointer that \<open>gdt::set_kernel_stack\<close> and
  \<open>syscall::set_kernel_stack\<close> store.
\<close>

type_synonym TaskId = nat
type_synonym WaitKey = nat

datatype TaskState = Ready | Running | Dead | Blocked

record Task =
  t_parent :: TaskId
  t_exit_code :: "32 word"
  t_kstack :: nat
  t_saved_rsp :: nat
  t_state :: TaskState
  t_addr_space :: "AddressSpace option"

record sched =
  objs :: "TaskId \<Rightarrow> Task option"
  RUN_QUEUE :: "TaskId list"
  CURRENT :: "TaskId option"
  TASKS :: "TaskId list"
  TICKS :: nat
  NEED_RESCHED :: bool
  WAIT_QUEUES :: "(WaitKey \<times> TaskId) list"
  NEXT_ID :: TaskId
  cr3 :: nat
  kernel_stack :: nat

definition KSTACK_SIZE :: nat where
  "KSTACK_SIZE = 16 * 1024"

section \<open>Task objects\<close>

text \<open>The state is stored as a byte; a byte that is none of the three tested values reads as dead.\<close>

definition state_byte :: "TaskState \<Rightarrow> u8" where
  "state_byte s = (case s of Ready \<Rightarrow> 0 | Running \<Rightarrow> 1 | Dead \<Rightarrow> 2 | Blocked \<Rightarrow> 3)"

definition byte_state :: "u8 \<Rightarrow> TaskState" where
  "byte_state b = (if b = 0 then Ready else if b = 1 then Running else if b = 3 then Blocked else Dead)"

definition task_of :: "sched \<Rightarrow> TaskId \<Rightarrow> Task" where
  "task_of s t = (case objs s t of Some x \<Rightarrow> x
     | None \<Rightarrow> \<lparr>t_parent = 0, t_exit_code = 0, t_kstack = 0, t_saved_rsp = 0, t_state = Dead, t_addr_space = None\<rparr>)"

definition state :: "sched \<Rightarrow> TaskId \<Rightarrow> TaskState" where
  "state s t = t_state (task_of s t)"

definition set_state :: "TaskId \<Rightarrow> TaskState \<Rightarrow> sched \<Rightarrow> sched" where
  "set_state t st s = s\<lparr>objs := (objs s)(t := map_option (\<lambda>x. x\<lparr>t_state := st\<rparr>) (objs s t))\<rparr>"

definition set_exit_code :: "TaskId \<Rightarrow> 32 word \<Rightarrow> sched \<Rightarrow> sched" where
  "set_exit_code t code s = s\<lparr>objs := (objs s)(t := map_option (\<lambda>x. x\<lparr>t_exit_code := code\<rparr>) (objs s t))\<rparr>"

definition kstack_top :: "Task \<Rightarrow> nat may_stop" where
  "kstack_top x = u64_add (t_kstack x) KSTACK_SIZE"

definition new_id :: "sched \<Rightarrow> TaskId \<times> sched" where
  "new_id s = (NEXT_ID s, s\<lparr>NEXT_ID := (NEXT_ID s + 1) mod 2 ^ 64\<rparr>)"

text \<open>A new task object; \<open>kstack\<close> is the address the heap gave for its stack and \<open>rsp\<close> the stack
  pointer \<open>spawn_idle\<close> or \<open>spawn_user\<close> computed.\<close>

definition new_task :: "TaskId \<Rightarrow> nat \<Rightarrow> nat \<Rightarrow> AddressSpace option \<Rightarrow> sched \<Rightarrow> TaskId \<times> sched" where
  "new_task parent kstack rsp as s =
     (let (id, s1) = new_id s in
      (id, s1\<lparr>objs := (objs s1)(id \<mapsto> \<lparr>t_parent = parent, t_exit_code = 0, t_kstack = kstack,
         t_saved_rsp = rsp, t_state = Ready, t_addr_space = as\<rparr>)\<rparr>))"

section \<open>Queues and registry\<close>

definition enqueue :: "TaskId \<Rightarrow> sched \<Rightarrow> sched" where
  "enqueue t s = s\<lparr>RUN_QUEUE := RUN_QUEUE s @ [t]\<rparr>"

definition register :: "TaskId \<Rightarrow> sched \<Rightarrow> sched" where
  "register t s = s\<lparr>TASKS := TASKS s @ [t]\<rparr>"

definition find_task :: "sched \<Rightarrow> TaskId \<Rightarrow> TaskId option" where
  "find_task s pid = List.find (\<lambda>t. t = pid) (TASKS s)"

definition is_child :: "sched \<Rightarrow> TaskId \<Rightarrow> TaskId \<Rightarrow> bool" where
  "is_child s parent child = (case find_task s child of None \<Rightarrow> False
     | Some t \<Rightarrow> t_parent (task_of s t) = parent)"

definition ticks :: "sched \<Rightarrow> nat" where
  "ticks s = TICKS s"

definition current_id :: "sched \<Rightarrow> TaskId option" where
  "current_id s = CURRENT s"

definition current :: "sched \<Rightarrow> TaskId option" where
  "current s = CURRENT s"

definition wait_key :: "TaskId \<Rightarrow> WaitKey" where
  "wait_key parent_pid = unat (0x5750000000000000 OR (of_nat parent_pid :: u64))"

definition find_exited_child :: "sched \<Rightarrow> TaskId \<Rightarrow> TaskId \<Rightarrow> (TaskId \<times> 32 word) option" where
  "find_exited_child s parent_pid pid = map_option (\<lambda>t. (t, t_exit_code (task_of s t)))
     (List.find (\<lambda>t. t_parent (task_of s t) = parent_pid \<and> (pid = 0 \<or> t = pid) \<and> state s t = Dead) (TASKS s))"

definition has_child :: "sched \<Rightarrow> TaskId \<Rightarrow> TaskId \<Rightarrow> bool" where
  "has_child s parent_pid pid = list_ex (\<lambda>t. t_parent (task_of s t) = parent_pid \<and> (pid = 0 \<or> t = pid)) (TASKS s)"

section \<open>Switching\<close>

definition prepare_to_run :: "x86_api \<Rightarrow> TaskId \<Rightarrow> sched \<Rightarrow> sched may_stop" where
  "prepare_to_run P next s =
     do { s1 \<leftarrow> (case t_addr_space (task_of s next) of
                  None \<Rightarrow> Some s
                | Some as \<Rightarrow> do { v \<leftarrow> activate as; Some (s\<lparr>cr3 := v\<rparr>) });
          stack \<leftarrow> kstack_top (task_of s next);
          if va_canonical P stack then Some (s1\<lparr>kernel_stack := stack\<rparr>) else None }"

text \<open>The result says which context switch follows: none, or from a task (none in the bootstrap
  path) to another.\<close>

type_synonym switch = "(TaskId option \<times> TaskId) option"

definition schedule :: "x86_api \<Rightarrow> sched \<Rightarrow> (switch \<times> sched) may_stop" where
  "schedule P s0 =
     (let s = s0\<lparr>NEED_RESCHED := False\<rparr> in
      case RUN_QUEUE s of
        [] \<Rightarrow> Some (None, s)
      | next # q \<Rightarrow>
          (let prev = CURRENT s;
               s1 = s\<lparr>RUN_QUEUE := q\<rparr>;
               s2 = (case prev of
                       None \<Rightarrow> s1
                     | Some p \<Rightarrow>
                         if state s1 p = Ready \<or> state s1 p = Running
                         then enqueue p (set_state p Ready s1) else s1);
               s3 = (set_state next Running s2)\<lparr>CURRENT := Some next\<rparr> in
           if prev = Some next then Some (None, s3)
           else do { s4 \<leftarrow> prepare_to_run P next s3; Some (Some (prev, next), s4) }))"

definition on_tick :: "x86_api \<Rightarrow> sched \<Rightarrow> (switch \<times> sched) may_stop" where
  "on_tick P s = schedule P (s\<lparr>TICKS := (TICKS s + 1) mod 2 ^ 64\<rparr>)"

definition yield_now :: "x86_api \<Rightarrow> sched \<Rightarrow> (switch \<times> sched) may_stop" where
  "yield_now P s = schedule P s"

definition preempt_if_needed :: "x86_api \<Rightarrow> sched \<Rightarrow> (switch \<times> sched) may_stop" where
  "preempt_if_needed P s = (if NEED_RESCHED s then schedule P s else Some (None, s))"

text \<open>\<open>run\<close>: \<open>remove(0)\<close> of an empty queue aborts.\<close>

definition sched_run :: "x86_api \<Rightarrow> sched \<Rightarrow> (switch \<times> sched) may_stop" where
  "sched_run P s =
     (case RUN_QUEUE s of
        [] \<Rightarrow> None
      | first # q \<Rightarrow>
          do { s1 \<leftarrow> prepare_to_run P first (s\<lparr>RUN_QUEUE := q, CURRENT := Some first\<rparr>);
               Some (Some (None, first), s1) })"

section \<open>Blocking, waking, exiting\<close>

definition wake_all :: "WaitKey \<Rightarrow> sched \<Rightarrow> sched" where
  "wake_all key s =
     (let (woken, wq) = drain (\<lambda>w. fst w = key) (WAIT_QUEUES s) 0 [] in
      foldl (\<lambda>s w. enqueue (snd w) (set_state (snd w) Ready s)) (s\<lparr>WAIT_QUEUES := wq\<rparr>) woken)"

definition block_on :: "x86_api \<Rightarrow> WaitKey \<Rightarrow> sched \<Rightarrow> (switch \<times> sched) may_stop" where
  "block_on P key s =
     schedule P (case CURRENT s of
       None \<Rightarrow> s
     | Some t \<Rightarrow> (set_state t Blocked s)\<lparr>WAIT_QUEUES := WAIT_QUEUES s @ [(key, t)]\<rparr>)"

definition current_exit :: "x86_api \<Rightarrow> 32 word \<Rightarrow> sched \<Rightarrow> (switch \<times> sched) may_stop" where
  "current_exit P code s =
     schedule P ((case CURRENT s of
       None \<Rightarrow> s
     | Some t \<Rightarrow> wake_all (wait_key (t_parent (task_of s t))) (set_state t Dead (set_exit_code t code s)))
         \<lparr>CURRENT := None\<rparr>)"

definition kill :: "TaskId \<Rightarrow> 32 word \<Rightarrow> sched \<Rightarrow> bool \<times> sched" where
  "kill pid code s =
     (case find_task s pid of
        None \<Rightarrow> (False, s)
      | Some t \<Rightarrow>
          (let s1 = set_state t Dead (set_exit_code t code s);
               s2 = s1\<lparr>RUN_QUEUE := snd (drain (\<lambda>x. x = pid) (RUN_QUEUE s1) 0 [])\<rparr> in
           (True, wake_all (wait_key (t_parent (task_of s2 t))) s2)))"

end
