(* ===== verification/User_Mem.thy ===== *)
theory User_Mem
  imports Vmm Sched
begin

text \<open>
  What a system call does with a pointer it is given: it reads and writes through the address space
  that is loaded in CR3, byte by byte. A page that is not mapped faults, and the page-fault
  handler does not come back, so such an access is \<^const>\<open>None\<close>; so is an address outside the user half.
  The second part is \<open>core::str::from_utf8\<close> of the standard library.
\<close>

section \<open>Access through the active page tables\<close>

definition active_as :: "sched \<Rightarrow> AddressSpace" where
  "active_as s = \<lparr>pml4_phys = cr3 s\<rparr>"

definition user_addr :: "x86_api \<Rightarrow> AddressSpace \<Rightarrow> memory \<Rightarrow> nat \<Rightarrow> nat may_stop" where
  "user_addr P as m va = (if va < 2 ^ 47 then do { r \<leftarrow> phys_for_virt P as m va; r } else None)"

fun virt_read :: "x86_api \<Rightarrow> AddressSpace \<Rightarrow> memory \<Rightarrow> nat \<Rightarrow> nat \<Rightarrow> bytes may_stop" where
  "virt_read P as m va 0 = Some []"
| "virt_read P as m va (Suc n) =
     do { pa \<leftarrow> user_addr P as m va; bs \<leftarrow> virt_read P as m (va + 1) n; Some (m pa # bs) }"

fun virt_write :: "x86_api \<Rightarrow> AddressSpace \<Rightarrow> memory \<Rightarrow> nat \<Rightarrow> bytes \<Rightarrow> memory may_stop" where
  "virt_write P as m va [] = Some m"
| "virt_write P as m va (b # bs) =
     do { pa \<leftarrow> user_addr P as m va; virt_write P as (m(pa := b)) (va + 1) bs }"

definition u64_at :: "bytes \<Rightarrow> nat \<Rightarrow> nat" where
  "u64_at bs off = unat (le_to_word (take 8 (drop off bs)) :: u64)"

definition le64 :: "nat \<Rightarrow> bytes" where
  "le64 n = word_to_le 8 (of_nat n :: u64)"

lemma length_virt_read: "virt_read P as m va n = Some bs \<Longrightarrow> length bs = n"
proof (induction n arbitrary: va bs)
  case (Suc n)
  then show ?case by (auto split: bind_splits)
qed simp

text \<open>A page that is present through four tables is read and written back.\<close>

lemma virt_read_flat:
  assumes "\<forall>i < n. user_addr P as m (va + i) = Some (base + i)"
  shows "virt_read P as m va n = Some (mem_read m base n)"
  using assms
proof (induction n arbitrary: va base)
  case 0
  then show ?case by (simp add: mem_read_def)
next
  case (Suc n)
  have "\<forall>i < n. user_addr P as m (va + 1 + i) = Some (base + 1 + i)"
    using Suc.prems by (metis Suc_less_eq add.assoc plus_1_eq_Suc)
  then have "virt_read P as m (va + 1) n = Some (mem_read m (base + 1) n)" by (rule Suc.IH)
  moreover have "user_addr P as m va = Some base" using Suc.prems by (metis add_0_right zero_less_Suc)
  moreover have "m base # mem_read m (base + 1) n = mem_read m base (Suc n)"
    by (simp add: mem_read_def upt_conv_Cons map_Suc_upt[symmetric] del: upt_Suc)
  ultimately show ?case by simp
qed

section \<open>UTF-8\<close>

definition cont_byte :: "u8 \<Rightarrow> bool" where
  "cont_byte b \<longleftrightarrow> 0x80 \<le> b \<and> b \<le> 0xBF"

fun utf8_valid :: "bytes \<Rightarrow> bool" where
  "utf8_valid [] = True"
| "utf8_valid (a # bs) =
     (if a < 0x80 then utf8_valid bs
      else if 0xC2 \<le> a \<and> a \<le> 0xDF then
        (case bs of b # bs' \<Rightarrow> cont_byte b \<and> utf8_valid bs' | _ \<Rightarrow> False)
      else if 0xE0 \<le> a \<and> a \<le> 0xEF then
        (case bs of b # c # bs' \<Rightarrow>
           cont_byte b \<and> cont_byte c \<and> (a = 0xE0 \<longrightarrow> 0xA0 \<le> b) \<and> (a = 0xED \<longrightarrow> b \<le> 0x9F) \<and> utf8_valid bs'
         | _ \<Rightarrow> False)
      else if 0xF0 \<le> a \<and> a \<le> 0xF4 then
        (case bs of b # c # d # bs' \<Rightarrow>
           cont_byte b \<and> cont_byte c \<and> cont_byte d \<and> (a = 0xF0 \<longrightarrow> 0x90 \<le> b) \<and> (a = 0xF4 \<longrightarrow> b \<le> 0x8F)
           \<and> utf8_valid bs'
         | _ \<Rightarrow> False)
      else False)"

lemma utf8_valid_ascii: "\<forall>b \<in> set bs. b < 0x80 \<Longrightarrow> utf8_valid bs"
  by (induction bs) auto

section \<open>A flat address space for examples\<close>

text \<open>Four tables whose entries all lead on to the next one and at last to one data page, so every
  address reaches the byte of the data page at its page offset.\<close>

definition flat_ram :: "(nat \<Rightarrow> u8) \<Rightarrow> memory" where
  "flat_ram d x =
     (if x div 4096 = 5 then d (x mod 4096)
      else if 1 \<le> x div 4096 \<and> x div 4096 \<le> 4
      then (if x mod 8 = 0 then 3 else if x mod 8 = 1 then of_nat (16 * (x div 4096 + 1)) else 0)
      else 0)"

end
