(* ===== verification/Handle_Table.thy ===== *)
theory Handle_Table
  imports Prelude "HOL-Library.AList" "HOL-Library.Monad_Syntax"
begin

text \<open>
  Association lists as finite maps with a multiset of values, and the contract of a table that hands
  out integer handles. Both the capability table of a task and its descriptor table promise the
  contract; a \<open>BTreeMap\<close> of the source is an association list with distinct keys.
\<close>

section \<open>Values of an association list\<close>

definition vals :: "('k \<times> 'v) list \<Rightarrow> 'v multiset" where
  "vals al = mset (map snd al)"

definition keys :: "('k \<times> 'v) list \<Rightarrow> 'k list" where
  "keys al = map fst al"

lemma keys_Nil [simp]: "keys [] = []" and vals_Nil [simp]: "vals [] = {#}"
  by (simp_all add: keys_def vals_def)

lemma map_of_iff_keys: "map_of al k \<noteq> None \<longleftrightarrow> k \<in> set (keys al)"
  by (simp add: keys_def map_of_eq_None_iff)

lemma map_of_None_keys: "map_of al k = None \<longleftrightarrow> k \<notin> set (keys al)"
  by (simp add: keys_def map_of_eq_None_iff)

lemma distinct_keys_update [simp]: "distinct (keys al) \<Longrightarrow> distinct (keys (AList.update k v al))"
  by (simp add: keys_def distinct_update)

lemma distinct_keys_delete [simp]: "distinct (keys al) \<Longrightarrow> distinct (keys (AList.delete k al))"
  by (simp add: keys_def distinct_delete)

lemma set_keys_update [simp]: "set (keys (AList.update k v al)) = insert k (set (keys al))"
  by (simp add: keys_def update_conv' flip: dom_map_of_conv_image_fst)

lemma set_keys_delete [simp]: "set (keys (AList.delete k al)) = set (keys al) - {k}"
  by (simp add: keys_def delete_keys)

lemma update_new: "k \<notin> set (keys al) \<Longrightarrow> AList.update k v al = al @ [(k, v)]"
  by (induction al) (auto simp: keys_def)

lemma vals_update_new [simp]: "k \<notin> set (keys al) \<Longrightarrow> vals (AList.update k v al) = add_mset v (vals al)"
  by (simp add: update_new vals_def)

lemma vals_delete:
  assumes "distinct (keys al)" and "map_of al k = Some v"
  shows "vals al = add_mset v (vals (AList.delete k al))"
  using assms
proof (induction al)
  case (Cons a al)
  show ?case
  proof (cases "fst a = k")
    case True
    then have "k \<notin> fst ` set al" using Cons.prems(1) by (auto simp: keys_def)
    then show ?thesis using True Cons.prems(2) by (cases a) (simp add: vals_def)
  next
    case False
    then have "vals al = add_mset v (vals (AList.delete k al))"
      using Cons by (cases a) (auto simp: keys_def)
    then show ?thesis using False by (cases a) (simp add: vals_def)
  qed
qed simp

lemma vals_update:
  assumes "distinct (keys al)" and "map_of al k = Some v"
  shows "vals (AList.update k v' al) = add_mset v' (vals (AList.delete k al))"
proof -
  have "distinct (keys (AList.update k v' al))" using assms(1) by simp
  moreover have "map_of (AList.update k v' al) k = Some v'" by (simp add: update_conv')
  ultimately have "vals (AList.update k v' al) = add_mset v' (vals (AList.delete k (AList.update k v' al)))"
    by (rule vals_delete)
  then show ?thesis by (simp add: delete_update_same)
qed

lemma map_of_in_vals: "map_of al k = Some v \<Longrightarrow> v \<in># vals al"
  by (force simp: vals_def dest: map_of_SomeD)

section \<open>The contract of a handle table\<close>

text \<open>A handle is an \<open>i32\<close>; handing out the largest one overflows the counter and aborts.\<close>

definition i32_succ :: "int \<Rightarrow> int may_stop" where
  "i32_succ i = (if i + 1 < 2 ^ 31 then Some (i + 1) else None)"

lemma i32_succ_eq_Some [checked_simps]: "i32_succ i = Some j \<longleftrightarrow> j = i + 1 \<and> i + 1 < 2 ^ 31"
  by (auto simp: i32_succ_def)

text \<open>The loops over a list of values or handles that the clients run.\<close>

fun install_each :: "('v \<Rightarrow> 't \<Rightarrow> (int \<times> 't) may_stop) \<Rightarrow> 'v list \<Rightarrow> 't \<Rightarrow> (int list \<times> 't) may_stop" where
  "install_each put [] t = Some ([], t)"
| "install_each put (v # vs) t = do { (i, t1) \<leftarrow> put v t; (is, t2) \<leftarrow> install_each put vs t1; Some (i # is, t2) }"

fun remove_each :: "(int \<Rightarrow> 't \<Rightarrow> 'v option \<times> 't) \<Rightarrow> int list \<Rightarrow> 't \<Rightarrow> 'v list \<times> 't" where
  "remove_each del [] t = ([], t)"
| "remove_each del (i # is) t =
     (let (r, t1) = del i t; (vs, t2) = remove_each del is t1 in
      ((case r of None \<Rightarrow> vs | Some v \<Rightarrow> v # vs), t2))"

locale handle_table =
  fixes ok :: "'t \<Rightarrow> bool"
    and fresh :: "'t \<Rightarrow> int"
    and get :: "'t \<Rightarrow> int \<Rightarrow> 'v option"
    and contents :: "'t \<Rightarrow> 'v multiset"
    and install :: "'v \<Rightarrow> 't \<Rightarrow> (int \<times> 't) may_stop"
    and remove :: "int \<Rightarrow> 't \<Rightarrow> 'v option \<times> 't"
  assumes get_below: "ok t \<Longrightarrow> get t i = Some v \<Longrightarrow> i < fresh t \<and> v \<in># contents t"
    and install_law: "ok t \<Longrightarrow> install v t = Some (i, t') \<Longrightarrow>
      ok t' \<and> i = fresh t \<and> fresh t' = fresh t + 1 \<and> get t' = (get t)(i \<mapsto> v) \<and> contents t' = add_mset v (contents t)"
    and install_total: "fresh t + 1 < 2 ^ 31 \<Longrightarrow> install v t \<noteq> None"
    and remove_law: "ok t \<Longrightarrow> remove i t = (r, t') \<Longrightarrow>
      ok t' \<and> r = get t i \<and> fresh t' = fresh t \<and> get t' = (get t)(i := None)
      \<and> contents t = contents t' + (case r of None \<Rightarrow> {#} | Some v \<Rightarrow> {#v#})"
begin

lemma install_fresh: "ok t \<Longrightarrow> install v t = Some (i, t') \<Longrightarrow> get t i = None"
  using install_law[of t v i t'] get_below[of t i] by (cases "get t i") auto

lemma install_keeps: "ok t \<Longrightarrow> install v t = Some (i, t') \<Longrightarrow> j \<noteq> i \<Longrightarrow> get t' j = get t j"
  using install_law[of t v i t'] by simp

lemma get_installed: "ok t \<Longrightarrow> install v t = Some (i, t') \<Longrightarrow> get t' i = Some v"
  using install_law[of t v i t'] by simp

lemma remove_then_get: "ok t \<Longrightarrow> remove i t = (r, t') \<Longrightarrow> get t' i = None"
  using remove_law[of t i r t'] by simp

text \<open>A removed handle is never handed out again.\<close>

lemma no_reuse:
  assumes "ok t" and "get t i = Some v" and "remove i t = (r, t1)" and "install w t1 = Some (j, t2)"
  shows "j \<noteq> i"
proof -
  have "i < fresh t" using get_below[OF assms(1,2)] by simp
  moreover have "j = fresh t" using remove_law[OF assms(1,3)] install_law[OF _ assms(4)] by simp
  ultimately show ?thesis by simp
qed

lemma install_each_law:
  assumes "ok t" and "install_each install vs t = Some (is, t')"
  shows "ok t' \<and> contents t' = contents t + mset vs \<and> is = map (\<lambda>k. fresh t + int k) [0..<length vs]
    \<and> (\<forall>j < fresh t. get t' j = get t j)"
  using assms
proof (induction vs arbitrary: t "is" t')
  case (Cons v vs)
  obtain i t1 where i: "install v t = Some (i, t1)" using Cons.prems(2) by (cases "install v t") auto
  obtain js where js: "install_each install vs t1 = Some (js, t')" "is = i # js"
    using Cons.prems(2) i by (cases "install_each install vs t1") auto
  note l = install_law[OF Cons.prems(1) i]
  note r = Cons.IH[OF _ js(1)]
  have "map (\<lambda>k. fresh t + int k) [0..<length (v # vs)] = fresh t # map (\<lambda>k. fresh t + 1 + int k) [0..<length vs]"
    by (simp add: upt_conv_Cons map_Suc_upt[symmetric] comp_def add.assoc del: upt_Suc)
  then show ?case using l r js(2) by simp
qed simp

lemma remove_each_law:
  assumes "ok t" and "remove_each remove is t = (vs, t')"
  shows "ok t' \<and> contents t = contents t' + mset vs \<and> fresh t' = fresh t"
  using assms
proof (induction "is" arbitrary: t vs t')
  case (Cons i "is")
  obtain r t1 where r: "remove i t = (r, t1)" by fastforce
  obtain us t2 where u: "remove_each remove is t1 = (us, t2)" by fastforce
  note l = remove_law[OF Cons.prems(1) r]
  note m = Cons.IH[OF _ u]
  have vs: "vs = (case r of None \<Rightarrow> us | Some v \<Rightarrow> v # us)" "t' = t2" using Cons.prems(2) r u by auto
  have "contents t = contents t2 + mset us + (case r of None \<Rightarrow> {#} | Some v \<Rightarrow> {#v#})" using l m by auto
  also have "\<dots> = contents t2 + mset vs" unfolding vs(1) by (cases r) simp_all
  finally show ?case using l m vs(2) by simp
qed simp

end

end
