(* ===== verification/Ipc.thy ===== *)
theory Ipc
  imports User_Mem Handle_Table
begin

text \<open>
  Message passing, \<open>kernel/src/ipc/\<close>: capabilities, the capability table of a task, ports with their
  bounded queues, the name registry and the system calls on them. A port (an \<open>Arc<Port>\<close>) is referred
  to by its address, which is also its wait key; the address of a new port is an argument, since the
  heap chooses it. A capability (an \<open>Arc<Cap>\<close>) is a value. A reference-counted object dies with its
  last reference: \<open>drop_all\<close> runs the destructors, which free the frames of undelivered messages.
\<close>

section \<open>Error numbers\<close>

definition EPERM :: int where "EPERM = -1"
definition ENOENT :: int where "ENOENT = -2"
definition EFAULT :: int where "EFAULT = -14"
definition EINVAL :: int where "EINVAL = -22"
definition EAGAIN :: int where "EAGAIN = -11"
definition ENOMEM :: int where "ENOMEM = -12"
definition EEXIST :: int where "EEXIST = -17"
definition EBADF :: int where "EBADF = -9"
definition E2BIG :: int where "E2BIG = -7"

lemmas errno_defs = EPERM_def ENOENT_def EFAULT_def EINVAL_def EAGAIN_def ENOMEM_def EEXIST_def EBADF_def E2BIG_def

section \<open>Capabilities\<close>

type_synonym Rights = u32
type_synonym Port = nat

definition R_SEND :: Rights where "R_SEND = 1"
definition R_RECV :: Rights where "R_RECV = 2"
definition R_DUP :: Rights where "R_DUP = 4"
definition R_all :: Rights where "R_all = 7"

datatype CapObject = PortObj Port | VmObj | Registrar

record Cap =
  object :: CapObject
  rights :: Rights

definition rights_contain :: "Rights \<Rightarrow> Rights \<Rightarrow> bool" where
  "rights_contain r f \<longleftrightarrow> r AND f = f"

definition cap_port :: "Port \<Rightarrow> Rights \<Rightarrow> Cap" where
  "cap_port p r = \<lparr>object = PortObj p, rights = r\<rparr>"

definition cap_registrar :: Cap where
  "cap_registrar = \<lparr>object = Registrar, rights = 0\<rparr>"

definition as_port :: "Cap \<Rightarrow> Port option" where
  "as_port c = (case object c of PortObj p \<Rightarrow> Some p | _ \<Rightarrow> None)"

definition is_registrar :: "Cap \<Rightarrow> bool" where
  "is_registrar c = (case object c of Registrar \<Rightarrow> True | _ \<Rightarrow> False)"

section \<open>Capability tables\<close>

record CapTable =
  cap_slots :: "(int \<times> Cap) list"
  cap_next :: int

definition cap_table_new :: CapTable where
  "cap_table_new = \<lparr>cap_slots = [], cap_next = 1\<rparr>"

definition cap_install :: "Cap \<Rightarrow> CapTable \<Rightarrow> (int \<times> CapTable) may_stop" where
  "cap_install cap t =
     (let i = cap_next t in
      do { n \<leftarrow> i32_succ i;
           Some (i, \<lparr>cap_slots = AList.update i cap (cap_slots t), cap_next = n\<rparr>) })"

definition cap_get :: "CapTable \<Rightarrow> int \<Rightarrow> Cap option" where
  "cap_get t i = map_of (cap_slots t) i"

definition cap_remove :: "int \<Rightarrow> CapTable \<Rightarrow> Cap option \<times> CapTable" where
  "cap_remove i t = (map_of (cap_slots t) i, t\<lparr>cap_slots := AList.delete i (cap_slots t)\<rparr>)"

section \<open>Ports and messages\<close>

definition REG_SLOTS :: nat where "REG_SLOTS = 6"
definition MAX_IN_FLIGHT :: nat where "MAX_IN_FLIGHT = 16"
definition MAX_CAPS :: nat where "MAX_CAPS = 8"

record Message =
  m_regs :: "u64 list"
  m_caps :: "Cap list"
  m_pages :: "nat list"
  m_len :: nat

record ipc =
  vm :: vm_state
  sc :: sched
  caps :: "(TaskId \<times> CapTable) list"
  ports :: "(Port \<times> Message list) list"
  REGISTRY :: "(bytes \<times> Port) list"

definition table :: "ipc \<Rightarrow> TaskId \<Rightarrow> CapTable" where
  "table s t = (case map_of (caps s) t of None \<Rightarrow> cap_table_new | Some tb \<Rightarrow> tb)"

definition set_table :: "TaskId \<Rightarrow> CapTable \<Rightarrow> ipc \<Rightarrow> ipc" where
  "set_table t tb s = s\<lparr>caps := AList.update t tb (caps s)\<rparr>"

definition queue :: "ipc \<Rightarrow> Port \<Rightarrow> Message list" where
  "queue s p = (case map_of (ports s) p of None \<Rightarrow> [] | Some q \<Rightarrow> q)"

definition port_new :: "Port \<Rightarrow> ipc \<Rightarrow> ipc" where
  "port_new addr s = s\<lparr>ports := AList.update addr [] (ports s)\<rparr>"

definition try_push :: "Port \<Rightarrow> Message \<Rightarrow> ipc \<Rightarrow> (Message + ipc)" where
  "try_push p msg s =
     (if MAX_IN_FLIGHT \<le> length (queue s p) then Inl msg
      else Inr (s\<lparr>ports := AList.update p (queue s p @ [msg]) (ports s)\<rparr>))"

definition port_pop :: "Port \<Rightarrow> ipc \<Rightarrow> (Message \<times> ipc) option" where
  "port_pop p s =
     (case queue s p of [] \<Rightarrow> None
      | m # q \<Rightarrow> Some (m, s\<lparr>ports := AList.update p q (ports s)\<rparr>))"

subsection \<open>Destructors\<close>

fun free_all :: "nat list \<Rightarrow> frame_state \<Rightarrow> frame_state may_stop" where
  "free_all [] fs = Some fs"
| "free_all (phys # ps) fs = do { fs1 \<leftarrow> free_frame fs phys; free_all ps fs1 }"

definition free_pages :: "nat list \<Rightarrow> ipc \<Rightarrow> ipc may_stop" where
  "free_pages ps s = do { fs \<leftarrow> free_all ps (frames (vm s)); Some (s\<lparr>vm := (vm s)\<lparr>frames := fs\<rparr>\<rparr>) }"

datatype drop_item = DropMsg Message | DropCap Cap

fun item_caps :: "drop_item \<Rightarrow> Cap list" where
  "item_caps (DropMsg m) = m_caps m"
| "item_caps (DropCap c) = [c]"

definition state_caps :: "ipc \<Rightarrow> Cap list" where
  "state_caps s = concat (map (\<lambda>(t, tb). map snd (cap_slots tb)) (caps s))
     @ concat (map (\<lambda>(p, q). concat (map m_caps q)) (ports s))"

definition port_held :: "ipc \<Rightarrow> Cap list \<Rightarrow> Port \<Rightarrow> bool" where
  "port_held s cs p \<longleftrightarrow> list_ex (\<lambda>c. object c = PortObj p) (state_caps s @ cs) \<or> list_ex (\<lambda>(n, q). q = p) (REGISTRY s)"

function drop_all :: "drop_item list \<Rightarrow> ipc \<Rightarrow> ipc may_stop" where
  "drop_all [] s = Some s"
| "drop_all (DropMsg m # ws) s = do { s1 \<leftarrow> free_pages (m_pages m) s; drop_all (map DropCap (m_caps m) @ ws) s1 }"
| "drop_all (DropCap c # ws) s =
     (case as_port c of None \<Rightarrow> drop_all ws s
      | Some p \<Rightarrow>
          (case map_of (ports s) p of None \<Rightarrow> drop_all ws s
           | Some q \<Rightarrow>
               if port_held s (concat (map item_caps ws)) p then drop_all ws s
               else drop_all (map DropMsg q @ ws) (s\<lparr>ports := AList.delete p (ports s)\<rparr>)))"
  by pat_completeness auto

fun item_weight :: "drop_item \<Rightarrow> nat" where
  "item_weight (DropMsg m) = length (m_caps m) + 1"
| "item_weight (DropCap c) = 1"

lemma length_delete_less: "map_of al k = Some v \<Longrightarrow> length (AList.delete k al) < length al"
proof (induction al)
  case (Cons a al)
  have "length (AList.delete k al) \<le> length al" by (rule length_delete_le)
  then show ?case using Cons by (cases a) (auto split: if_splits)
qed simp

lemma free_pages_ports: "free_pages ps s = Some s' \<Longrightarrow> ports s' = ports s"
  by (auto simp: free_pages_def split: bind_splits)

termination drop_all
  by (relation "measures [\<lambda>(ws, s). length (ports s), \<lambda>(ws, s). sum_list (map item_weight ws)]")
     (auto simp: length_delete_less free_pages_ports comp_def sum_list_triv)

section \<open>System calls\<close>

record SendMsg =
  s_regs :: "u64 list"
  s_caps_ptr :: nat
  s_ncaps :: nat
  s_pages_va :: nat
  s_pages_len :: nat

record RecvMsg =
  r_regs :: "u64 list"
  r_caps_out :: nat
  r_caps_max :: nat
  r_ncaps :: nat
  r_pages_va :: nat
  r_pages_len :: nat

definition decode_regs :: "bytes \<Rightarrow> u64 list" where
  "decode_regs bs = map (\<lambda>i. le_to_word (take 8 (drop (8 * i) bs))) [0..<REG_SLOTS]"

definition decode_send :: "bytes \<Rightarrow> SendMsg" where
  "decode_send bs = \<lparr>s_regs = decode_regs bs, s_caps_ptr = u64_at bs 48, s_ncaps = u64_at bs 56,
     s_pages_va = u64_at bs 64, s_pages_len = u64_at bs 72\<rparr>"

definition decode_recv :: "bytes \<Rightarrow> RecvMsg" where
  "decode_recv bs = \<lparr>r_regs = decode_regs bs, r_caps_out = u64_at bs 48, r_caps_max = u64_at bs 56,
     r_ncaps = u64_at bs 64, r_pages_va = u64_at bs 72, r_pages_len = u64_at bs 80\<rparr>"

definition encode_recv :: "RecvMsg \<Rightarrow> bytes" where
  "encode_recv r = concat (map (word_to_le 8) (r_regs r)) @ le64 (r_caps_out r) @ le64 (r_caps_max r)
     @ le64 (r_ncaps r) @ le64 (r_pages_va r) @ le64 (r_pages_len r)"

definition user_read :: "x86_api \<Rightarrow> ipc \<Rightarrow> nat \<Rightarrow> nat \<Rightarrow> bytes may_stop" where
  "user_read P s va n = virt_read P (active_as (sc s)) (ram (vm s)) va n"

definition user_write :: "x86_api \<Rightarrow> ipc \<Rightarrow> nat \<Rightarrow> bytes \<Rightarrow> ipc may_stop" where
  "user_write P s va bs =
     do { m \<leftarrow> virt_write P (active_as (sc s)) (ram (vm s)) va bs; Some (s\<lparr>vm := (vm s)\<lparr>ram := m\<rparr>\<rparr>) }"

definition NAME_MAX :: nat where "NAME_MAX = 64"
definition IPC_NAME_PUBLISH :: nat where "IPC_NAME_PUBLISH = 0"
definition IPC_NAME_LOOKUP :: nat where "IPC_NAME_LOOKUP = 1"

definition sys_port_create :: "Port \<Rightarrow> ipc \<Rightarrow> (int \<times> ipc) may_stop" where
  "sys_port_create addr s =
     (case current (sc s) of None \<Rightarrow> Some (EPERM, s)
      | Some t \<Rightarrow>
          (let s1 = port_new addr s; cap = cap_port addr (R_SEND OR R_RECV OR R_DUP) in
           do { (i, tb) \<leftarrow> cap_install cap (table s1 t); Some (i, set_table t tb s1) }))"

definition sys_cap_drop :: "int \<Rightarrow> ipc \<Rightarrow> (int \<times> ipc) may_stop" where
  "sys_cap_drop cap_id s =
     (case current (sc s) of None \<Rightarrow> Some (EPERM, s)
      | Some t \<Rightarrow>
          (let (r, tb) = cap_remove cap_id (table s t) in
           case r of None \<Rightarrow> Some (EBADF, s)
           | Some c \<Rightarrow> do { s1 \<leftarrow> drop_all [DropCap c] (set_table t tb s); Some (0, s1) }))"

definition dup_rights :: "Rights \<Rightarrow> u32 \<Rightarrow> Rights" where
  "dup_rights r requested = (r AND (requested AND R_all)) AND NOT R_RECV"

definition sys_cap_dup :: "int \<Rightarrow> u32 \<Rightarrow> ipc \<Rightarrow> (int \<times> ipc) may_stop" where
  "sys_cap_dup cap_id msk s =
     (case current (sc s) of None \<Rightarrow> Some (EPERM, s)
      | Some t \<Rightarrow>
          (case cap_get (table s t) cap_id of None \<Rightarrow> Some (EBADF, s)
           | Some cap \<Rightarrow>
               if \<not> rights_contain (rights cap) R_DUP then Some (EPERM, s)
               else (case as_port cap of None \<Rightarrow> Some (EINVAL, s)
                 | Some p \<Rightarrow>
                     do { (i, tb) \<leftarrow> cap_install (cap_port p (dup_rights (rights cap) msk)) (table s t);
                          Some (i, set_table t tb s) })))"

subsection \<open>Sending\<close>

definition decode_ids :: "bytes \<Rightarrow> nat \<Rightarrow> int list" where
  "decode_ids bs n = map (\<lambda>i. sint (le_to_word (take 4 (drop (4 * i) bs)) :: u32)) [0..<n]"

text \<open>The capabilities to transfer are looked up first and then removed. Forming the slice from a
  pointer that is not a multiple of four is undefined.\<close>

definition collect_caps :: "x86_api \<Rightarrow> TaskId \<Rightarrow> SendMsg \<Rightarrow> ipc \<Rightarrow> (int + Cap list \<times> ipc) may_stop" where
  "collect_caps P t m s =
     (if 0 < s_ncaps m then
        if s_caps_ptr m = 0 then Some (Inl EFAULT)
        else if s_caps_ptr m mod 4 \<noteq> 0 then None
        else do {
          bs \<leftarrow> user_read P s (s_caps_ptr m) (4 * s_ncaps m);
          let ids = decode_ids bs (s_ncaps m) in
          if list_ex (\<lambda>i. cap_get (table s t) i = None) ids then Some (Inl EBADF)
          else (let (xs, tb) = remove_each cap_remove ids (table s t) in
                Some (Inr (xs, set_table t tb s))) }
      else Some (Inr ([], s)))"

definition restore_caps :: "TaskId \<Rightarrow> Cap list \<Rightarrow> ipc \<Rightarrow> ipc may_stop" where
  "restore_caps t xs s = do { (is, tb) \<leftarrow> install_each cap_install xs (table s t); Some (set_table t tb s) }"

definition steal_payload ::
  "x86_api \<Rightarrow> TaskId \<Rightarrow> SendMsg \<Rightarrow> Cap list \<Rightarrow> ipc \<Rightarrow> ((int + nat list \<times> nat) \<times> ipc) may_stop" where
  "steal_payload P t m xs s =
     (if 0 < s_pages_len m then
        if s_pages_va m = 0 \<or> s_pages_va m mod PAGE_SIZE \<noteq> 0 \<or> s_pages_len m mod PAGE_SIZE \<noteq> 0
        then do { s1 \<leftarrow> restore_caps t xs s; Some (Inl EINVAL, s1) }
        else (case t_addr_space (task_of (sc s) t) of
            None \<Rightarrow> do { s1 \<leftarrow> drop_all (map DropCap xs) s; Some (Inl EPERM, s1) }
          | Some as \<Rightarrow>
              do { (r, v) \<leftarrow> steal_pages P as (s_pages_va m) (s_pages_len m div PAGE_SIZE) (vm s);
                   (case r of
                      Inr pages \<Rightarrow> Some (Inr (pages, s_pages_len m), s\<lparr>vm := v\<rparr>)
                    | Inl _ \<Rightarrow> do { s1 \<leftarrow> restore_caps t xs (s\<lparr>vm := v\<rparr>); Some (Inl EFAULT, s1) }) })
      else Some (Inr ([], 0), s))"

definition post_message :: "Port \<Rightarrow> Message \<Rightarrow> ipc \<Rightarrow> (int \<times> ipc) may_stop" where
  "post_message p msg s =
     (case try_push p msg s of
        Inr s1 \<Rightarrow> Some (0, s1\<lparr>sc := wake_all p (sc s1)\<rparr>)
      | Inl m \<Rightarrow> do { s1 \<leftarrow> drop_all [DropMsg m] s; Some (EAGAIN, s1) })"

definition sys_send :: "x86_api \<Rightarrow> int \<Rightarrow> nat \<Rightarrow> ipc \<Rightarrow> (int \<times> ipc) may_stop" where
  "sys_send P cap_id msg_ptr s =
     (if msg_ptr = 0 then Some (EFAULT, s)
      else do {
        bs \<leftarrow> user_read P s msg_ptr 80;
        let m = decode_send bs in
        if MAX_CAPS < s_ncaps m then Some (E2BIG, s)
        else (case current (sc s) of None \<Rightarrow> Some (EPERM, s)
        | Some t \<Rightarrow> (case cap_get (table s t) cap_id of None \<Rightarrow> Some (EBADF, s)
        | Some send_cap \<Rightarrow>
            if \<not> rights_contain (rights send_cap) R_SEND then Some (EPERM, s)
            else (case as_port send_cap of None \<Rightarrow> Some (EINVAL, s)
            | Some p \<Rightarrow>
                do { r \<leftarrow> collect_caps P t m s;
                     (case r of Inl e \<Rightarrow> Some (e, s)
                      | Inr (xs, s1) \<Rightarrow>
                          do { (r2, s2) \<leftarrow> steal_payload P t m xs s1;
                               (case r2 of Inl e \<Rightarrow> Some (e, s2)
                                | Inr (pages, len) \<Rightarrow>
                                    post_message p \<lparr>m_regs = s_regs m, m_caps = xs, m_pages = pages, m_len = len\<rparr> s2) }) }))) })"

subsection \<open>Receiving\<close>

text \<open>The result of one pass of the receive loop: a return value, or the caller is parked and makes
  the next pass when it is woken.\<close>

datatype outcome = Returns int | Parks

fun install_out :: "x86_api \<Rightarrow> TaskId \<Rightarrow> nat \<Rightarrow> Cap list \<Rightarrow> ipc \<Rightarrow> ipc may_stop" where
  "install_out P t out [] s = Some s"
| "install_out P t out (c # cs) s =
     do { (i, tb) \<leftarrow> cap_install c (table s t);
          s1 \<leftarrow> user_write P (set_table t tb s) out (word_to_le 4 (word_of_int i :: u32));
          install_out P t (out + 4) cs s1 }"

text \<open>After its capabilities are installed, dropping a message only frees its frames: the table
  holds the references.\<close>

definition deliver_caps :: "x86_api \<Rightarrow> TaskId \<Rightarrow> Message \<Rightarrow> RecvMsg \<Rightarrow> ipc \<Rightarrow> (bool \<times> ipc) may_stop" where
  "deliver_caps P t m out s =
     (if m_caps m \<noteq> [] then
        if r_caps_out out = 0 \<or> r_caps_max out < length (m_caps m)
        then do { s1 \<leftarrow> drop_all [DropMsg m] s; Some (False, s1) }
        else if r_caps_out out mod 4 \<noteq> 0 then None
        else do { s1 \<leftarrow> install_out P t (r_caps_out out) (m_caps m) s; Some (True, s1) }
      else Some (True, s))"

definition deliver_pages :: "x86_api \<Rightarrow> TaskId \<Rightarrow> Message \<Rightarrow> RecvMsg \<Rightarrow> ipc \<Rightarrow> ((int + RecvMsg) \<times> ipc) may_stop" where
  "deliver_pages P t m out s =
     (if 0 < m_len m then
        (case t_addr_space (task_of (sc s) t) of
           None \<Rightarrow> do { s1 \<leftarrow> free_pages (m_pages m) s; Some (Inl EPERM, s1) }
         | Some as \<Rightarrow>
             do { r \<leftarrow> find_user_vm_range P as (ram (vm s)) (div_ceil (m_len m) PAGE_SIZE);
                  (case r of
                     None \<Rightarrow> do { s1 \<leftarrow> free_pages (m_pages m) s; Some (Inl ENOMEM, s1) }
                   | Some va \<Rightarrow>
                       do { (q, v) \<leftarrow> install_pages P as va (m_pages m) (vm s);
                            (case q of
                               Inl _ \<Rightarrow> do { s1 \<leftarrow> free_pages (m_pages m) (s\<lparr>vm := v\<rparr>); Some (Inl ENOMEM, s1) }
                             | Inr _ \<Rightarrow> Some (Inr (out\<lparr>r_pages_va := va, r_pages_len := m_len m\<rparr>), s\<lparr>vm := v\<rparr>)) }) })
      else Some (Inr (out\<lparr>r_pages_va := 0, r_pages_len := 0\<rparr>), s))"

definition recv_message :: "x86_api \<Rightarrow> TaskId \<Rightarrow> Message \<Rightarrow> nat \<Rightarrow> ipc \<Rightarrow> (int \<times> ipc) may_stop" where
  "recv_message P t m msg_ptr s =
     do { bs \<leftarrow> user_read P s msg_ptr 88;
          let out = (decode_recv bs)\<lparr>r_regs := m_regs m, r_ncaps := length (m_caps m)\<rparr> in
          do { (fits, s1) \<leftarrow> deliver_caps P t m out s;
               if \<not> fits then Some (E2BIG, s1)
               else do { (r, s2) \<leftarrow> deliver_pages P t m out s1;
                         (case r of Inl e \<Rightarrow> Some (e, s2)
                          | Inr out' \<Rightarrow> do { s3 \<leftarrow> user_write P s2 msg_ptr (encode_recv out'); Some (0, s3) }) } } }"

definition recv_pass :: "x86_api \<Rightarrow> TaskId \<Rightarrow> Port \<Rightarrow> nat \<Rightarrow> ipc \<Rightarrow> (outcome \<times> ipc) may_stop" where
  "recv_pass P t p msg_ptr s =
     (case port_pop p s of
        None \<Rightarrow> do { (sw, q) \<leftarrow> block_on P p (sc s); Some (Parks, s\<lparr>sc := q\<rparr>) }
      | Some (m, s1) \<Rightarrow> do { (r, s2) \<leftarrow> recv_message P t m msg_ptr s1; Some (Returns r, s2) })"

definition sys_recv :: "x86_api \<Rightarrow> int \<Rightarrow> nat \<Rightarrow> ipc \<Rightarrow> (outcome \<times> ipc) may_stop" where
  "sys_recv P cap_id msg_ptr s =
     (if msg_ptr = 0 then Some (Returns EFAULT, s)
      else (case current (sc s) of None \<Rightarrow> Some (Returns EPERM, s)
      | Some t \<Rightarrow> (case cap_get (table s t) cap_id of None \<Rightarrow> Some (Returns EBADF, s)
      | Some recv_cap \<Rightarrow>
          if \<not> rights_contain (rights recv_cap) R_RECV then Some (Returns EPERM, s)
          else (case as_port recv_cap of None \<Rightarrow> Some (Returns EINVAL, s)
          | Some p \<Rightarrow> recv_pass P t p msg_ptr s))))"

subsection \<open>Names\<close>

definition publish :: "bytes \<Rightarrow> Port \<Rightarrow> ipc \<Rightarrow> bool \<times> ipc" where
  "publish name p s =
     (if map_of (REGISTRY s) name \<noteq> None then (False, s)
      else (True, s\<lparr>REGISTRY := AList.update name p (REGISTRY s)\<rparr>))"

definition registry_lookup :: "bytes \<Rightarrow> ipc \<Rightarrow> Port option" where
  "registry_lookup name s = map_of (REGISTRY s) name"

function registrar_scan :: "CapTable \<Rightarrow> int \<Rightarrow> bool" where
  "registrar_scan tb i =
     (if i < 2 ^ 31 - 1 then
        (case cap_get tb i of
           Some c \<Rightarrow> if is_registrar c then True else registrar_scan tb (i + 1)
         | None \<Rightarrow> if 32 < i then False else registrar_scan tb (i + 1))
      else False)"
  by pat_completeness auto
termination
  by (relation "measure (\<lambda>(tb, i). nat (2 ^ 31 - 1 - i))") auto

declare registrar_scan.simps [simp del]

definition sys_name :: "x86_api \<Rightarrow> nat \<Rightarrow> nat \<Rightarrow> nat \<Rightarrow> int \<Rightarrow> ipc \<Rightarrow> (int \<times> ipc) may_stop" where
  "sys_name P op name_ptr name_len cap_id s =
     (if name_ptr = 0 \<or> name_len = 0 \<or> NAME_MAX < name_len then Some (EINVAL, s)
      else do {
        name \<leftarrow> user_read P s name_ptr name_len;
        if \<not> utf8_valid name then Some (EINVAL, s)
        else (case current (sc s) of None \<Rightarrow> Some (EPERM, s)
        | Some t \<Rightarrow>
            if op = IPC_NAME_PUBLISH then
              (case cap_get (table s t) cap_id of None \<Rightarrow> Some (EBADF, s)
               | Some cap \<Rightarrow>
                   (case as_port cap of None \<Rightarrow> Some (EINVAL, s)
                    | Some p \<Rightarrow>
                        if \<not> registrar_scan (table s t) 1 then Some (EPERM, s)
                        else (let (fresh, s1) = publish name p s in
                              Some (if fresh then 0 else EEXIST, s1))))
            else if op = IPC_NAME_LOOKUP then
              (case registry_lookup name s of None \<Rightarrow> Some (ENOENT, s)
               | Some p \<Rightarrow>
                   do { (i, tb) \<leftarrow> cap_install (cap_port p R_SEND) (table s t);
                        Some (i, set_table t tb s) })
            else Some (EINVAL, s)) })"

end
