(* ===== verification/Vmm_Correct.thy ===== *)
theory Vmm_Correct
  imports Vmm
begin

text \<open>
  Correctness of the virtual memory manager. The four-level tables are read as a map from page
  numbers to leaf entries (\<open>pte\<close>); every operation is shown to be an update of that map, under the
  invariant \<open>as_inv\<close>: the tables reached from the root are page-aligned allocated frames and no
  frame is reached along two paths. \<open>D\<close> is the set of top-level slots the invariant speaks about:
  the slots below 256 for user memory, slot 288 for device windows.
\<close>

section \<open>What is relied on of the page-table entries\<close>

definition x86_laws :: "x86_api \<Rightarrow> bool" where
  "x86_laws P \<longleftrightarrow>
     PTF_PRESENT P \<noteq> 0
   \<and> (\<forall>f \<in> {PTF_PRESENT P, PTF_WRITABLE P, PTF_USER_ACCESSIBLE P, PTF_WRITE_THROUGH P,
            PTF_NO_CACHE P, PTF_NO_EXECUTE P}. contains (PTF_all P) f)
   \<and> pt_flags P 0 = 0
   \<and> (\<forall>e. contains (PTF_all P) (pt_flags P e))
   \<and> (\<forall>e. pt_addr P e mod PAGE_SIZE = 0 \<and> pt_addr P e < 2 ^ 52)
   \<and> (\<forall>a f. a mod PAGE_SIZE = 0 \<longrightarrow> a < 2 ^ 52 \<longrightarrow> contains (PTF_all P) f \<longrightarrow>
        (\<exists>e. pt_set_addr P a f = Some e \<and> pt_addr P e = a \<and> pt_flags P e = f))
   \<and> (\<forall>e f. contains (PTF_all P) f \<longrightarrow>
        pt_addr P (pt_set_flags P e f) = pt_addr P e \<and> pt_flags P (pt_set_flags P e f) = f)
   \<and> (\<forall>v < 2 ^ 47. va_canonical P v)"

text \<open>The layout of the architecture: the address in bits 12 to 51, the flags around it.\<close>

definition ADDR_MASK :: u64 where
  "ADDR_MASK = 0x000FFFFFFFFFF000"

definition x86_impl :: x86_api where
  "x86_impl = \<lparr>PTF_PRESENT = 1, PTF_WRITABLE = 2, PTF_USER_ACCESSIBLE = 4, PTF_WRITE_THROUGH = 8,
     PTF_NO_CACHE = 16, PTF_NO_EXECUTE = 0x8000000000000000, PTF_all = NOT ADDR_MASK,
     pt_flags = (\<lambda>e. e AND NOT ADDR_MASK),
     pt_addr = (\<lambda>e. unat (e AND ADDR_MASK)),
     pt_set_addr = (\<lambda>a f. if a mod PAGE_SIZE = 0 \<and> a < 2 ^ 52 then Some (of_nat a OR f) else None),
     pt_set_flags = (\<lambda>e f. (e AND ADDR_MASK) OR f),
     va_canonical = (\<lambda>v. v < 2 ^ 47 \<or> 2 ^ 64 - 2 ^ 47 \<le> v)\<rparr>"

lemma ADDR_MASK_eq: "ADDR_MASK = push_bit 12 (mask 40)"
  by (simp add: ADDR_MASK_def mask_eq_exp_minus_1 push_bit_eq_mult)

lemma bit_ADDR_MASK: "bit ADDR_MASK n \<longleftrightarrow> 12 \<le> n \<and> n < 52"
  by (auto simp: ADDR_MASK_eq bit_simps)

lemma unat_and_ADDR_MASK: "unat (e AND ADDR_MASK) mod PAGE_SIZE = 0 \<and> unat (e AND ADDR_MASK) < 2 ^ 52"
proof -
  have "e AND ADDR_MASK = push_bit 12 (take_bit 40 (drop_bit 12 e))"
    by (intro bit_word_eqI) (auto simp: bit_simps bit_ADDR_MASK)
  then have "unat (e AND ADDR_MASK) = take_bit 64 (push_bit 12 (unat (take_bit 40 (drop_bit 12 e))))"
    by (simp only: unsigned_push_bit_eq) simp
  then have "unat (e AND ADDR_MASK) = take_bit 64 (unat (take_bit 40 (drop_bit 12 e)) * 4096)"
    by (simp add: push_bit_eq_mult)
  moreover have "unat (take_bit 40 (drop_bit 12 e)) < 2 ^ 40"
    using take_bit_nat_less_exp[of 40 "unat (drop_bit 12 e)"] by (simp add: unsigned_take_bit_eq)
  ultimately show ?thesis by (simp add: PAGE_SIZE_def take_bit_eq_mod)
qed

lemma page_address_and_ADDR_MASK:
  assumes "a mod PAGE_SIZE = 0" and "a < 2 ^ 52"
  shows "(of_nat a :: u64) AND ADDR_MASK = of_nat a"
proof -
  from assms(1) obtain k where k: "a = k * 4096" by (auto simp: PAGE_SIZE_def mod_eq_0_iff_dvd dvd_def)
  have "bit (of_nat a :: u64) n \<Longrightarrow> 12 \<le> n \<and> n < 52" for n
  proof -
    assume "bit (of_nat a :: u64) n"
    then have "bit a n" by (simp add: bit_simps)
    moreover have "a = push_bit 12 k" using k by (simp add: push_bit_eq_mult)
    moreover have "take_bit 52 a = a" using assms(2) by (simp add: take_bit_nat_eq_self)
    ultimately show ?thesis by (metis bit_push_bit_iff_nat bit_take_bit_iff)
  qed
  then show ?thesis by (intro bit_word_eqI) (auto simp: bit_and_iff bit_ADDR_MASK)
qed

lemma and_complement: "M AND f = f \<Longrightarrow> f AND NOT M = (0 :: u64)"
proof -
  assume "M AND f = f"
  then have "f AND NOT M = (f AND M) AND NOT M" by (simp add: and.commute)
  also have "\<dots> = 0" by (simp add: and.assoc)
  finally show ?thesis .
qed

lemma x86_impl_laws: "x86_laws x86_impl"
proof -
  have set: "unat ((of_nat a OR f) AND ADDR_MASK) = a \<and> (of_nat a OR f) AND NOT ADDR_MASK = f"
    if a: "a mod PAGE_SIZE = 0" "a < 2 ^ 52" and f: "NOT ADDR_MASK AND f = f" for a and f :: u64
  proof -
    have am: "(of_nat a :: u64) AND ADDR_MASK = of_nat a" by (rule page_address_and_ADDR_MASK[OF a])
    have "f AND ADDR_MASK = 0" using and_complement[OF f] by simp
    then have "(of_nat a OR f) AND ADDR_MASK = of_nat a"
      using am by (simp add: bit.conj_disj_distrib2)
    moreover have "(of_nat a :: u64) AND NOT ADDR_MASK = 0"
      using am by (intro and_complement) (simp add: and.commute)
    then have "(of_nat a OR f) AND NOT ADDR_MASK = f"
      using f by (simp add: bit.conj_disj_distrib2) (simp add: and.commute)
    moreover have "unat (of_nat a :: u64) = a" using a(2) by (simp add: unat_of_nat)
    ultimately show ?thesis by simp
  qed
  have sf: "((e AND ADDR_MASK) OR f) AND ADDR_MASK = e AND ADDR_MASK
      \<and> ((e AND ADDR_MASK) OR f) AND NOT ADDR_MASK = f" if f: "NOT ADDR_MASK AND f = f" for e f :: u64
  proof -
    have "f AND ADDR_MASK = 0" using and_complement[OF f] by simp
    then show ?thesis using f
      by (simp add: bit.conj_disj_distrib2 and.assoc and.commute[of "NOT ADDR_MASK" f])
  qed
  have idem: "NOT ADDR_MASK AND (e AND NOT ADDR_MASK) = e AND NOT ADDR_MASK" for e
    by (simp add: and.left_commute)
  have fl: "\<forall>f \<in> {1, 2, 4, 8, 16, 0x8000000000000000}. NOT ADDR_MASK AND f = f"
    by (simp add: ADDR_MASK_def)
  show ?thesis
    unfolding x86_laws_def x86_impl_def contains_def x86_api.simps
    using fl by (intro conjI allI impI) (simp_all add: set sf unat_and_ADDR_MASK unat_and_ADDR_MASK[simplified] idem)
qed

section \<open>Entries in memory\<close>

lemma entry_get_put_same [simp]: "entry_get (entry_put m t i e) t i = e"
  using mem_read_write_same[of m "t + 8 * i" "word_to_le 8 e"] by (simp add: entry_get_def entry_put_def)

lemma page_separation:
  assumes "t mod PAGE_SIZE = 0" and "x div PAGE_SIZE \<noteq> t div PAGE_SIZE"
  shows "x < t \<or> t + 4096 \<le> x"
proof -
  obtain k where t: "t = k * 4096" using assms(1) by (auto simp: PAGE_SIZE_def mod_eq_0_iff_dvd dvd_def)
  then have "x div 4096 < k \<or> Suc k \<le> x div 4096" using assms(2) by (auto simp: PAGE_SIZE_def)
  then show ?thesis
    using t div_less_iff_less_mult[of 4096 x k] less_eq_div_iff_mult_less_eq[of 4096 "Suc k" x] by auto
qed

lemma same_page:
  assumes "t mod PAGE_SIZE = 0" and "t \<le> x" and "x < t + 4096"
  shows "x div PAGE_SIZE = t div PAGE_SIZE"
  using page_separation[OF assms(1), of x] assms(2,3) by fastforce

lemma page_eq_iff:
  "t mod PAGE_SIZE = 0 \<Longrightarrow> t' mod PAGE_SIZE = 0 \<Longrightarrow> t div PAGE_SIZE = t' div PAGE_SIZE \<longleftrightarrow> t = t'"
  by (metis div_mult_mod_eq)

lemma entry_get_put_other:
  assumes "t mod PAGE_SIZE = 0" "t' mod PAGE_SIZE = 0" "i < 512" "j < 512" "(t, i) \<noteq> (t', j)"
  shows "entry_get (entry_put m t i e) t' j = entry_get m t' j"
proof -
  have "t' + 8 * j + 8 \<le> t + 8 * i \<or> t + 8 * i + 8 \<le> t' + 8 * j"
  proof (cases "t = t'")
    case True
    then have "i < j \<or> j < i" using assms(5) by auto
    then show ?thesis using True by auto
  next
    case False
    then have "t' < t \<or> t + 4096 \<le> t'" and "t < t' \<or> t' + 4096 \<le> t"
      using page_separation[OF assms(1), of t'] page_separation[OF assms(2), of t]
        page_eq_iff[OF assms(1,2)] by auto
    then show ?thesis using assms(3,4) by linarith
  qed
  then show ?thesis by (simp add: entry_get_def entry_put_def mem_read_write_disjoint)
qed

lemma entry_get_fill:
  assumes "t mod PAGE_SIZE = 0" "new mod PAGE_SIZE = 0" "j < 512"
  shows "entry_get (mem_fill m new 0 PAGE_SIZE) t j = (if t = new then 0 else entry_get m t j)"
proof (cases "t = new")
  case True
  then show ?thesis using assms(3)
      le_to_word_zeros[of 8] by (simp add: entry_get_def mem_read_fill_inside PAGE_SIZE_def)
next
  case False
  then have "t < new \<or> new + 4096 \<le> t" and "new < t \<or> t + 4096 \<le> new"
    using page_separation[OF assms(2), of t] page_separation[OF assms(1), of new]
      page_eq_iff[OF assms(1,2)] by auto
  then have "t + 8 * j + 8 \<le> new \<or> new + 4096 \<le> t + 8 * j" using assms(3) by linarith
  then show ?thesis using False by (simp add: entry_get_def mem_read_fill_disjoint PAGE_SIZE_def)
qed

lemma entry_put_outside:
  assumes "t mod PAGE_SIZE = 0" "i < 512" "a div PAGE_SIZE \<noteq> t div PAGE_SIZE"
  shows "entry_put m t i e a = m a"
proof -
  have "a < t + 8 * i \<or> t + 8 * i + 8 \<le> a" using page_separation[OF assms(1,3)] assms(2) by linarith
  then show ?thesis by (auto simp: entry_put_def mem_write_outside)
qed

lemma mem_fill_page_outside:
  assumes "t mod PAGE_SIZE = 0" "a div PAGE_SIZE \<noteq> t div PAGE_SIZE"
  shows "mem_fill m t b PAGE_SIZE a = m a"
proof -
  have "a < t \<or> t + 4096 \<le> a" by (rule page_separation[OF assms])
  then show ?thesis by (simp add: mem_fill_outside PAGE_SIZE_def)
qed

section \<open>Walking the tables\<close>

fun table_at :: "x86_api \<Rightarrow> memory \<Rightarrow> nat \<Rightarrow> nat list \<Rightarrow> nat option" where
  "table_at P m t [] = Some t"
| "table_at P m t (i # is) =
     (let e = entry_get m t i in if present P e then table_at P m (pt_addr P e) is else None)"

definition pte :: "x86_api \<Rightarrow> memory \<Rightarrow> nat \<Rightarrow> nat list \<Rightarrow> u64" where
  "pte P m root q = (case table_at P m root (take 3 q) of None \<Rightarrow> 0 | Some pt \<Rightarrow> entry_get m pt (q ! 3))"

definition path_ok :: "nat set \<Rightarrow> nat list \<Rightarrow> bool" where
  "path_ok D p \<longleftrightarrow> (\<forall>i \<in> set p. i < 512) \<and> (p \<noteq> [] \<longrightarrow> hd p \<in> D)"

definition page_path :: "nat \<Rightarrow> nat list" where
  "page_path va = [pml4_idx va, pdpt_idx va, pd_idx va, pt_idx va]"

definition table_frame :: "vm_state \<Rightarrow> nat \<Rightarrow> bool" where
  "table_frame s t \<longleftrightarrow> t mod PAGE_SIZE = 0 \<and> t div PAGE_SIZE < TOTAL_FRAMES (frames s)
     \<and> t div PAGE_SIZE \<notin> free_set (frames s)"

definition as_inv :: "x86_api \<Rightarrow> nat set \<Rightarrow> vm_state \<Rightarrow> nat \<Rightarrow> bool" where
  "as_inv P D s root \<longleftrightarrow>
     frame_inv (frames s) \<and> search_ends (frames s) \<and> TOTAL_FRAMES (frames s) \<le> 2 ^ 35
   \<and> (\<forall>p t. path_ok D p \<longrightarrow> length p \<le> 3 \<longrightarrow> table_at P (ram s) root p = Some t \<longrightarrow> table_frame s t)
   \<and> (\<forall>p q t. path_ok D p \<longrightarrow> path_ok D q \<longrightarrow> length p \<le> 3 \<longrightarrow> length q \<le> 3 \<longrightarrow>
        table_at P (ram s) root p = Some t \<longrightarrow> table_at P (ram s) root q = Some t \<longrightarrow> p = q)"

lemma table_at_append:
  "table_at P m t (p @ q) = (case table_at P m t p of None \<Rightarrow> None | Some t' \<Rightarrow> table_at P m t' q)"
  by (induction p arbitrary: t) (auto simp: Let_def)

lemma table_at_snoc:
  "table_at P m t (p @ [i]) = (case table_at P m t p of None \<Rightarrow> None
     | Some t' \<Rightarrow> (let e = entry_get m t' i in if present P e then Some (pt_addr P e) else None))"
  by (simp add: table_at_append Let_def split: option.splits)

text \<open>A walk depends only on the entries it reads, and of those only on presence and address.\<close>

definition same_link :: "x86_api \<Rightarrow> u64 \<Rightarrow> u64 \<Rightarrow> bool" where
  "same_link P e e' \<longleftrightarrow> (present P e \<longleftrightarrow> present P e') \<and> (present P e \<longrightarrow> pt_addr P e = pt_addr P e')"

lemma same_link_refl [simp]: "same_link P e e"
  by (simp add: same_link_def)

lemma table_at_agree:
  assumes "\<And>r j s t. q = r @ j # s \<Longrightarrow> table_at P m root r = Some t \<Longrightarrow>
      same_link P (entry_get m t j) (entry_get m' t j)"
  shows "table_at P m' root q = table_at P m root q"
  using assms
proof (induction q arbitrary: root)
  case Nil
  then show ?case by simp
next
  case (Cons i q)
  have link: "same_link P (entry_get m root i) (entry_get m' root i)"
    using Cons.prems[of "[]" i q root] by simp
  show ?case
  proof (cases "present P (entry_get m root i)")
    case False
    then show ?thesis using link by (simp add: same_link_def)
  next
    case True
    let ?c = "pt_addr P (entry_get m root i)"
    have "table_at P m' ?c q = table_at P m ?c q"
      using Cons.prems[of "i # r" for r] True by (intro Cons.IH) (auto simp: Let_def)
    then show ?thesis using link True by (simp add: same_link_def Let_def)
  qed
qed

lemma path_ok_take: "path_ok D p \<Longrightarrow> path_ok D (take n p)"
  by (cases p; cases n) (auto simp: path_ok_def dest: in_set_takeD)

lemma path_ok_appendD: "path_ok D (p @ q) \<Longrightarrow> path_ok D p"
  by (auto simp: path_ok_def hd_append split: if_splits)

lemma length_page_path [simp]: "length (page_path va) = 4"
  by (simp add: page_path_def)

lemma page_path_ok: "pml4_idx va \<in> D \<Longrightarrow> path_ok D (page_path va)"
  by (simp add: path_ok_def page_path_def pml4_idx_def pdpt_idx_def pd_idx_def pt_idx_def)

section \<open>Flags\<close>

lemma contains_or: "contains a f \<Longrightarrow> contains (a OR b) f"
proof -
  assume "contains a f"
  then have "(a OR b) AND f = f OR b AND f" by (simp add: contains_def bit.conj_disj_distrib2)
  also have "\<dots> = f" by (rule bit_word_eqI) (auto simp: bit_simps)
  finally show ?thesis by (simp add: contains_def)
qed

lemma contains_union: "contains a f \<Longrightarrow> contains a g \<Longrightarrow> contains a (f OR g)"
  by (simp add: contains_def bit.conj_disj_distrib)

lemma contains_refl [simp]: "contains a a"
  by (simp add: contains_def)

section \<open>What an operation may change\<close>

text \<open>\<open>vm_frame s s' F\<close>: memory differs only in the frames \<open>F\<close>, frames are only taken from the
  allocator, and the two other statics are untouched.\<close>

definition vm_frame :: "vm_state \<Rightarrow> vm_state \<Rightarrow> nat set \<Rightarrow> bool" where
  "vm_frame s s' F \<longleftrightarrow> (\<forall>a. a div PAGE_SIZE \<notin> F \<longrightarrow> ram s' a = ram s a)
     \<and> KERNEL_AS s' = KERNEL_AS s \<and> MMIO_NEXT s' = MMIO_NEXT s
     \<and> TOTAL_FRAMES (frames s') = TOTAL_FRAMES (frames s)
     \<and> free_set (frames s') \<subseteq> free_set (frames s)"

lemma vm_frame_refl [simp]: "vm_frame s s F"
  by (simp add: vm_frame_def)

lemma vm_frame_trans:
  assumes "vm_frame s s' F" and "vm_frame s' s'' G" and "F \<union> G \<subseteq> H"
  shows "vm_frame s s'' H"
proof -
  have "ram s'' a = ram s a" if "a div PAGE_SIZE \<notin> H" for a
  proof -
    have "a div PAGE_SIZE \<notin> F" "a div PAGE_SIZE \<notin> G" using that assms(3) by auto
    then show ?thesis using assms(1,2) by (simp add: vm_frame_def)
  qed
  then show ?thesis using assms(1,2) by (auto simp: vm_frame_def)
qed

text \<open>Tables are only added, and only in frames that were free.\<close>

definition tables_grow :: "x86_api \<Rightarrow> nat set \<Rightarrow> nat \<Rightarrow> vm_state \<Rightarrow> vm_state \<Rightarrow> bool" where
  "tables_grow P D root s s' \<longleftrightarrow> (\<forall>q t. path_ok D q \<longrightarrow> length q \<le> 3 \<longrightarrow>
     (table_at P (ram s) root q = Some t \<longrightarrow> table_at P (ram s') root q = Some t)
   \<and> (table_at P (ram s') root q = Some t \<longrightarrow>
        table_at P (ram s) root q = Some t \<or> t div PAGE_SIZE \<in> free_set (frames s)))"

lemma tables_grow_refl [simp]: "tables_grow P D root s s"
  by (simp add: tables_grow_def)

lemma tables_grow_trans:
  assumes "tables_grow P D root s s'" and "tables_grow P D root s' s''"
    and "free_set (frames s') \<subseteq> free_set (frames s)"
  shows "tables_grow P D root s s''"
  using assms unfolding tables_grow_def by (metis subsetD)

lemma tables_grow_same:
  assumes "\<And>q. path_ok D q \<Longrightarrow> length q \<le> 3 \<Longrightarrow> table_at P (ram s') root q = table_at P (ram s) root q"
  shows "tables_grow P D root s s'"
  using assms by (simp add: tables_grow_def)

lemma as_invI:
  assumes "frame_inv (frames s)" "search_ends (frames s)" "TOTAL_FRAMES (frames s) \<le> 2 ^ 35"
    and "\<And>p t. path_ok D p \<Longrightarrow> length p \<le> 3 \<Longrightarrow> table_at P (ram s) root p = Some t \<Longrightarrow> table_frame s t"
    and "\<And>p q t. path_ok D p \<Longrightarrow> path_ok D q \<Longrightarrow> length p \<le> 3 \<Longrightarrow> length q \<le> 3 \<Longrightarrow>
        table_at P (ram s) root p = Some t \<Longrightarrow> table_at P (ram s) root q = Some t \<Longrightarrow> p = q"
  shows "as_inv P D s root"
  using assms unfolding as_inv_def by blast

lemma as_inv_frames:
  "as_inv P D s root \<Longrightarrow> frame_inv (frames s)" "as_inv P D s root \<Longrightarrow> search_ends (frames s)"
  "as_inv P D s root \<Longrightarrow> TOTAL_FRAMES (frames s) \<le> 2 ^ 35"
  unfolding as_inv_def by blast+

lemma as_inv_table:
  "as_inv P D s root \<Longrightarrow> path_ok D p \<Longrightarrow> length p \<le> 3 \<Longrightarrow> table_at P (ram s) root p = Some t \<Longrightarrow> table_frame s t"
  by (simp add: as_inv_def)

lemma as_inv_inj:
  "as_inv P D s root \<Longrightarrow> path_ok D p \<Longrightarrow> path_ok D q \<Longrightarrow> length p \<le> 3 \<Longrightarrow> length q \<le> 3 \<Longrightarrow>
     table_at P (ram s) root p = Some t \<Longrightarrow> table_at P (ram s) root q = Some t \<Longrightarrow> p = q"
  unfolding as_inv_def by blast

lemma table_frame_ref:
  assumes "as_inv P D s root" and "table_frame s t"
  shows "pml4_ref t = Some t"
proof -
  obtain k where k: "t = k * 4096" using assms(2)
    by (auto simp: table_frame_def PAGE_SIZE_def mod_eq_0_iff_dvd dvd_def)
  then have "k < 2 ^ 35" using assms by (simp add: as_inv_def table_frame_def PAGE_SIZE_def)
  then show ?thesis using k by (simp add: pml4_ref_def u64_add_def HHDM_OFFSET_def)
qed

text \<open>An update of entry \<open>i\<close> of table \<open>t\<close>, reached along \<open>p\<close>, is seen only by walks through it.\<close>

lemma walk_elsewhere:
  assumes inv: "as_inv P D s root" and tp: "table_at P (ram s) root p = Some t"
    and p: "path_ok D p" "length p \<le> 3" and q: "path_ok D q" "length q \<le> 4"
    and np: "\<not> prefix (p @ [i]) q"
    and agree: "\<And>t' j. table_frame s t' \<Longrightarrow> j < 512 \<Longrightarrow> (t', j) \<noteq> (t, i) \<Longrightarrow>
      entry_get m' t' j = entry_get (ram s) t' j"
  shows "table_at P m' root q = table_at P (ram s) root q"
proof (rule table_at_agree)
  fix r j u t'
  assume split: "q = r @ j # u" and tr: "table_at P (ram s) root r = Some t'"
  have r: "path_ok D r" "length r \<le> 3" "j < 512"
    using q split path_ok_appendD[of D r "j # u"] by (auto simp: path_ok_def)
  have "(t', j) \<noteq> (t, i)"
  proof
    assume "(t', j) = (t, i)"
    then have "r = p" using as_inv_inj[OF inv r(1) p(1) r(2) p(2) tr] tp by simp
    then show False using np split \<open>(t', j) = (t, i)\<close> by (auto simp: prefix_def)
  qed
  then show "same_link P (entry_get (ram s) t' j) (entry_get m' t' j)"
    using agree[OF as_inv_table[OF inv r(1,2) tr] r(3)] by simp
qed

lemma take3_path: "path_ok D q \<Longrightarrow> length q = 4 \<Longrightarrow>
   path_ok D (take 3 q) \<and> length (take 3 q) = 3 \<and> q ! 3 < 512 \<and> q = take 3 q @ [q ! 3]"
proof -
  assume q: "path_ok D q" "length q = 4"
  then have "q = take 3 q @ [q ! 3]" using take_Suc_conv_app_nth[of 3 q] by simp
  moreover have "q ! 3 < 512" using q by (simp add: path_ok_def)
  ultimately show ?thesis using q path_ok_take[OF q(1), of 3] by simp
qed

locale page_entries =
  fixes P :: x86_api
  assumes laws: "x86_laws P"
begin

lemma not_present_zero [simp]: "\<not> present P 0"
  using laws by (auto simp: x86_laws_def present_def contains_def)

lemma intermediate_flags:
  "contains (PTF_all P) (intermediate P f)" "contains (intermediate P f) (PTF_PRESENT P)"
  using laws by (auto simp: x86_laws_def intermediate_def Let_def contains_or intro!: contains_union)

lemma leaf_flags: "contains (PTF_all P) (leaf P f)" "contains (leaf P f) (PTF_PRESENT P)"
  using laws by (auto simp: x86_laws_def leaf_def Let_def contains_or intro!: contains_union)

lemma set_addr_ok:
  assumes "a mod PAGE_SIZE = 0" "a < 2 ^ 52" "contains (PTF_all P) f"
  obtains e where "pt_set_addr P a f = Some e" "pt_addr P e = a" "pt_flags P e = f"
proof -
  have "\<exists>e. pt_set_addr P a f = Some e \<and> pt_addr P e = a \<and> pt_flags P e = f"
    using assms laws by (simp add: x86_laws_def)
  then show ?thesis using that by blast
qed

lemma set_flags_ok:
  assumes "contains (PTF_all P) f"
  shows "pt_addr P (pt_set_flags P e f) = pt_addr P e" "pt_flags P (pt_set_flags P e f) = f"
  using assms laws by (simp_all add: x86_laws_def)

lemma flags_known: "contains (PTF_all P) (pt_flags P e)"
  using laws by (simp add: x86_laws_def)

lemma addr_aligned: "pt_addr P e mod PAGE_SIZE = 0" "pt_addr P e < 2 ^ 52"
  using laws by (simp_all add: x86_laws_def)

end

interpretation x86: page_entries x86_impl
  by unfold_locales (rule x86_impl_laws)

section \<open>Descending one level\<close>

context page_entries
begin

lemma ensure_child_present:
  assumes inv: "as_inv P D s root" and tp: "table_at P (ram s) root p = Some t"
    and p: "path_ok D (p @ [i])" "length p \<le> 2" and f: "contains (PTF_all P) f"
    and pr: "present P (entry_get (ram s) t i)"
  shows "\<exists>c s'. ensure_child P s t i f = Some (Inr c, s') \<and> as_inv P D s' root
    \<and> table_at P (ram s') root (p @ [i]) = Some c \<and> tables_grow P D root s s'
    \<and> (\<forall>q. path_ok D q \<longrightarrow> length q = 4 \<longrightarrow> pte P (ram s') root q = pte P (ram s) root q)
    \<and> vm_frame s s' {t div PAGE_SIZE} \<and> frames s' = frames s"
proof -
  define e where "e = entry_get (ram s) t i"
  define un where "un = pt_flags P e OR f"
  define e' where "e' = (if un \<noteq> pt_flags P e then pt_set_flags P e un else e)"
  define m' where "m' = (if un \<noteq> pt_flags P e then entry_put (ram s) t i e' else ram s)"
  let ?s = "s\<lparr>ram := m'\<rparr>" and ?c = "pt_addr P e"
  have p': "path_ok D p" "length p \<le> 3" "i < 512"
    using path_ok_appendD[OF p(1)] p by (auto simp: path_ok_def)
  have tf: "table_frame s t" by (rule as_inv_table[OF inv p'(1,2) tp])
  then have al: "t mod PAGE_SIZE = 0" by (simp add: table_frame_def)
  have "contains (PTF_all P) un" unfolding un_def by (intro contains_union flags_known f)
  then have addr: "pt_addr P e' = ?c" and pr': "present P e'"
    using pr set_flags_ok[of un e] by (auto simp: e'_def e_def un_def present_def contains_or)
  have other: "entry_get m' t' j = entry_get (ram s) t' j"
    if "t' mod PAGE_SIZE = 0" "j < 512" "(t', j) \<noteq> (t, i)" for t' j
    using entry_get_put_other[OF al that(1) p'(3) that(2)] that(3) by (auto simp: m'_def)
  have here: "entry_get m' t i = e'" by (simp add: m'_def e'_def e_def)
  have walk: "table_at P m' root q = table_at P (ram s) root q" if q: "path_ok D q" "length q \<le> 4" for q
  proof (rule table_at_agree)
    fix r j u t' assume sp: "q = r @ j # u" and tr: "table_at P (ram s) root r = Some t'"
    have "table_frame s t'" using q sp tr path_ok_appendD[of D r] by (intro as_inv_table[OF inv]) auto
    then have "t' mod PAGE_SIZE = 0" "j < 512" using q sp by (auto simp: table_frame_def path_ok_def)
    then show "same_link P (entry_get (ram s) t' j) (entry_get m' t' j)"
      using other[of t' j] here addr pr pr' e_def by (cases "(t', j) = (t, i)") (auto simp: same_link_def)
  qed
  have pi: "table_at P (ram s) root (p @ [i]) = Some ?c"
    using tp pr by (simp add: table_at_snoc Let_def e_def)
  have tab3: "table_at P m' root q = table_at P (ram s) root q" if "path_ok D q" "length q \<le> 3" for q
    using walk that by simp
  have inv': "as_inv P D ?s root"
    using inv tab3 by (simp add: as_inv_def table_frame_def)
  have ptes: "pte P m' root q = pte P (ram s) root q" if q: "path_ok D q" "length q = 4" for q
  proof (cases "table_at P (ram s) root (take 3 q)")
    case None
    then show ?thesis using walk[of "take 3 q"] take3_path[OF q] by (simp add: pte_def)
  next
    case (Some u)
    have "u \<noteq> t"
      using as_inv_inj[OF inv p'(1) _ p'(2) _ tp, of "take 3 q"] Some take3_path[OF q] p(2) by auto
    moreover have "table_frame s u" using as_inv_table[OF inv, of "take 3 q"] Some take3_path[OF q] by simp
    ultimately show ?thesis
      using Some walk[of "take 3 q"] take3_path[OF q] other[of u "q ! 3"]
      by (simp add: pte_def table_frame_def)
  qed
  have "pml4_ref ?c = Some ?c"
    using table_frame_ref[OF inv as_inv_table[OF inv p(1) _ pi]] p(2) by simp
  then have "ensure_child P s t i f = Some (Inr ?c, ?s)"
    using pr addr unfolding ensure_child_def Let_def e_def[symmetric] un_def[symmetric]
    by (cases "un = pt_flags P e") (simp_all add: m'_def e'_def e_def[symmetric])
  moreover have "vm_frame s ?s {t div PAGE_SIZE}"
    using entry_put_outside[OF al p'(3)] by (simp add: vm_frame_def m'_def)
  moreover have "table_at P m' root (p @ [i]) = Some ?c" using walk[OF p(1)] p(2) pi by simp
  moreover have "tables_grow P D root s ?s" using tab3 by (intro tables_grow_same) simp
  ultimately show ?thesis using inv' ptes by auto
qed

text \<open>The other case: a zeroed frame is linked in where there was no table.\<close>

lemma new_table_walk:
  assumes inv: "as_inv P D s root" and tp: "table_at P (ram s) root p = Some t"
    and p: "path_ok D (p @ [i])" "length p \<le> 2" and np: "\<not> present P (entry_get (ram s) t i)"
    and new: "new div PAGE_SIZE \<in> free_set (frames s)" "new mod PAGE_SIZE = 0"
    and e: "present P e" "pt_addr P e = new"
    and q: "path_ok D q" "length q \<le> 4"
  defines "m' \<equiv> entry_put (mem_fill (ram s) new 0 PAGE_SIZE) t i e"
  shows "table_at P m' root q = (if prefix (p @ [i]) q then (if q = p @ [i] then Some new else None)
     else table_at P (ram s) root q)"
    and "prefix (p @ [i]) q \<Longrightarrow> table_at P (ram s) root q = None"
    and "table_frame s t' \<Longrightarrow> j < 512 \<Longrightarrow> (t', j) \<noteq> (t, i) \<Longrightarrow> entry_get m' t' j = entry_get (ram s) t' j"
    and "j < 512 \<Longrightarrow> entry_get m' new j = 0"
proof -
  have p': "path_ok D p" "length p \<le> 3" "i < 512"
    using path_ok_appendD[OF p(1)] p by (auto simp: path_ok_def)
  have tf: "table_frame s t" by (rule as_inv_table[OF inv p'(1,2) tp])
  then have al: "t mod PAGE_SIZE = 0" and tn: "t \<noteq> new" using new by (auto simp: table_frame_def)
  have other: "entry_get m' t' j = entry_get (ram s) t' j"
    if "table_frame s t'" "j < 512" "(t', j) \<noteq> (t, i)" for t' j
  proof -
    have "t' mod PAGE_SIZE = 0" "t' \<noteq> new" using that(1) new by (auto simp: table_frame_def)
    then show ?thesis
      using entry_get_put_other[OF al _ p'(3) that(2) that(3)[symmetric]] entry_get_fill[OF _ new(2) that(2), of t']
      by (simp add: m'_def)
  qed
  then show "table_frame s t' \<Longrightarrow> j < 512 \<Longrightarrow> (t', j) \<noteq> (t, i) \<Longrightarrow> entry_get m' t' j = entry_get (ram s) t' j" .
  have zero: "entry_get m' new j = 0" if "j < 512" for j
    using entry_get_put_other[OF al new(2) p'(3) that] tn entry_get_fill[OF new(2) new(2) that]
    by (simp add: m'_def)
  then show "j < 512 \<Longrightarrow> entry_get m' new j = 0" .
  show old: "prefix (p @ [i]) q \<Longrightarrow> table_at P (ram s) root q = None"
    using tp np by (auto simp: prefix_def table_at_append Let_def split: option.splits)
  show "table_at P m' root q = (if prefix (p @ [i]) q then (if q = p @ [i] then Some new else None)
     else table_at P (ram s) root q)"
  proof (cases "prefix (p @ [i]) q")
    case False
    then show ?thesis using walk_elsewhere[OF inv tp p'(1,2) q _ other] by simp
  next
    case True
    then obtain r where r: "q = p @ i # r" by (auto simp: prefix_def)
    have "\<not> prefix (p @ [i]) p" by (auto simp: prefix_def)
    then have "table_at P m' root p = Some t"
      using walk_elsewhere[OF inv tp p'(1,2) p'(1) _ _ other] p'(2) tp by simp
    then have "table_at P m' root q = table_at P m' new r"
      using r e by (simp add: table_at_append m'_def Let_def)
    moreover have "table_at P m' new r = (if r = [] then Some new else None)"
    proof (cases r)
      case (Cons j u)
      then have "j < 512" using q r by (simp add: path_ok_def)
      then show ?thesis using zero Cons by (simp add: Let_def)
    qed simp
    ultimately show ?thesis using True r by simp
  qed
qed

end

context page_entries
begin

lemma ensure_child_absent:
  assumes inv: "as_inv P D s root" and tp: "table_at P (ram s) root p = Some t"
    and p: "path_ok D (p @ [i])" "length p \<le> 2"
    and f: "contains (PTF_all P) f" "contains f (PTF_PRESENT P)"
    and np: "\<not> present P (entry_get (ram s) t i)" and ne: "free_set (frames s) \<noteq> {}"
  shows "\<exists>c s'. ensure_child P s t i f = Some (Inr c, s') \<and> as_inv P D s' root
    \<and> table_at P (ram s') root (p @ [i]) = Some c \<and> tables_grow P D root s s'
    \<and> (\<forall>q. path_ok D q \<longrightarrow> length q = 4 \<longrightarrow> pte P (ram s') root q = pte P (ram s) root q)
    \<and> vm_frame s s' ({t div PAGE_SIZE} \<union> free_set (frames s))
    \<and> card (free_set (frames s)) \<le> Suc (card (free_set (frames s')))"
proof -
  have fi: "frame_inv (frames s)" using inv by (simp add: as_inv_def)
  from fa.alloc_some[OF fi ne] obtain pfn fs where fs:
    "alloc_frame (frames s) = Some (Some (pfn * PAGE_SIZE), fs)" "pfn \<in> free_set (frames s)"
    "frame_inv fs" "search_ends fs" "free_set fs = free_set (frames s) - {pfn}"
    "TOTAL_FRAMES fs = TOTAL_FRAMES (frames s)" by blast
  define new where "new = pfn * PAGE_SIZE"
  have new: "new div PAGE_SIZE = pfn" "new mod PAGE_SIZE = 0" by (simp_all add: new_def PAGE_SIZE_def)
  have pfn: "pfn < TOTAL_FRAMES (frames s)" using fa.avail_bound[OF fi fs(2)] by simp
  then have "pfn < 2 ^ 35" using inv by (simp add: as_inv_def)
  then have ref: "pml4_ref new = Some new" and small: "new < 2 ^ 52"
    by (simp_all add: pml4_ref_def u64_add_def HHDM_OFFSET_def new_def PAGE_SIZE_def)
  from set_addr_ok[OF new(2) small f(1)] obtain e where
    e: "pt_set_addr P new f = Some e" "pt_addr P e = new" "pt_flags P e = f" .
  have pe: "present P e" using f(2) e(3) by (simp add: present_def)
  let ?m = "entry_put (mem_fill (ram s) new 0 PAGE_SIZE) t i e"
  let ?s = "s\<lparr>frames := fs, ram := ?m\<rparr>"
  have nf: "new div PAGE_SIZE \<in> free_set (frames s)" using new fs(2) by simp
  note w = new_table_walk[OF inv tp p np nf new(2) pe e(2)]
  have p': "path_ok D p" "length p \<le> 3" "i < 512"
    using path_ok_appendD[OF p(1)] p by (auto simp: path_ok_def)
  have tf: "table_frame s t" by (rule as_inv_table[OF inv p'(1,2) tp])
  have old: "table_frame ?s t'" if "table_frame s t'" for t'
    using that fs(5,6) by (auto simp: table_frame_def)
  have fresh: "table_frame ?s new" "\<not> table_frame s new"
    using new pfn fs(2,5,6) by (auto simp: table_frame_def)
  have walk: "table_at P ?m root q = Some t' \<longleftrightarrow>
      (if q = p @ [i] then t' = new else table_at P (ram s) root q = Some t')"
    if "path_ok D q" "length q \<le> 3" for q t'
    using w(1)[of q] w(2)[of q] that by auto
  have inv': "as_inv P D ?s root"
  proof (rule as_invI)
    fix q t' assume q: "path_ok D q" "length q \<le> 3" "table_at P (ram ?s) root q = Some t'"
    then show "table_frame ?s t'"
      using walk[OF q(1,2)] old as_inv_table[OF inv q(1,2)] fresh(1) by (auto split: if_splits)
  next
    fix q r t' assume q: "path_ok D q" "path_ok D r" "length q \<le> 3" "length r \<le> 3"
      "table_at P (ram ?s) root q = Some t'" "table_at P (ram ?s) root r = Some t'"
    then show "q = r"
      using walk[of q t'] walk[of r t'] as_inv_inj[OF inv q(1,2,3,4)] as_inv_table[OF inv q(1,3)]
        as_inv_table[OF inv q(2,4)] fresh(2) by (auto split: if_splits)
  qed (use fs inv in \<open>simp_all add: as_inv_def\<close>)
  have ptes: "pte P ?m root q = pte P (ram s) root q" if q: "path_ok D q" "length q = 4" for q
  proof -
    note t3 = take3_path[OF q]
    have w3: "table_at P ?m root (take 3 q) = (if prefix (p @ [i]) (take 3 q)
        then (if take 3 q = p @ [i] then Some new else None) else table_at P (ram s) root (take 3 q))"
      using w(1)[of "take 3 q"] t3 by simp
    show ?thesis
    proof (cases "prefix (p @ [i]) (take 3 q)")
      case True
      then show ?thesis using w3 w(2)[of "take 3 q"] w(4)[of "[]" "q ! 3"] t3
        by (simp add: pte_def path_ok_def)
    next
      case False
      show ?thesis
      proof (cases "table_at P (ram s) root (take 3 q)")
        case (Some u)
        have "u \<noteq> t" using as_inv_inj[OF inv p'(1) _ p'(2) _ tp, of "take 3 q"] Some t3 p(2) by auto
        moreover have "table_frame s u" using as_inv_table[OF inv, of "take 3 q"] Some t3 by simp
        ultimately show ?thesis using Some w3 False w(3)[of "[]" u "q ! 3"] t3
          by (simp add: pte_def path_ok_def)
      qed (use w3 False in \<open>simp add: pte_def\<close>)
    qed
  qed
  have "ensure_child P s t i f = Some (Inr new, ?s)"
    using np fs(1) ref e(1) by (simp add: ensure_child_def Let_def new_def)
  moreover have "?m a = ram s a" if "a div PAGE_SIZE \<notin> {t div PAGE_SIZE} \<union> free_set (frames s)" for a
  proof -
    have "a div PAGE_SIZE \<noteq> new div PAGE_SIZE" "a div PAGE_SIZE \<noteq> t div PAGE_SIZE" using that nf by auto
    then show ?thesis
      using entry_put_outside[of t i a] tf p'(3) mem_fill_page_outside[OF new(2), of a]
      by (simp add: table_frame_def)
  qed
  then have "vm_frame s ?s ({t div PAGE_SIZE} \<union> free_set (frames s))"
    using fs(5,6) by (auto simp: vm_frame_def)
  moreover have "table_at P ?m root (p @ [i]) = Some new" using w(1)[OF p(1)] p(2) by simp
  moreover have "tables_grow P D root s ?s"
    unfolding tables_grow_def using walk w(2)[OF p(1)] p(2) nf by auto
  moreover have "card (free_set (frames s)) \<le> Suc (card (free_set fs))"
    using fs(5) card_Suc_Diff1[OF finite_free_set fs(2)] by simp
  ultimately show ?thesis using inv' ptes by auto
qed

lemma ensure_child_spec:
  assumes inv: "as_inv P D s root" and tp: "table_at P (ram s) root p = Some t"
    and p: "path_ok D (p @ [i])" "length p \<le> 2"
    and f: "contains (PTF_all P) f" "contains f (PTF_PRESENT P)"
  shows "(ensure_child P s t i f = Some (Inl OutOfMemory, s) \<and> free_set (frames s) = {}
      \<and> table_at P (ram s) root (p @ [i]) = None)
    \<or> (\<exists>c s'. ensure_child P s t i f = Some (Inr c, s') \<and> as_inv P D s' root
      \<and> table_at P (ram s') root (p @ [i]) = Some c
      \<and> tables_grow P D root s s'
      \<and> (\<forall>q. path_ok D q \<longrightarrow> length q = 4 \<longrightarrow> pte P (ram s') root q = pte P (ram s) root q)
      \<and> vm_frame s s' ({t div PAGE_SIZE} \<union> free_set (frames s))
      \<and> card (free_set (frames s)) \<le> Suc (card (free_set (frames s'))))"
proof (cases "present P (entry_get (ram s) t i)")
  case True
  have "vm_frame s s' {t div PAGE_SIZE} \<Longrightarrow> vm_frame s s' ({t div PAGE_SIZE} \<union> free_set (frames s))" for s'
    by (auto simp: vm_frame_def)
  moreover obtain c s' where "ensure_child P s t i f = Some (Inr c, s')" "as_inv P D s' root"
    "table_at P (ram s') root (p @ [i]) = Some c" "tables_grow P D root s s'" "vm_frame s s' {t div PAGE_SIZE}"
    "\<forall>q. path_ok D q \<longrightarrow> length q = 4 \<longrightarrow> pte P (ram s') root q = pte P (ram s) root q" "frames s' = frames s"
    using ensure_child_present[OF inv tp p f(1) True] by blast
  ultimately show ?thesis by auto
next
  case False
  show ?thesis
  proof (cases "free_set (frames s) = {}")
    case True
    have "alloc_frame (frames s) = Some (None, frames s)"
      using inv True by (intro fa.alloc_none) (auto simp: as_inv_def)
    moreover have "table_at P (ram s) root (p @ [i]) = None"
      using tp False by (simp add: table_at_snoc Let_def)
    ultimately show ?thesis using False True by (simp add: ensure_child_def Let_def)
  next
    case ne: False
    from ensure_child_absent[OF inv tp p f False ne] show ?thesis by blast
  qed
qed

end

section \<open>Leaf entries\<close>

lemma leaf_put:
  fixes e :: u64
  assumes inv: "as_inv P D s root" and q: "path_ok D q" "length q = 4"
    and pt: "table_at P (ram s) root (take 3 q) = Some pt"
  defines "s' \<equiv> s\<lparr>ram := entry_put (ram s) pt (q ! 3) e\<rparr>"
  shows "as_inv P D s' root"
    and "\<And>r. path_ok D r \<Longrightarrow> length r = 4 \<Longrightarrow> pte P (ram s') root r = (if r = q then e else pte P (ram s) root r)"
    and "tables_grow P D root s s'" and "vm_frame s s' {pt div PAGE_SIZE}"
proof -
  note t3 = take3_path[OF q]
  have tf: "table_frame s pt" using as_inv_table[OF inv _ _ pt] t3 by simp
  then have al: "pt mod PAGE_SIZE = 0" by (simp add: table_frame_def)
  have other: "entry_get (ram s') t' j = entry_get (ram s) t' j"
    if "table_frame s t'" "j < 512" "(t', j) \<noteq> (pt, q ! 3)" for t' j
    using entry_get_put_other[of pt t' "q ! 3" j] that t3 al by (auto simp: s'_def table_frame_def)
  have walk: "table_at P (ram s') root r = table_at P (ram s) root r" if "path_ok D r" "length r \<le> 3" for r
  proof (rule walk_elsewhere[OF inv pt])
    show "\<not> prefix (take 3 q @ [q ! 3]) r" using that(2) t3 by (auto dest: prefix_length_le)
  qed (use t3 that other in auto)
  show "as_inv P D s' root"
    using inv walk by (intro as_invI) (auto simp: as_inv_def s'_def table_frame_def)
  show "tables_grow P D root s s'" using walk by (rule tables_grow_same)
  show "vm_frame s s' {pt div PAGE_SIZE}"
    using entry_put_outside[OF al, of "q ! 3"] t3 by (simp add: vm_frame_def s'_def)
  fix r assume r: "path_ok D r" "length r = 4"
  note r3 = take3_path[OF r]
  show "pte P (ram s') root r = (if r = q then e else pte P (ram s) root r)"
  proof (cases "table_at P (ram s) root (take 3 r)")
    case None
    then have "r \<noteq> q" using pt by auto
    then show ?thesis using None walk[of "take 3 r"] r3 by (simp add: pte_def)
  next
    case (Some u)
    have uf: "table_frame s u" using as_inv_table[OF inv _ _ Some] r3 by simp
    show ?thesis
    proof (cases "(u, r ! 3) = (pt, q ! 3)")
      case True
      then have "take 3 r = take 3 q" using as_inv_inj[OF inv _ _ _ _ Some] pt r3 t3 by simp
      then have "r = q" using True r3 t3 by (metis prod.inject)
      then show ?thesis using pt walk[of "take 3 q"] t3 by (simp add: pte_def s'_def)
    next
      case False
      then have "r \<noteq> q" using Some pt by auto
      then show ?thesis using False Some walk[of "take 3 r"] r3 other[OF uf _ False] by (simp add: pte_def)
    qed
  qed
qed

definition path_frames :: "x86_api \<Rightarrow> memory \<Rightarrow> nat \<Rightarrow> nat list \<Rightarrow> nat set" where
  "path_frames P m root q = {t div PAGE_SIZE |t n. n \<le> 3 \<and> table_at P m root (take n q) = Some t}"

lemma path_frames_grow:
  assumes "tables_grow P D root s s'" and "path_ok D q" and "n \<le> 3" and "table_at P (ram s') root (take n q) = Some t"
  shows "t div PAGE_SIZE \<in> path_frames P (ram s) root q \<union> free_set (frames s)"
proof -
  have "path_ok D (take n q)" "length (take n q) \<le> 3" using assms(2,3) path_ok_take by auto
  then have "table_at P (ram s) root (take n q) = Some t \<or> t div PAGE_SIZE \<in> free_set (frames s)"
    using assms(1,4) by (simp add: tables_grow_def)
  then show ?thesis using assms(3) by (auto simp: path_frames_def)
qed

section \<open>The operations as updates of the page map\<close>

text \<open>The outcome of mapping a page: the map is updated at the page, or the error says why not and
  the map is as it was.\<close>

definition map_outcome ::
  "x86_api \<Rightarrow> nat set \<Rightarrow> nat \<Rightarrow> nat list \<Rightarrow> nat \<Rightarrow> MapFlags \<Rightarrow> vm_state \<Rightarrow> (MapError + unit) \<times> vm_state \<Rightarrow> bool" where
  "map_outcome P D root q phys flags s out \<longleftrightarrow>
     as_inv P D (snd out) root \<and> tables_grow P D root s (snd out)
   \<and> vm_frame s (snd out) (path_frames P (ram s) root q \<union> free_set (frames s))
   \<and> (case fst out of
        Inr _ \<Rightarrow> \<not> present P (pte P (ram s) root q)
          \<and> (\<exists>e. pt_addr P e = phys \<and> pt_flags P e = leaf P flags
               \<and> (\<forall>r. path_ok D r \<longrightarrow> length r = 4 \<longrightarrow>
                    pte P (ram (snd out)) root r = (if r = q then e else pte P (ram s) root r)))
      | Inl err \<Rightarrow> (\<forall>r. path_ok D r \<longrightarrow> length r = 4 \<longrightarrow> pte P (ram (snd out)) root r = pte P (ram s) root r)
          \<and> (err = AlreadyMapped \<and> present P (pte P (ram s) root q)
             \<or> err = OutOfMemory \<and> card (free_set (frames s)) < 3 \<and> free_set (frames (snd out)) = {}
               \<and> table_at P (ram s) root (take 3 q) = None))"

definition mid_state :: "x86_api \<Rightarrow> nat set \<Rightarrow> nat \<Rightarrow> nat list \<Rightarrow> vm_state \<Rightarrow> vm_state \<Rightarrow> bool" where
  "mid_state P D root q s s' \<longleftrightarrow> as_inv P D s' root \<and> tables_grow P D root s s'
     \<and> vm_frame s s' (path_frames P (ram s) root q \<union> free_set (frames s))
     \<and> (\<forall>r. path_ok D r \<longrightarrow> length r = 4 \<longrightarrow> pte P (ram s') root r = pte P (ram s) root r)"

lemma mid_state_refl: "as_inv P D s root \<Longrightarrow> mid_state P D root q s s"
  by (simp add: mid_state_def)

lemma table_at_take_None:
  "table_at P m root (take n q) = None \<Longrightarrow> n \<le> k \<Longrightarrow> table_at P m root (take k q) = None"
proof -
  assume a: "table_at P m root (take n q) = None" "n \<le> k"
  have "take k q = take n q @ drop n (take k q)" using a(2) by (metis append_take_drop_id min_def take_take)
  then show ?thesis using a(1) by (metis table_at_append option.simps(4))
qed

context page_entries
begin

lemma ensure_step:
  assumes mid: "mid_state P D root q s s1" and q: "path_ok D q" "length q = 4" and n: "n \<le> 2"
    and t: "table_at P (ram s1) root (take n q) = Some t"
    and f: "contains (PTF_all P) f" "contains f (PTF_PRESENT P)"
  shows "(ensure_child P s1 t (q ! n) f = Some (Inl OutOfMemory, s1) \<and> free_set (frames s1) = {}
      \<and> table_at P (ram s) root (take 3 q) = None)
    \<or> (\<exists>c s2. ensure_child P s1 t (q ! n) f = Some (Inr c, s2) \<and> mid_state P D root q s s2
      \<and> table_at P (ram s2) root (take (Suc n) q) = Some c
      \<and> card (free_set (frames s1)) \<le> Suc (card (free_set (frames s2))))"
proof -
  let ?F = "path_frames P (ram s) root q \<union> free_set (frames s)"
  have inv: "as_inv P D s1 root" and grow: "tables_grow P D root s s1" and fr: "vm_frame s s1 ?F"
    using mid by (auto simp: mid_state_def)
  have snoc: "take (Suc n) q = take n q @ [q ! n]" using n q(2) by (intro take_Suc_conv_app_nth) simp
  have pk: "path_ok D (take n q @ [q ! n])" using path_ok_take[OF q(1), of "Suc n"] snoc by simp
  have len: "length (take n q) \<le> 2" using n by simp
  consider (oom) "ensure_child P s1 t (q ! n) f = Some (Inl OutOfMemory, s1)" "free_set (frames s1) = {}"
      "table_at P (ram s1) root (take (Suc n) q) = None"
    | (ok) c s2 where "ensure_child P s1 t (q ! n) f = Some (Inr c, s2)" "as_inv P D s2 root"
      "table_at P (ram s2) root (take (Suc n) q) = Some c" "tables_grow P D root s1 s2"
      "\<forall>r. path_ok D r \<longrightarrow> length r = 4 \<longrightarrow> pte P (ram s2) root r = pte P (ram s1) root r"
      "vm_frame s1 s2 ({t div PAGE_SIZE} \<union> free_set (frames s1))"
      "card (free_set (frames s1)) \<le> Suc (card (free_set (frames s2)))"
    using ensure_child_spec[OF inv t pk len f] unfolding snoc by (elim disjE exE conjE; assumption?) simp_all
  then show ?thesis
  proof cases
    case oom
    have "table_at P (ram s) root (take (Suc n) q) = None"
      using oom(3) grow path_ok_take[OF q(1), of "Suc n"] n
      by (cases "table_at P (ram s) root (take (Suc n) q)") (auto simp: tables_grow_def)
    then show ?thesis using oom table_at_take_None[of P "ram s" root "Suc n" q 3] n by simp
  next
    case ok
    have "free_set (frames s1) \<subseteq> free_set (frames s)" using fr by (simp add: vm_frame_def)
    moreover have "t div PAGE_SIZE \<in> ?F" using path_frames_grow[OF grow q(1) _ t] n by simp
    ultimately have "?F \<union> ({t div PAGE_SIZE} \<union> free_set (frames s1)) \<subseteq> ?F"
      and "tables_grow P D root s s2" using tables_grow_trans[OF grow ok(4)] by auto
    moreover have "vm_frame s s2 ?F" by (rule vm_frame_trans[OF fr ok(6)]) fact
    ultimately have "mid_state P D root q s s2" using mid ok(2,5) by (simp add: mid_state_def)
    then show ?thesis using ok(1,3,7) by blast
  qed
qed

lemma map_last:
  assumes q: "path_ok D q" "length q = 4" and mid: "mid_state P D root q s s3"
    and pt: "table_at P (ram s3) root (take 3 q) = Some pt"
    and ph: "phys mod PAGE_SIZE = 0" "phys < 2 ^ 52"
  shows "\<exists>out. (if present P (entry_get (ram s3) pt (q ! 3)) then Some (Inl AlreadyMapped, s3)
       else do { slot \<leftarrow> pt_set_addr P phys (leaf P flags);
                 Some (Inr (), s3\<lparr>ram := entry_put (ram s3) pt (q ! 3) slot\<rparr>) }) = Some out
     \<and> map_outcome P D root q phys flags s out"
proof -
  let ?F = "path_frames P (ram s) root q \<union> free_set (frames s)"
  have inv: "as_inv P D s3 root" and grow: "tables_grow P D root s s3" and fr: "vm_frame s s3 ?F"
    and same: "\<And>r. path_ok D r \<Longrightarrow> length r = 4 \<Longrightarrow> pte P (ram s3) root r = pte P (ram s) root r"
    using mid by (auto simp: mid_state_def)
  have slot: "entry_get (ram s3) pt (q ! 3) = pte P (ram s) root q"
    using same[OF q] pt by (simp add: pte_def)
  show ?thesis
  proof (cases "present P (pte P (ram s) root q)")
    case True
    then show ?thesis using mid slot by (simp add: map_outcome_def mid_state_def)
  next
    case False
    from set_addr_ok[OF ph leaf_flags(1)] obtain e where
      e: "pt_set_addr P phys (leaf P flags) = Some e" "pt_addr P e = phys" "pt_flags P e = leaf P flags" .
    note lp = leaf_put[OF inv q pt, where e = e]
    let ?s = "s3\<lparr>ram := entry_put (ram s3) pt (q ! 3) e\<rparr>"
    have "pt div PAGE_SIZE \<in> ?F" using path_frames_grow[OF grow q(1) _ pt] by simp
    then have "vm_frame s ?s ?F" using vm_frame_trans[OF fr lp(4)] by simp
    moreover have "tables_grow P D root s ?s"
      using tables_grow_trans[OF grow lp(3)] fr by (simp add: vm_frame_def)
    ultimately have "map_outcome P D root q phys flags s (Inr (), ?s)"
      using lp(1,2) same e False by (auto simp: map_outcome_def)
    then show ?thesis using False slot e(1) by simp
  qed
qed

lemma map_4k_outcome:
  assumes inv: "as_inv P D s (pml4_phys as)" and v: "virt mod PAGE_SIZE = 0" "pml4_idx virt \<in> D"
    and ph: "phys mod PAGE_SIZE = 0" "phys < 2 ^ 52"
  shows "\<exists>out. map_4k P as virt phys flags s = Some out
    \<and> map_outcome P D (pml4_phys as) (page_path virt) phys flags s out"
proof -
  define q where "q = page_path virt"
  define root where "root = pml4_phys as"
  have inv: "as_inv P D s root" using inv by (simp add: root_def)
  have q: "path_ok D q" "length q = 4" using page_path_ok[OF v(2)] by (simp_all add: q_def)
  have idx: "pml4_idx virt = q ! 0" "pdpt_idx virt = q ! 1" "pd_idx virt = q ! 2" "pt_idx virt = q ! 3"
    by (simp_all add: q_def page_path_def numeral_2_eq_2 numeral_3_eq_3)
  define f where "f = intermediate P flags"
  have f: "contains (PTF_all P) f" "contains f (PTF_PRESENT P)" unfolding f_def by (rule intermediate_flags)+
  have ref: "pml4_ref root = Some root"
    using table_frame_ref[OF inv as_inv_table[OF inv, of "[]"]] by (simp add: path_ok_def)
  have oom: "map_outcome P D root q phys flags s (Inl OutOfMemory, s')"
    if "mid_state P D root q s s'" "free_set (frames s') = {}" "table_at P (ram s) root (take 3 q) = None"
      "card (free_set (frames s)) < 3" for s'
    using that by (simp add: map_outcome_def mid_state_def)
  have eq: "map_4k P as virt phys flags s = do {
        (r1, st1) \<leftarrow> ensure_child P s root (q ! 0) f;
        (case r1 of Inl e \<Rightarrow> Some (Inl e, st1) | Inr pdpt \<Rightarrow> do {
          (r2, st2) \<leftarrow> ensure_child P st1 pdpt (q ! 1) f;
          (case r2 of Inl e \<Rightarrow> Some (Inl e, st2) | Inr pd \<Rightarrow> do {
            (r3, st3) \<leftarrow> ensure_child P st2 pd (q ! 2) f;
            (case r3 of Inl e \<Rightarrow> Some (Inl e, st3) | Inr pt \<Rightarrow>
              (if present P (entry_get (ram st3) pt (q ! 3)) then Some (Inl AlreadyMapped, st3)
               else do {
                 slot \<leftarrow> pt_set_addr P phys (leaf P flags);
                 Some (Inr (), st3\<lparr>ram := entry_put (ram st3) pt (q ! 3) slot\<rparr>) })) }) }) }"
    using v ph ref unfolding map_4k_def root_def[symmetric] f_def[symmetric] idx by simp
  from ensure_step[OF mid_state_refl[OF inv] q, of 0 root f] f
  consider "ensure_child P s root (q ! 0) f = Some (Inl OutOfMemory, s)" "free_set (frames s) = {}"
      "table_at P (ram s) root (take 3 q) = None"
    | (ok) c1 s1 where "ensure_child P s root (q ! 0) f = Some (Inr c1, s1)" "mid_state P D root q s s1"
      "table_at P (ram s1) root (take 1 q) = Some c1" "card (free_set (frames s)) \<le> Suc (card (free_set (frames s1)))" by auto
  then show ?thesis
  proof cases
    case 1
    then show ?thesis using eq oom[OF mid_state_refl[OF inv]] by (simp add: root_def q_def)
  next
    case one: ok
    from ensure_step[OF one(2) q _ one(3) f] consider
      "ensure_child P s1 c1 (q ! 1) f = Some (Inl OutOfMemory, s1)" "free_set (frames s1) = {}"
      "table_at P (ram s) root (take 3 q) = None"
    | (ok) c2 s2 where "ensure_child P s1 c1 (q ! 1) f = Some (Inr c2, s2)" "mid_state P D root q s s2"
      "table_at P (ram s2) root (take 2 q) = Some c2" "card (free_set (frames s1)) \<le> Suc (card (free_set (frames s2)))" by (auto simp: numeral_2_eq_2)
    then show ?thesis
    proof cases
      case 1
      then show ?thesis using eq one oom[OF one(2)] by (simp add: root_def q_def)
    next
      case two: ok
      from ensure_step[OF two(2) q _ two(3) f] consider
        "ensure_child P s2 c2 (q ! 2) f = Some (Inl OutOfMemory, s2)" "free_set (frames s2) = {}"
        "table_at P (ram s) root (take 3 q) = None"
      | (ok) c3 s3 where "ensure_child P s2 c2 (q ! 2) f = Some (Inr c3, s3)" "mid_state P D root q s s3"
        "table_at P (ram s3) root (take 3 q) = Some c3" by (auto simp: numeral_2_eq_2 numeral_3_eq_3)
      then show ?thesis
      proof cases
        case 1
        then show ?thesis using eq one two oom[OF two(2)] by (simp add: root_def q_def)
      next
        case three: ok
        from map_last[OF q three(2,3) ph] show ?thesis
          using eq one(1) two(1) three(1) by (simp add: root_def q_def)
      qed
    qed
  qed
qed

end

section \<open>Reading and removing entries\<close>

lemma child_mut_step:
  assumes inv: "as_inv P D s root" and ok: "path_ok D (p @ [i])" "length p \<le> 2"
    and t: "table_at P (ram s) root p = Some t"
  shows "child_mut P (ram s) t i = Some (table_at P (ram s) root (p @ [i]))"
proof (cases "present P (entry_get (ram s) t i)")
  case True
  then have "table_at P (ram s) root (p @ [i]) = Some (pt_addr P (entry_get (ram s) t i))"
    using t by (simp add: table_at_snoc Let_def)
  moreover from this have "pml4_ref (pt_addr P (entry_get (ram s) t i)) = Some (pt_addr P (entry_get (ram s) t i))"
    using table_frame_ref[OF inv as_inv_table[OF inv ok(1)]] ok(2) by simp
  ultimately show ?thesis using True by (simp add: child_mut_def Let_def)
qed (use t in \<open>simp add: child_mut_def table_at_snoc Let_def\<close>)

lemma root_ref: "as_inv P D s root \<Longrightarrow> pml4_ref root = Some root"
  using table_frame_ref as_inv_table[of P D s root "[]"] by (simp add: path_ok_def)

text \<open>The three descents shared by the walks, as one: the last table, if every level is there.\<close>

lemma three_descents:
  assumes inv: "as_inv P D s root" and v: "pml4_idx va \<in> D"
  shows "do { t0 \<leftarrow> pml4_ref root; r1 \<leftarrow> child_mut P (ram s) t0 (pml4_idx va);
      (case r1 of None \<Rightarrow> none | Some t1 \<Rightarrow> do { r2 \<leftarrow> child_mut P (ram s) t1 (pdpt_idx va);
      (case r2 of None \<Rightarrow> none | Some t2 \<Rightarrow> do { r3 \<leftarrow> child_mut P (ram s) t2 (pd_idx va);
      (case r3 of None \<Rightarrow> none | Some t3 \<Rightarrow> k t3) }) }) }
    = (case table_at P (ram s) root (take 3 (page_path va)) of None \<Rightarrow> none | Some t3 \<Rightarrow> k t3)"
proof -
  have ok: "path_ok D [pml4_idx va]" "path_ok D [pml4_idx va, pdpt_idx va]"
    "path_ok D [pml4_idx va, pdpt_idx va, pd_idx va]"
    using v by (auto simp: path_ok_def pml4_idx_def pdpt_idx_def pd_idx_def)
  have s0: "child_mut P (ram s) root (pml4_idx va) = Some (table_at P (ram s) root [pml4_idx va])"
    using child_mut_step[OF inv, of "[]"] ok by simp
  have s1: "child_mut P (ram s) t (pdpt_idx va) = Some (table_at P (ram s) root [pml4_idx va, pdpt_idx va])"
    if "table_at P (ram s) root [pml4_idx va] = Some t" for t
    using child_mut_step[OF inv, of "[pml4_idx va]"] ok that by simp
  have s2: "child_mut P (ram s) t (pd_idx va) = Some (table_at P (ram s) root [pml4_idx va, pdpt_idx va, pd_idx va])"
    if "table_at P (ram s) root [pml4_idx va, pdpt_idx va] = Some t" for t
    using child_mut_step[OF inv, of "[pml4_idx va, pdpt_idx va]"] ok that by simp
  have tk: "take 3 (page_path va) = [pml4_idx va, pdpt_idx va, pd_idx va]"
    "take 2 (page_path va) = [pml4_idx va, pdpt_idx va]" "take 1 (page_path va) = [pml4_idx va]"
    by (simp_all add: page_path_def)
  have n: "table_at P (ram s) root [pml4_idx va] = None \<Longrightarrow> table_at P (ram s) root [pml4_idx va, pdpt_idx va, pd_idx va] = None"
    "table_at P (ram s) root [pml4_idx va, pdpt_idx va] = None \<Longrightarrow> table_at P (ram s) root [pml4_idx va, pdpt_idx va, pd_idx va] = None"
    by (rule table_at_take_None[of P "ram s" root 1 "page_path va" 3, unfolded tk]
        table_at_take_None[of P "ram s" root 2 "page_path va" 3, unfolded tk]; simp del: table_at.simps)+
  show ?thesis
    using root_ref[OF inv] s0 s1 s2 n unfolding tk
    by (cases "table_at P (ram s) root [pml4_idx va]"; cases "table_at P (ram s) root [pml4_idx va, pdpt_idx va]")
      (simp_all del: table_at.simps)
qed

lemma child_mut_bind:
  "child_mut P m t i \<bind> k = (if \<not> present P (entry_get m t i) then k None
     else pml4_ref (pt_addr P (entry_get m t i)) \<bind> (\<lambda>c. k (Some c)))"
  by (simp add: child_mut_def Let_def)

lemma phys_for_virt_descents:
  "phys_for_virt P as m va = do { t0 \<leftarrow> pml4_ref (pml4_phys as); r1 \<leftarrow> child_mut P m t0 (pml4_idx va);
      (case r1 of None \<Rightarrow> Some None | Some t1 \<Rightarrow> do { r2 \<leftarrow> child_mut P m t1 (pdpt_idx va);
      (case r2 of None \<Rightarrow> Some None | Some t2 \<Rightarrow> do { r3 \<leftarrow> child_mut P m t2 (pd_idx va);
      (case r3 of None \<Rightarrow> Some None | Some t3 \<Rightarrow>
        (let e4 = entry_get m t3 (pt_idx va) in
         if \<not> present P e4 then Some None else Some (Some (pt_addr P e4 + va mod PAGE_SIZE)))) }) }) }"
  unfolding phys_for_virt_def child_mut_bind Let_def option.case ..

lemma is_mapped_descents:
  "is_mapped_4k P as m va = do { t0 \<leftarrow> pml4_ref (pml4_phys as); r1 \<leftarrow> child_mut P m t0 (pml4_idx va);
      (case r1 of None \<Rightarrow> Some False | Some t1 \<Rightarrow> do { r2 \<leftarrow> child_mut P m t1 (pdpt_idx va);
      (case r2 of None \<Rightarrow> Some False | Some t2 \<Rightarrow> do { r3 \<leftarrow> child_mut P m t2 (pd_idx va);
      (case r3 of None \<Rightarrow> Some False | Some t3 \<Rightarrow> Some (present P (entry_get m t3 (pt_idx va)))) }) }) }"
  unfolding is_mapped_4k_def child_mut_bind Let_def option.case ..

context page_entries
begin

lemma phys_for_virt_eq:
  assumes "as_inv P D s (pml4_phys as)" and "pml4_idx va \<in> D"
  shows "phys_for_virt P as (ram s) va =
    (let e = pte P (ram s) (pml4_phys as) (page_path va) in
     if present P e then Some (Some (pt_addr P e + va mod PAGE_SIZE)) else Some None)"
  unfolding phys_for_virt_descents three_descents[OF assms]
  by (simp add: pte_def page_path_def Let_def split: option.splits)

lemma is_mapped_4k_eq:
  assumes "as_inv P D s (pml4_phys as)" and "pml4_idx va \<in> D"
  shows "is_mapped_4k P as (ram s) va = Some (present P (pte P (ram s) (pml4_phys as) (page_path va)))"
  unfolding is_mapped_descents three_descents[OF assms]
  by (simp add: pte_def page_path_def split: option.splits)

text \<open>The outcome of removing a page.\<close>

lemma unmap_4k_outcome:
  assumes inv: "as_inv P D s (pml4_phys as)" and v: "pml4_idx va \<in> D" "va_canonical P va"
  shows "\<exists>s'. unmap_4k P as va s = Some (let e = pte P (ram s) (pml4_phys as) (page_path va) in
        if present P e then Some (pt_addr P e) else None, s')
    \<and> as_inv P D s' (pml4_phys as) \<and> tables_grow P D (pml4_phys as) s s'
    \<and> vm_frame s s' (path_frames P (ram s) (pml4_phys as) (page_path va)) \<and> frames s' = frames s
    \<and> (\<forall>r. path_ok D r \<longrightarrow> length r = 4 \<longrightarrow> pte P (ram s') (pml4_phys as) r =
          (if r = page_path va \<and> present P (pte P (ram s) (pml4_phys as) r) then 0
           else pte P (ram s) (pml4_phys as) r))"
proof -
  let ?q = "page_path va" and ?root = "pml4_phys as"
  have q: "path_ok D ?q" "length ?q = 4" using page_path_ok[OF v(1)] by simp_all
  have ix: "pt_idx va = ?q ! 3" by (simp add: page_path_def numeral_3_eq_3)
  note eq = unmap_4k_def[of P as va s, unfolded three_descents[OF inv v(1)]]
  show ?thesis
  proof (cases "table_at P (ram s) ?root (take 3 ?q)")
    case None
    then show ?thesis using eq inv by (auto simp: pte_def)
  next
    case (Some pt)
    have e: "entry_get (ram s) pt (pt_idx va) = pte P (ram s) ?root ?q" using Some ix by (simp add: pte_def)
    show ?thesis
    proof (cases "present P (pte P (ram s) ?root ?q)")
      case False
      then show ?thesis using eq Some e inv by (auto simp: Let_def)
    next
      case True
      note lp = leaf_put[OF inv q Some, where e = 0]
      let ?s = "s\<lparr>ram := entry_put (ram s) pt (pt_idx va) 0\<rparr>"
      have "unmap_4k P as va s = Some (Some (pt_addr P (pte P (ram s) ?root ?q)), ?s)"
        using eq Some e True v(2) by (simp add: Let_def)
      moreover have "pt div PAGE_SIZE \<in> path_frames P (ram s) ?root ?q"
        using Some by (auto simp: path_frames_def)
      then have "vm_frame s ?s (path_frames P (ram s) ?root ?q)"
        using vm_frame_trans[OF vm_frame_refl lp(4)] ix by auto
      ultimately show ?thesis using lp(1,2,3) True ix by (auto simp: Let_def)
    qed
  qed
qed

end

section \<open>Page numbers and paths\<close>

lemma page_path_inj:
  assumes "va < 2 ^ 48" "vb < 2 ^ 48" "page_path va = page_path vb"
  shows "va div PAGE_SIZE = vb div PAGE_SIZE"
proof -
  have digits: "v div 4096 = ((pml4_idx v * 512 + pdpt_idx v) * 512 + pd_idx v) * 512 + pt_idx v"
    if "v < 2 ^ 48" for v
  proof -
    define n where "n = v div 4096"
    have "v div 2 ^ 39 = n div 512 div 512 div 512" "v div 2 ^ 30 = n div 512 div 512"
      "v div 2 ^ 21 = n div 512" "v div 2 ^ 12 = n"
      by (simp_all add: n_def div_mult2_eq[symmetric])
    moreover have "n div 512 div 512 div 512 < 512"
      using that by (simp add: n_def div_mult2_eq[symmetric] div_less_iff_less_mult)
    ultimately show ?thesis
      unfolding pml4_idx_def pdpt_idx_def pd_idx_def pt_idx_def n_def[symmetric]
      by (simp add: mod_less div_mult_mod_eq)
  qed
  show ?thesis
    using digits[OF assms(1)] digits[OF assms(2)] assms(3) by (simp add: page_path_def PAGE_SIZE_def)
qed

lemma page_path_cong: "va div PAGE_SIZE = vb div PAGE_SIZE \<Longrightarrow> page_path va = page_path vb"
proof -
  assume eq: "va div PAGE_SIZE = vb div PAGE_SIZE"
  have "v div 2 ^ 39 = v div 4096 div 2 ^ 27" "v div 2 ^ 30 = v div 4096 div 2 ^ 18"
    "v div 2 ^ 21 = v div 4096 div 2 ^ 9" "v div 2 ^ 12 = v div 4096" for v :: nat
    by (simp_all add: div_mult2_eq[symmetric])
  then show ?thesis using eq
    by (simp add: page_path_def pml4_idx_def pdpt_idx_def pd_idx_def pt_idx_def PAGE_SIZE_def)
qed

text \<open>The lower half of the address space, and the \<open>i\<close>-th page of a range.\<close>

definition user_slots :: "nat set" where
  "user_slots = {..<256}"

definition nth_page :: "nat \<Rightarrow> nat \<Rightarrow> nat list" where
  "nth_page virt i = page_path (virt + i * PAGE_SIZE)"

definition page_run :: "nat \<Rightarrow> nat \<Rightarrow> nat list set" where
  "page_run virt n = nth_page virt ` {..<n}"

lemma user_slot: "va < 2 ^ 47 \<Longrightarrow> pml4_idx va \<in> user_slots"
  by (simp add: user_slots_def pml4_idx_def div_less_iff_less_mult)

lemma nth_page_inj:
  assumes "virt + i * PAGE_SIZE < 2 ^ 48" "virt + j * PAGE_SIZE < 2 ^ 48"
  shows "nth_page virt i = nth_page virt j \<longleftrightarrow> i = j"
proof
  assume "nth_page virt i = nth_page virt j"
  then have "(virt + i * PAGE_SIZE) div PAGE_SIZE = (virt + j * PAGE_SIZE) div PAGE_SIZE"
    using page_path_inj[OF assms] by (simp add: nth_page_def)
  then show "i = j" by (simp add: PAGE_SIZE_def)
qed simp

lemma nth_page_in_run:
  assumes "virt + n * PAGE_SIZE \<le> 2 ^ 47" "virt + i * PAGE_SIZE < 2 ^ 47"
  shows "nth_page virt i \<in> page_run virt n \<longleftrightarrow> i < n"
proof
  assume "nth_page virt i \<in> page_run virt n"
  then obtain j where j: "j < n" "nth_page virt i = nth_page virt j" by (auto simp: page_run_def)
  have "virt + j * PAGE_SIZE < 2 ^ 48" using assms(1) j(1) by (simp add: PAGE_SIZE_def)
  then show "i < n" using nth_page_inj[of virt i j] assms(2) j by simp
qed (auto simp: page_run_def)

lemma page_run_Suc: "page_run virt (Suc n) = insert (nth_page virt n) (page_run virt n)"
  by (auto simp: page_run_def less_Suc_eq)

lemma page_run_0 [simp]: "page_run virt 0 = {}"
  by (simp add: page_run_def)

lemma nth_page_ok: "virt + i * PAGE_SIZE < 2 ^ 47 \<Longrightarrow> path_ok user_slots (nth_page virt i)"
  unfolding nth_page_def by (intro page_path_ok user_slot)

lemma length_nth_page [simp]: "length (nth_page virt i) = 4"
  by (simp add: nth_page_def)

text \<open>The address arithmetic of the loops over a user range never overflows.\<close>

lemma user_range_arith:
  assumes "virt + i * PAGE_SIZE < 2 ^ 47"
  shows "u64_mul i PAGE_SIZE = Some (i * PAGE_SIZE)" "u64_add virt (i * PAGE_SIZE) = Some (virt + i * PAGE_SIZE)"
  using assms by (simp_all add: u64_mul_def u64_add_def)

lemma user_range_step: "virt + (i + Suc k) * PAGE_SIZE \<le> 2 ^ 47 \<Longrightarrow> virt + i * PAGE_SIZE < 2 ^ 47"
  by (simp add: PAGE_SIZE_def)

section \<open>Stealing, restoring and installing a range\<close>

text \<open>\<open>taken\<close>: the state after the first \<open>i\<close> pages of the range have been removed from \<open>s0\<close>.
  \<open>restored\<close>: of \<open>i\<close> pages removed, the first \<open>j\<close> are mapped again.\<close>

definition taken :: "x86_api \<Rightarrow> nat \<Rightarrow> nat \<Rightarrow> nat \<Rightarrow> vm_state \<Rightarrow> vm_state \<Rightarrow> bool" where
  "taken P root virt i s0 s \<longleftrightarrow> as_inv P user_slots s root \<and> tables_grow P user_slots root s0 s
     \<and> frames s = frames s0
     \<and> (\<forall>r. path_ok user_slots r \<longrightarrow> length r = 4 \<longrightarrow>
          pte P (ram s) root r = (if r \<in> page_run virt i then 0 else pte P (ram s0) root r))
     \<and> (\<forall>j < i. present P (pte P (ram s0) root (nth_page virt j)))"

definition restored :: "x86_api \<Rightarrow> nat \<Rightarrow> nat \<Rightarrow> nat \<Rightarrow> nat \<Rightarrow> vm_state \<Rightarrow> vm_state \<Rightarrow> bool" where
  "restored P root virt j i s0 s \<longleftrightarrow> as_inv P user_slots s root \<and> tables_grow P user_slots root s0 s
     \<and> free_set (frames s) \<subseteq> free_set (frames s0)
     \<and> (\<forall>k < i. present P (pte P (ram s0) root (nth_page virt k)))
     \<and> (\<forall>r. path_ok user_slots r \<longrightarrow> length r = 4 \<longrightarrow>
          (if r \<in> page_run virt j then present P (pte P (ram s) root r)
             \<and> pt_addr P (pte P (ram s) root r) = pt_addr P (pte P (ram s0) root r)
             \<and> pt_flags P (pte P (ram s) root r) = leaf P MF_USER_RW_NX
           else pte P (ram s) root r = (if r \<in> page_run virt i then 0 else pte P (ram s0) root r)))"

definition taken_frames :: "x86_api \<Rightarrow> nat \<Rightarrow> nat \<Rightarrow> nat \<Rightarrow> vm_state \<Rightarrow> nat list" where
  "taken_frames P root virt i s0 = map (\<lambda>j. pt_addr P (pte P (ram s0) root (nth_page virt j))) [0..<i]"

context page_entries
begin

lemma present_table:
  "present P (pte P m root q) \<Longrightarrow> table_at P m root (take 3 q) \<noteq> None"
  by (auto simp: pte_def split: option.splits)

lemma rollback_step:
  assumes st: "restored P (pml4_phys as) virt j i s0 s" and j: "j < i"
    and v: "virt mod PAGE_SIZE = 0" "virt + i * PAGE_SIZE \<le> 2 ^ 47"
    and pr: "\<forall>j < i. present P (pte P (ram s0) (pml4_phys as) (nth_page virt j))"
  shows "\<exists>s'. map_4k P as (virt + j * PAGE_SIZE) (pt_addr P (pte P (ram s0) (pml4_phys as) (nth_page virt j)))
      MF_USER_RW_NX s = Some (Inr (), s') \<and> restored P (pml4_phys as) virt (Suc j) i s0 s'"
proof -
  let ?root = "pml4_phys as" and ?q = "nth_page virt j"
  let ?phys = "pt_addr P (pte P (ram s0) ?root ?q)"
  have lt: "virt + j * PAGE_SIZE < 2 ^ 47" using v(2) j by (simp add: PAGE_SIZE_def)
  have al: "(virt + j * PAGE_SIZE) mod PAGE_SIZE = 0" using v(1) by (simp add: PAGE_SIZE_def mod_add_eq)
  have inv: "as_inv P user_slots s ?root" and grow: "tables_grow P user_slots ?root s0 s"
    using st by (auto simp: restored_def)
  have q: "path_ok user_slots ?q" "length ?q = 4" using nth_page_ok[OF lt] by simp_all
  have qi: "?q \<in> page_run virt i" using j by (auto simp: page_run_def)
  have qj: "?q \<notin> page_run virt j" using nth_page_in_run[of virt j j] v(2) lt j by (simp add: PAGE_SIZE_def)
  have absent: "\<not> present P (pte P (ram s) ?root ?q)"
  proof -
    have "if ?q \<in> page_run virt j then present P (pte P (ram s) ?root ?q)
             \<and> pt_addr P (pte P (ram s) ?root ?q) = ?phys
             \<and> pt_flags P (pte P (ram s) ?root ?q) = leaf P MF_USER_RW_NX
           else pte P (ram s) ?root ?q = (if ?q \<in> page_run virt i then 0 else pte P (ram s0) ?root ?q)"
      using st q unfolding restored_def by blast
    then have "pte P (ram s) ?root ?q = 0" using qi qj by simp
    then show ?thesis by simp
  qed
  have tab: "table_at P (ram s) ?root (take 3 ?q) \<noteq> None"
  proof -
    obtain t where "table_at P (ram s0) ?root (take 3 ?q) = Some t"
      using present_table pr j by blast
    then show ?thesis using grow take3_path[OF q] by (auto simp: tables_grow_def)
  qed
  from map_4k_outcome[OF inv al user_slot[OF lt] addr_aligned(1,2)] obtain out where
    out: "map_4k P as (virt + j * PAGE_SIZE) ?phys MF_USER_RW_NX s = Some out"
      "map_outcome P user_slots ?root ?q ?phys MF_USER_RW_NX s out"
    unfolding nth_page_def by blast
  have "fst out = Inr ()"
    using out(2) absent tab by (auto simp: map_outcome_def split: sum.splits)
  then obtain s' where s': "out = (Inr (), s')" by (cases out) auto
  from out(2)[unfolded s'] obtain e where e: "as_inv P user_slots s' ?root" "tables_grow P user_slots ?root s s'"
    "pt_addr P e = ?phys" "pt_flags P e = leaf P MF_USER_RW_NX" "free_set (frames s') \<subseteq> free_set (frames s)"
    "\<forall>r. path_ok user_slots r \<longrightarrow> length r = 4 \<longrightarrow> pte P (ram s') ?root r = (if r = ?q then e else pte P (ram s) ?root r)"
    by (auto simp: map_outcome_def vm_frame_def)
  have pe: "present P e" using e(4) leaf_flags(2) by (simp add: present_def)
  have "free_set (frames s) \<subseteq> free_set (frames s0)" using st by (simp add: restored_def)
  then have "tables_grow P user_slots ?root s0 s'" using tables_grow_trans[OF grow e(2)] by simp
  then have "restored P ?root virt (Suc j) i s0 s'"
    using st e pe unfolding restored_def page_run_Suc by auto
  then show ?thesis using out(1) s' by blast
qed

end

context page_entries
begin

lemma rollback_loop:
  assumes "restored P (pml4_phys as) virt j i s0 s" and "j \<le> i"
    and v: "virt mod PAGE_SIZE = 0" "virt + i * PAGE_SIZE \<le> 2 ^ 47"
    and pr: "\<forall>j < i. present P (pte P (ram s0) (pml4_phys as) (nth_page virt j))"
  shows "\<exists>s'. steal_rollback P as virt j (drop j (taken_frames P (pml4_phys as) virt i s0)) s = Some s'
     \<and> restored P (pml4_phys as) virt i i s0 s'"
  using assms(1,2)
proof (induction "i - j" arbitrary: j s)
  case 0
  then show ?case by (simp add: taken_frames_def)
next
  case (Suc d)
  then have j: "j < i" by simp
  have lt: "virt + j * PAGE_SIZE < 2 ^ 47" using v(2) j by (simp add: PAGE_SIZE_def)
  from rollback_step[OF Suc.prems(1) j v pr] obtain s' where s':
    "map_4k P as (virt + j * PAGE_SIZE) (pt_addr P (pte P (ram s0) (pml4_phys as) (nth_page virt j)))
      MF_USER_RW_NX s = Some (Inr (), s')" "restored P (pml4_phys as) virt (Suc j) i s0 s'" by blast
  have "drop j (taken_frames P (pml4_phys as) virt i s0) =
      pt_addr P (pte P (ram s0) (pml4_phys as) (nth_page virt j))
        # drop (Suc j) (taken_frames P (pml4_phys as) virt i s0)"
    using j by (simp add: taken_frames_def Cons_nth_drop_Suc[symmetric])
  then show ?case
    using Suc.hyps(1)[of "Suc j" s'] Suc.hyps(2) s' j user_range_arith[OF lt] by simp
qed

lemma taken_step:
  assumes st: "taken P (pml4_phys as) virt i s0 s" and v: "virt + i * PAGE_SIZE < 2 ^ 47"
  shows "\<exists>s'. unmap_4k P as (virt + i * PAGE_SIZE) s =
      Some (let e = pte P (ram s0) (pml4_phys as) (nth_page virt i) in
        if present P e then Some (pt_addr P e) else None, s')
    \<and> (present P (pte P (ram s0) (pml4_phys as) (nth_page virt i)) \<longrightarrow> taken P (pml4_phys as) virt (Suc i) s0 s')
    \<and> (\<not> present P (pte P (ram s0) (pml4_phys as) (nth_page virt i)) \<longrightarrow> taken P (pml4_phys as) virt i s0 s')"
proof -
  let ?root = "pml4_phys as" and ?q = "nth_page virt i"
  have inv: "as_inv P user_slots s ?root" using st by (simp add: taken_def)
  have q: "path_ok user_slots ?q" "length ?q = 4" using nth_page_ok[OF v] by simp_all
  have can: "va_canonical P (virt + i * PAGE_SIZE)" using v laws by (simp add: x86_laws_def)
  have "?q \<notin> page_run virt i" using nth_page_in_run[of virt i i] v by simp
  then have qe: "pte P (ram s) ?root ?q = pte P (ram s0) ?root ?q" using st q by (simp add: taken_def)
  from unmap_4k_outcome[OF inv user_slot[OF v] can, folded nth_page_def] obtain s' where s':
    "unmap_4k P as (virt + i * PAGE_SIZE) s = Some (let e = pte P (ram s) ?root ?q in
        if present P e then Some (pt_addr P e) else None, s')"
    "as_inv P user_slots s' ?root" "tables_grow P user_slots ?root s s'" "frames s' = frames s"
    "\<forall>r. path_ok user_slots r \<longrightarrow> length r = 4 \<longrightarrow> pte P (ram s') ?root r =
      (if r = ?q \<and> present P (pte P (ram s) ?root r) then 0 else pte P (ram s) ?root r)"
    by blast
  have grow: "tables_grow P user_slots ?root s0 s'"
    using tables_grow_trans[OF _ s'(3)] st by (simp add: taken_def)
  show ?thesis
  proof (cases "present P (pte P (ram s0) ?root ?q)")
    case True
    then have "taken P ?root virt (Suc i) s0 s'"
      using st s' grow qe unfolding taken_def page_run_Suc by (auto simp: less_Suc_eq)
    then show ?thesis using True s'(1) qe by simp
  next
    case False
    then have "taken P ?root virt i s0 s'"
      using st s' grow qe unfolding taken_def by auto
    then show ?thesis using False s'(1) qe by simp
  qed
qed

lemma taken_restored:
  "taken P root virt i s0 s \<Longrightarrow> restored P root virt 0 i s0 s"
  by (simp add: taken_def restored_def)

lemma steal_loop_outcome:
  assumes "taken P (pml4_phys as) virt i s0 s" and v: "virt mod PAGE_SIZE = 0" "virt + (i + k) * PAGE_SIZE \<le> 2 ^ 47"
  shows "(\<exists>s'. steal_loop P as virt i k (taken_frames P (pml4_phys as) virt i s0) s =
        Some (Inr (taken_frames P (pml4_phys as) virt (i + k) s0), s') \<and> taken P (pml4_phys as) virt (i + k) s0 s')
    \<or> (\<exists>h s'. h < i + k \<and> \<not> present P (pte P (ram s0) (pml4_phys as) (nth_page virt h))
        \<and> steal_loop P as virt i k (taken_frames P (pml4_phys as) virt i s0) s = Some (Inl AlreadyMapped, s')
        \<and> restored P (pml4_phys as) virt h h s0 s')"
  using assms
proof (induction k arbitrary: i s)
  case 0
  then show ?case by auto
next
  case (Suc k)
  let ?root = "pml4_phys as"
  have lt: "virt + i * PAGE_SIZE < 2 ^ 47" by (rule user_range_step[OF Suc.prems(3)])
  from taken_step[OF Suc.prems(1) lt] obtain s' where s':
    "unmap_4k P as (virt + i * PAGE_SIZE) s = Some (let e = pte P (ram s0) ?root (nth_page virt i) in
        if present P e then Some (pt_addr P e) else None, s')"
    "present P (pte P (ram s0) ?root (nth_page virt i)) \<longrightarrow> taken P ?root virt (Suc i) s0 s'"
    "\<not> present P (pte P (ram s0) ?root (nth_page virt i)) \<longrightarrow> taken P ?root virt i s0 s'" by blast
  show ?case
  proof (cases "present P (pte P (ram s0) ?root (nth_page virt i))")
    case True
    then have "steal_loop P as virt i (Suc k) (taken_frames P ?root virt i s0) s =
        steal_loop P as virt (Suc i) k (taken_frames P ?root virt (Suc i) s0) s'"
      using s'(1) user_range_arith[OF lt] by (simp add: taken_frames_def Let_def)
    then show ?thesis using Suc.IH[of "Suc i" s'] True s'(2) Suc.prems(2,3) by simp
  next
    case False
    then have tk: "taken P ?root virt i s0 s'" using s'(3) by simp
    have bound: "virt + i * PAGE_SIZE \<le> 2 ^ 47" using lt by simp
    have pr: "\<forall>j < i. present P (pte P (ram s0) ?root (nth_page virt j))" using tk by (simp add: taken_def)
    from rollback_loop[OF taken_restored[OF tk] _ Suc.prems(2) bound pr] obtain s'' where
      "steal_rollback P as virt 0 (taken_frames P ?root virt i s0) s' = Some s''"
      "restored P ?root virt i i s0 s''" by auto
    then have "steal_loop P as virt i (Suc k) (taken_frames P ?root virt i s0) s = Some (Inl AlreadyMapped, s'')"
      using s'(1) False user_range_arith[OF lt] by simp
    then show ?thesis using False \<open>restored P ?root virt i i s0 s''\<close>
      by (intro disjI2 exI[of _ i] exI[of _ s'']) (simp del: steal_loop.simps)
  qed
qed

end

text \<open>\<open>installed\<close>: the first \<open>i\<close> frames of the list are mapped at the start of the range.\<close>

definition installed :: "x86_api \<Rightarrow> nat \<Rightarrow> nat \<Rightarrow> nat list \<Rightarrow> nat \<Rightarrow> vm_state \<Rightarrow> vm_state \<Rightarrow> bool" where
  "installed P root virt fs i s0 s \<longleftrightarrow> as_inv P user_slots s root
     \<and> (\<forall>j < i. present P (pte P (ram s) root (nth_page virt j))
          \<and> pt_addr P (pte P (ram s) root (nth_page virt j)) = fs ! j
          \<and> pt_flags P (pte P (ram s) root (nth_page virt j)) = leaf P MF_USER_RW_NX)
     \<and> (\<forall>r. path_ok user_slots r \<longrightarrow> length r = 4 \<longrightarrow> r \<notin> page_run virt i \<longrightarrow>
          pte P (ram s) root r = pte P (ram s0) root r)"

context page_entries
begin

lemma install_step:
  assumes st: "installed P (pml4_phys as) virt fs i s0 s" and i: "i < length fs"
    and v: "virt mod PAGE_SIZE = 0" "virt + length fs * PAGE_SIZE \<le> 2 ^ 47"
    and f: "fs ! i mod PAGE_SIZE = 0" "fs ! i < 2 ^ 52"
  shows "\<exists>r s'. map_4k P as (virt + i * PAGE_SIZE) (fs ! i) MF_USER_RW_NX s = Some (r, s')
     \<and> (case r of
          Inr _ \<Rightarrow> installed P (pml4_phys as) virt fs (Suc i) s0 s'
        | Inl e \<Rightarrow> installed P (pml4_phys as) virt fs i s0 s'
            \<and> (e = AlreadyMapped \<and> present P (pte P (ram s0) (pml4_phys as) (nth_page virt i))
               \<or> e = OutOfMemory \<and> free_set (frames s') = {}))"
proof -
  let ?root = "pml4_phys as" and ?q = "nth_page virt i"
  have lt: "virt + i * PAGE_SIZE < 2 ^ 47" using v(2) i by (simp add: PAGE_SIZE_def)
  have al: "(virt + i * PAGE_SIZE) mod PAGE_SIZE = 0" using v(1) by (simp add: PAGE_SIZE_def mod_add_eq)
  have inv: "as_inv P user_slots s ?root" using st by (simp add: installed_def)
  have q: "path_ok user_slots ?q" "length ?q = 4" using nth_page_ok[OF lt] by simp_all
  have fresh: "?q \<notin> page_run virt i" using nth_page_in_run[of virt i i] lt by simp
  have ne: "nth_page virt j \<noteq> ?q" if "j < i" for j
    using fresh that unfolding page_run_def by (metis imageI lessThan_iff)
  have ok: "path_ok user_slots (nth_page virt j)" if "j < i" for j
    using that lt by (intro nth_page_ok) (simp add: PAGE_SIZE_def)
  from map_4k_outcome[OF inv al user_slot[OF lt] f, of MF_USER_RW_NX] obtain r s' where
    out: "map_4k P as (virt + i * PAGE_SIZE) (fs ! i) MF_USER_RW_NX s = Some (r, s')"
      "map_outcome P user_slots ?root ?q (fs ! i) MF_USER_RW_NX s (r, s')"
    unfolding nth_page_def by auto
  show ?thesis
  proof (cases r)
    case (Inl e)
    then have "\<forall>r. path_ok user_slots r \<longrightarrow> length r = 4 \<longrightarrow> pte P (ram s') ?root r = pte P (ram s) ?root r"
      "as_inv P user_slots s' ?root" using out(2) by (simp_all add: map_outcome_def)
    then have "installed P ?root virt fs i s0 s'" using st ok by (simp add: installed_def)
    moreover have "pte P (ram s) ?root ?q = pte P (ram s0) ?root ?q" using st q fresh by (simp add: installed_def)
    ultimately show ?thesis using out Inl by (auto simp: map_outcome_def)
  next
    case (Inr u)
    then obtain e where e: "as_inv P user_slots s' ?root" "pt_addr P e = fs ! i" "pt_flags P e = leaf P MF_USER_RW_NX"
      "\<forall>r. path_ok user_slots r \<longrightarrow> length r = 4 \<longrightarrow> pte P (ram s') ?root r = (if r = ?q then e else pte P (ram s) ?root r)"
      using out(2) by (auto simp: map_outcome_def)
    have "present P e" using e(3) leaf_flags(2) by (simp add: present_def)
    then have "installed P ?root virt fs (Suc i) s0 s'"
      using st e ok ne q unfolding installed_def page_run_Suc by (auto simp: less_Suc_eq)
    then show ?thesis using out(1) Inr by auto
  qed
qed

lemma install_loop_outcome:
  assumes "installed P (pml4_phys as) virt fs i s0 s" and "i \<le> length fs"
    and v: "virt mod PAGE_SIZE = 0" "virt + length fs * PAGE_SIZE \<le> 2 ^ 47"
    and f: "\<forall>f \<in> set fs. f mod PAGE_SIZE = 0 \<and> f < 2 ^ 52"
  shows "\<exists>r s'. install_loop P as virt i (drop i fs) s = Some (r, s')
     \<and> (case r of
          Inr _ \<Rightarrow> installed P (pml4_phys as) virt fs (length fs) s0 s'
        | Inl e \<Rightarrow> \<exists>j < length fs. installed P (pml4_phys as) virt fs j s0 s'
            \<and> (e = AlreadyMapped \<and> present P (pte P (ram s0) (pml4_phys as) (nth_page virt j))
               \<or> e = OutOfMemory \<and> free_set (frames s') = {}))"
  using assms(1,2)
proof (induction "length fs - i" arbitrary: i s)
  case 0
  then show ?case by simp
next
  case (Suc d)
  then have i: "i < length fs" by simp
  have lt: "virt + i * PAGE_SIZE < 2 ^ 47" using v(2) i by (simp add: PAGE_SIZE_def)
  have fi: "fs ! i mod PAGE_SIZE = 0" "fs ! i < 2 ^ 52" using f i by auto
  have dr: "drop i fs = fs ! i # drop (Suc i) fs" using i by (simp add: Cons_nth_drop_Suc)
  from install_step[OF Suc.prems(1) i v fi] obtain r s' where rs:
    "map_4k P as (virt + i * PAGE_SIZE) (fs ! i) MF_USER_RW_NX s = Some (r, s')"
    "case r of
          Inr _ \<Rightarrow> installed P (pml4_phys as) virt fs (Suc i) s0 s'
        | Inl e \<Rightarrow> installed P (pml4_phys as) virt fs i s0 s'
            \<and> (e = AlreadyMapped \<and> present P (pte P (ram s0) (pml4_phys as) (nth_page virt i))
               \<or> e = OutOfMemory \<and> free_set (frames s') = {})" by blast
  show ?case
  proof (cases r)
    case (Inl e)
    then show ?thesis using rs i user_range_arith[OF lt] dr by auto
  next
    case (Inr u)
    then show ?thesis
      using rs i user_range_arith[OF lt] dr Suc.hyps(1)[of "Suc i" s'] Suc.hyps(2) by simp
  qed
qed

end

section \<open>The search for a free range\<close>

definition ipc_page :: "nat \<Rightarrow> nat" where
  "ipc_page k = USER_IPC_BASE + k * PAGE_SIZE"

definition IPC_PAGES :: nat where
  "IPC_PAGES = 262144"

definition free_ipc_pages :: "x86_api \<Rightarrow> AddressSpace \<Rightarrow> memory \<Rightarrow> nat set" where
  "free_ipc_pages P as m = {k. \<not> present P (pte P m (pml4_phys as) (page_path (ipc_page k)))}"

lemma ipc_page_simps:
  "ipc_page k + PAGE_SIZE = ipc_page (k + 1)"
  "ipc_page k + n * PAGE_SIZE \<le> USER_IPC_END \<longleftrightarrow> k + n \<le> IPC_PAGES"
  by (auto simp: ipc_page_def IPC_PAGES_def USER_IPC_BASE_def USER_IPC_END_def PAGE_SIZE_def)

context page_entries
begin

lemma find_vm_loop_spec:
  assumes inv: "as_inv P user_slots s (pml4_phys as)" and small: "pages \<le> 2 ^ 40"
    and F: "F = free_ipc_pages P as (ram s)"
  shows "run_inv F pages k run \<Longrightarrow> (0 < run \<longrightarrow> run_start = Some (ipc_page (k - run))) \<Longrightarrow> k \<le> IPC_PAGES + 1 \<Longrightarrow>
    find_vm_loop P as (ram s) pages run_start run (ipc_page k) =
      Some (if \<exists>t. t + 2 * pages \<le> IPC_PAGES + 1 \<and> is_run F t pages
            then Some (ipc_page (LEAST t. is_run F t pages)) else None)"
proof (induction "IPC_PAGES + 2 - k" arbitrary: k run run_start rule: less_induct)
  case less
  have ar: "u64_mul pages PAGE_SIZE = Some (pages * PAGE_SIZE)"
    "u64_add (ipc_page k) (pages * PAGE_SIZE) = Some (ipc_page k + pages * PAGE_SIZE)"
    using small less.prems(3)
    by (simp_all add: u64_mul_def u64_add_def ipc_page_def USER_IPC_BASE_def IPC_PAGES_def PAGE_SIZE_def)
  show ?case
  proof (cases "k + pages \<le> IPC_PAGES")
    case False
    have "\<not> is_run F t pages" if "t + 2 * pages \<le> IPC_PAGES + 1" for t
      using less.prems(1) that False by (simp add: run_inv_def)
    then show ?thesis using False ar
      by (subst find_vm_loop.simps) (simp add: ipc_page_simps)
  next
    case True
    have "ipc_page k < 2 ^ 47"
      using less.prems(3) by (simp add: ipc_page_def USER_IPC_BASE_def IPC_PAGES_def PAGE_SIZE_def)
    then have mapped: "is_mapped_4k P as (ram s) (ipc_page k) = Some (k \<notin> F)"
      using is_mapped_4k_eq[OF inv user_slot] F by (simp add: free_ipc_pages_def)
    have smaller: "IPC_PAGES + 2 - (k + 1) < IPC_PAGES + 2 - k" "k + 1 \<le> IPC_PAGES + 1"
      using True less.prems(1) by (auto simp: run_inv_def)
    have head: "find_vm_loop P as (ram s) pages run_start run (ipc_page k) =
        (if k \<notin> F then find_vm_loop P as (ram s) pages None 0 (ipc_page (k + 1))
         else if run + 1 = pages then Some (if run = 0 then Some (ipc_page k) else run_start)
         else find_vm_loop P as (ram s) pages (if run = 0 then Some (ipc_page k) else run_start) (run + 1) (ipc_page (k + 1)))"
      using True ar mapped
      by (subst find_vm_loop.simps) (simp add: ipc_page_simps Let_def)
    show ?thesis
    proof (cases "k \<in> F")
      case False
      then show ?thesis
        using head less.hyps[OF smaller(1) run_inv_used[OF less.prems(1) False] _ smaller(2)] by simp
    next
      case free: True
      have st: "(if run = 0 then Some (ipc_page k) else run_start) = Some (ipc_page (k - run))"
        using less.prems(2) by simp
      show ?thesis
      proof (cases "run + 1 = pages")
        case eq: True
        note d = run_inv_done[OF less.prems(1) free eq]
        have "run \<le> k" using less.prems(1) by (simp add: run_inv_def)
        then have "k - run + 2 * pages \<le> IPC_PAGES + 1" using True eq by simp
        moreover have "(LEAST t. is_run F t pages) = k - run"
          using d by (intro Least_equality) (auto simp: not_less[symmetric])
        ultimately show ?thesis using head free eq st d(1) by auto
      next
        case ne: False
        then show ?thesis
          using head free st less.hyps[OF smaller(1) run_inv_free[OF less.prems(1) free ne] _ smaller(2)] by simp
      qed
    qed
  qed
qed

end

section \<open>Properties\<close>

lemma entry_get_zero [simp]: "entry_get (\<lambda>_. 0) t i = 0"
proof -
  have "mem_read (\<lambda>_. 0) (t + 8 * i) 8 = replicate 8 0" by (simp add: mem_read_def map_replicate_const)
  then show ?thesis using le_to_word_zeros[of 8] by (simp only: entry_get_def)
qed

text \<open>An address space with an empty root table in a reserved frame.\<close>

definition demo_vm :: vm_state where
  "demo_vm = \<lparr>frames = demo_frames, ram = (\<lambda>_. 0), KERNEL_AS = None, MMIO_NEXT = MMIO_VA_BASE\<rparr>"

definition demo_as :: AddressSpace where
  "demo_as = \<lparr>pml4_phys = 0x3000\<rparr>"

lemma demo_walk: "table_at x86_impl (\<lambda>_. 0) root p = Some t \<longleftrightarrow> p = [] \<and> t = root"
  using page_entries.not_present_zero[OF page_entries.intro[OF x86_impl_laws]]
  by (cases p) (auto simp: Let_def)

lemma demo_as_inv: "as_inv x86_impl D demo_vm (pml4_phys demo_as)"
proof (rule as_invI)
  show "frame_inv (frames demo_vm)" "search_ends (frames demo_vm)" "TOTAL_FRAMES (frames demo_vm) \<le> 2 ^ 35"
    by code_simp+
  have "table_frame demo_vm (pml4_phys demo_as)" by code_simp
  then show "\<And>p t. table_at x86_impl (ram demo_vm) (pml4_phys demo_as) p = Some t \<Longrightarrow> table_frame demo_vm t"
    by (simp add: demo_vm_def demo_walk)
qed (simp add: demo_vm_def demo_walk)

text \<open>
  C5: Mapping a page. On a well-formed address space \<open>map_4k\<close> always returns. Misaligned arguments
  are refused with nothing changed. On success the page was not mapped before, every address of the
  page now translates to the frame at the same offset, and no other address of the covered part of the
  space translates differently. An error leaves every translation as it was and says why: the page
  is already mapped, or no frame is left for a page table (fewer than three were free). The tables stay well-formed in all cases.
\<close>

theorem map_4k_correct:
  assumes "x86_laws P" and "as_inv P D s (pml4_phys as)" and "pml4_idx virt \<in> D" and "phys < 2 ^ 52"
  shows "case map_4k P as virt phys flags s of
      None \<Rightarrow> False
    | Some (Inl Misaligned, s') \<Rightarrow> (virt mod PAGE_SIZE \<noteq> 0 \<or> phys mod PAGE_SIZE \<noteq> 0) \<and> s' = s
    | Some (Inl NoVirtualSpace, s') \<Rightarrow> False
    | Some (Inl AlreadyMapped, s') \<Rightarrow> phys_for_virt P as (ram s) virt \<noteq> Some None
        \<and> as_inv P D s' (pml4_phys as)
        \<and> (\<forall>va. pml4_idx va \<in> D \<longrightarrow> phys_for_virt P as (ram s') va = phys_for_virt P as (ram s) va)
    | Some (Inl OutOfMemory, s') \<Rightarrow> card (free_set (frames s)) < 3 \<and> free_set (frames s') = {}
        \<and> as_inv P D s' (pml4_phys as)
        \<and> (\<forall>va. pml4_idx va \<in> D \<longrightarrow> phys_for_virt P as (ram s') va = phys_for_virt P as (ram s) va)
    | Some (Inr _, s') \<Rightarrow> phys_for_virt P as (ram s) virt = Some None
        \<and> as_inv P D s' (pml4_phys as)
        \<and> (\<forall>va. pml4_idx va \<in> D \<longrightarrow> phys_for_virt P as (ram s') va =
              (if page_path va = page_path virt then Some (Some (phys + va mod PAGE_SIZE))
               else phys_for_virt P as (ram s) va))"
proof (cases "virt mod PAGE_SIZE = 0 \<and> phys mod PAGE_SIZE = 0")
  case False
  then show ?thesis by (auto simp: map_4k_def)
next
  case True
  have pe: "page_entries P" using assms(1) by (rule page_entries.intro)
  note eq = page_entries.phys_for_virt_eq[OF pe]
  from page_entries.map_4k_outcome[OF pe assms(2) _ assms(3) _ assms(4), of flags] True
  obtain r s' where out: "map_4k P as virt phys flags s = Some (r, s')"
    "map_outcome P D (pml4_phys as) (page_path virt) phys flags s (r, s')" by auto
  have inv': "as_inv P D s' (pml4_phys as)" using out(2) by (simp add: map_outcome_def)
  show ?thesis
  proof (cases r)
    case (Inl e)
    then have same: "phys_for_virt P as (ram s') va = phys_for_virt P as (ram s) va" if "pml4_idx va \<in> D" for va
      using eq[OF assms(2) that] eq[OF inv' that] out(2) page_path_ok[OF that] by (simp add: map_outcome_def)
    show ?thesis
      using Inl out inv' same eq[OF assms(2,3)] by (auto simp: map_outcome_def Let_def)
  next
    case (Inr u)
    then obtain e where e: "\<not> present P (pte P (ram s) (pml4_phys as) (page_path virt))"
      "pt_addr P e = phys" "pt_flags P e = leaf P flags"
      "\<forall>r. path_ok D r \<longrightarrow> length r = 4 \<longrightarrow> pte P (ram s') (pml4_phys as) r =
         (if r = page_path virt then e else pte P (ram s) (pml4_phys as) r)"
      using out(2) by (auto simp: map_outcome_def)
    have "present P e" using e(3) page_entries.leaf_flags(2)[OF pe] by (simp add: present_def)
    then have "phys_for_virt P as (ram s') va =
        (if page_path va = page_path virt then Some (Some (phys + va mod PAGE_SIZE))
         else phys_for_virt P as (ram s) va)" if "pml4_idx va \<in> D" for va
      using eq[OF assms(2) that] eq[OF inv' that] e page_path_ok[OF that] by (simp add: Let_def)
    then show ?thesis using Inr out(1) inv' eq[OF assms(2,3)] e(1) by (simp add: Let_def)
  qed
qed

theorem map_4k_correct_witness:
  "\<exists>s'. map_4k x86_impl demo_as 0x400000 0x5000 MF_WRITE demo_vm = Some (Inr (), s')
     \<and> phys_for_virt x86_impl demo_as (ram s') 0x400123 = Some (Some 0x5123)"
proof -
  have slot: "pml4_idx 0x400000 \<in> user_slots" "pml4_idx 0x400123 \<in> user_slots" by (simp_all add: user_slot)
  have path: "page_path 0x400123 = page_path 0x400000" by (rule page_path_cong) (simp add: PAGE_SIZE_def)
  have four: "card (free_set (frames demo_vm)) = 4" by code_simp
  have unmapped: "phys_for_virt x86_impl demo_as (ram demo_vm) 0x400000 = Some None"
    using x86.phys_for_virt_eq[OF demo_as_inv slot(1)] demo_walk[of "pml4_phys demo_as"]
    by (simp add: pte_def demo_vm_def page_path_def split: option.splits)
  show ?thesis
    using map_4k_correct[OF x86_impl_laws demo_as_inv slot(1), of "0x5000" MF_WRITE] slot(2) path four unmapped
    by (auto simp: PAGE_SIZE_def split: option.splits prod.splits sum.splits MapError.splits)
qed

lemma page_run_iff:
  assumes "virt mod PAGE_SIZE = 0" "virt + n * PAGE_SIZE \<le> 2 ^ 47" "va < 2 ^ 47"
  shows "page_path va \<in> page_run virt n \<longleftrightarrow> virt \<le> va \<and> va < virt + n * PAGE_SIZE"
proof -
  obtain v where v: "virt = v * 4096" using assms(1) by (auto simp: PAGE_SIZE_def mod_eq_0_iff_dvd dvd_def)
  have "page_path va \<in> page_run virt n \<longleftrightarrow> (\<exists>j < n. va div 4096 = v + j)"
  proof
    assume "page_path va \<in> page_run virt n"
    then obtain j where j: "j < n" "page_path va = page_path (virt + j * PAGE_SIZE)"
      by (auto simp: page_run_def nth_page_def)
    have "virt + j * PAGE_SIZE < 2 ^ 48" using assms(2) j(1) by (simp add: PAGE_SIZE_def)
    then have "va div PAGE_SIZE = (virt + j * PAGE_SIZE) div PAGE_SIZE"
      using page_path_inj[of va "virt + j * PAGE_SIZE"] j(2) assms(3) by simp
    then show "\<exists>j < n. va div 4096 = v + j" using j(1) v by (auto simp: PAGE_SIZE_def)
  next
    assume "\<exists>j < n. va div 4096 = v + j"
    then obtain j where "j < n" "va div PAGE_SIZE = (virt + j * PAGE_SIZE) div PAGE_SIZE"
      using v by (auto simp: PAGE_SIZE_def)
    then show "page_path va \<in> page_run virt n"
      using page_path_cong[of va "virt + j * PAGE_SIZE"] by (auto simp: page_run_def nth_page_def)
  qed
  also have "\<dots> \<longleftrightarrow> v \<le> va div 4096 \<and> va div 4096 < v + n"
    by (auto intro: exI[of _ "va div 4096 - v"])
  also have "\<dots> \<longleftrightarrow> virt \<le> va \<and> va < virt + n * PAGE_SIZE"
    using less_eq_div_iff_mult_less_eq[of 4096 v va] div_less_iff_less_mult[of 4096 va "v + n"]
    by (simp add: v PAGE_SIZE_def add_mult_distrib)
  finally show ?thesis .
qed

lemma nth_page_phys:
  assumes "page_entries P" "as_inv P user_slots s (pml4_phys as)" "virt mod PAGE_SIZE = 0" "virt + i * PAGE_SIZE < 2 ^ 47"
  shows "phys_for_virt P as (ram s) (virt + i * PAGE_SIZE) =
    (let e = pte P (ram s) (pml4_phys as) (nth_page virt i) in
     if present P e then Some (Some (pt_addr P e)) else Some None)"
  using page_entries.phys_for_virt_eq[OF assms(1,2) user_slot[OF assms(4)]] assms(3)
  by (simp add: nth_page_def Let_def PAGE_SIZE_def mod_add_eq)

text \<open>
  C6: Stealing a range of user pages (the zero-copy half of message passing). When every page of the
  range is mapped, \<open>steal_pages\<close> returns their frames in order, unmaps exactly that range and
  leaves every other user translation alone. When there is a hole it reports an error, and every
  user address translates as before: the pages taken so far have been put back.
\<close>

theorem steal_pages_correct:
  assumes "x86_laws P" and "as_inv P user_slots s (pml4_phys as)"
    and "virt mod PAGE_SIZE = 0" and "virt + pages * PAGE_SIZE \<le> 2 ^ 47"
  shows "\<exists>r s'. steal_pages P as virt pages s = Some (r, s') \<and> as_inv P user_slots s' (pml4_phys as)
    \<and> (case r of
         Inr fs \<Rightarrow> length fs = pages
           \<and> (\<forall>i < pages. phys_for_virt P as (ram s) (virt + i * PAGE_SIZE) = Some (Some (fs ! i)))
           \<and> (\<forall>va < 2 ^ 47. phys_for_virt P as (ram s') va =
                (if virt \<le> va \<and> va < virt + pages * PAGE_SIZE then Some None
                 else phys_for_virt P as (ram s) va))
       | Inl e \<Rightarrow> e = AlreadyMapped
           \<and> (\<exists>i < pages. phys_for_virt P as (ram s) (virt + i * PAGE_SIZE) = Some None)
           \<and> (\<forall>va < 2 ^ 47. phys_for_virt P as (ram s') va = phys_for_virt P as (ram s) va))"
proof -
  let ?root = "pml4_phys as"
  have pe: "page_entries P" using assms(1) by (rule page_entries.intro)
  note eq = page_entries.phys_for_virt_eq[OF pe]
  have lt: "virt + i * PAGE_SIZE < 2 ^ 47" if "i < pages" for i using that assms(4) by (simp add: PAGE_SIZE_def)
  have tk: "taken P ?root virt 0 s s" using assms(2) by (simp add: taken_def)
  have def: "steal_pages P as virt pages s = steal_loop P as virt 0 pages (taken_frames P ?root virt 0 s) s"
    using assms(3) by (simp add: steal_pages_def taken_frames_def)
  have "virt + (0 + pages) * PAGE_SIZE \<le> 2 ^ 47" using assms(4) by simp
  from page_entries.steal_loop_outcome[OF pe tk assms(3) this, simplified] consider
    (all) s' where "steal_loop P as virt 0 pages (taken_frames P ?root virt 0 s) s =
        Some (Inr (taken_frames P ?root virt pages s), s')" "taken P ?root virt pages s s'"
  | (hole) h s' where "h < pages" "\<not> present P (pte P (ram s) ?root (nth_page virt h))"
      "steal_loop P as virt 0 pages (taken_frames P ?root virt 0 s) s = Some (Inl AlreadyMapped, s')"
      "restored P ?root virt h h s s'" by blast
  then show ?thesis
  proof cases
    case all
    have inv': "as_inv P user_slots s' ?root" using all(2) by (simp add: taken_def)
    have "phys_for_virt P as (ram s) (virt + i * PAGE_SIZE) = Some (Some (taken_frames P ?root virt pages s ! i))"
      if "i < pages" for i
      using nth_page_phys[OF pe assms(2,3) lt[OF that]] all(2) that
      by (simp add: taken_def taken_frames_def Let_def)
    moreover have "phys_for_virt P as (ram s') va =
        (if virt \<le> va \<and> va < virt + pages * PAGE_SIZE then Some None else phys_for_virt P as (ram s) va)"
      if "va < 2 ^ 47" for va
      using eq[OF assms(2) user_slot[OF that]] eq[OF inv' user_slot[OF that]] all(2)
        page_path_ok[OF user_slot[OF that]] page_run_iff[OF assms(3,4) that]
        page_entries.not_present_zero[OF pe]
      by (auto simp: taken_def Let_def)
    ultimately show ?thesis using def all(1) inv' by (simp add: taken_frames_def)
  next
    case hole
    have inv': "as_inv P user_slots s' ?root" using hole(4) by (simp add: restored_def)
    have pr: "present P (pte P (ram s) ?root (nth_page virt j))" if "j < h" for j
      using hole(4) that by (simp add: restored_def)
    have "phys_for_virt P as (ram s') va = phys_for_virt P as (ram s) va" if "va < 2 ^ 47" for va
    proof -
      have "path_ok user_slots (page_path va)" "length (page_path va) = 4"
        using page_path_ok[OF user_slot[OF that]] by simp_all
      then show ?thesis
        using eq[OF assms(2) user_slot[OF that]] eq[OF inv' user_slot[OF that]] hole(4) pr
        unfolding restored_def by (cases "page_path va \<in> page_run virt h") (auto simp: Let_def page_run_def)
    qed
    moreover have "phys_for_virt P as (ram s) (virt + h * PAGE_SIZE) = Some None"
      using nth_page_phys[OF pe assms(2,3) lt[OF hole(1)]] hole(2) by (simp add: Let_def)
    ultimately show ?thesis using def hole(1,3) inv' by auto
  qed
qed

lemma demo_mapped:
  obtains s1 where "map_4k x86_impl demo_as 0x400000 0x5000 MF_WRITE demo_vm = Some (Inr (), s1)"
    "as_inv x86_impl user_slots s1 (pml4_phys demo_as)"
    "phys_for_virt x86_impl demo_as (ram s1) 0x400000 = Some (Some 0x5000)"
proof -
  have slot: "pml4_idx 0x400000 \<in> user_slots" by (simp add: user_slot)
  let ?q = "page_path 0x400000"
  have zero: "pte x86_impl (ram demo_vm) (pml4_phys demo_as) ?q = 0"
    using demo_walk[of "pml4_phys demo_as" "take 3 ?q"]
    by (auto simp: pte_def demo_vm_def page_path_def split: option.splits)
  have four: "card (free_set (frames demo_vm)) = 4" by code_simp
  from x86.map_4k_outcome[OF demo_as_inv _ slot, of "0x5000" MF_WRITE] obtain r s1 where
    out: "map_4k x86_impl demo_as 0x400000 0x5000 MF_WRITE demo_vm = Some (r, s1)"
      "map_outcome x86_impl user_slots (pml4_phys demo_as) ?q 0x5000 MF_WRITE demo_vm (r, s1)"
    by (auto simp: PAGE_SIZE_def)
  then have inv: "as_inv x86_impl user_slots s1 (pml4_phys demo_as)" by (simp add: map_outcome_def)
  have r: "r = Inr ()" using out(2) zero four by (cases r) (auto simp: map_outcome_def)
  then obtain e where e: "pt_addr x86_impl e = 0x5000" "pt_flags x86_impl e = leaf x86_impl MF_WRITE"
    "pte x86_impl (ram s1) (pml4_phys demo_as) ?q = e"
    using out(2) page_path_ok[OF slot] by (auto simp: map_outcome_def)
  have "present x86_impl e" using e(2) x86.leaf_flags(2) by (simp add: present_def)
  then have "phys_for_virt x86_impl demo_as (ram s1) 0x400000 = Some (Some 0x5000)"
    using x86.phys_for_virt_eq[OF inv slot] e(1,3) by (simp add: Let_def PAGE_SIZE_def)
  then show ?thesis using that out(1) r inv by blast
qed

theorem steal_pages_correct_witness:
  "\<exists>s s'. phys_for_virt x86_impl demo_as (ram s) 0x400000 = Some (Some 0x5000)
     \<and> steal_pages x86_impl demo_as 0x400000 1 s = Some (Inr [0x5000], s')
     \<and> phys_for_virt x86_impl demo_as (ram s') 0x400000 = Some None"
proof -
  obtain s1 where s1: "as_inv x86_impl user_slots s1 (pml4_phys demo_as)"
    "phys_for_virt x86_impl demo_as (ram s1) 0x400000 = Some (Some 0x5000)"
    by (rule demo_mapped)
  have arith: "0x400000 mod PAGE_SIZE = 0" "0x400000 + 1 * PAGE_SIZE \<le> 2 ^ 47" by (simp_all add: PAGE_SIZE_def)
  from steal_pages_correct[OF x86_impl_laws s1(1) arith] obtain r s' where
    out: "steal_pages x86_impl demo_as 0x400000 1 s1 = Some (r, s')"
    "case r of
         Inr fs \<Rightarrow> length fs = 1
           \<and> (\<forall>i < 1. phys_for_virt x86_impl demo_as (ram s1) (0x400000 + i * PAGE_SIZE) = Some (Some (fs ! i)))
           \<and> (\<forall>va < 2 ^ 47. phys_for_virt x86_impl demo_as (ram s') va =
                (if 0x400000 \<le> va \<and> va < 0x400000 + 1 * PAGE_SIZE then Some None
                 else phys_for_virt x86_impl demo_as (ram s1) va))
       | Inl e \<Rightarrow> e = AlreadyMapped
           \<and> (\<exists>i < 1. phys_for_virt x86_impl demo_as (ram s1) (0x400000 + i * PAGE_SIZE) = Some None)
           \<and> (\<forall>va < 2 ^ 47. phys_for_virt x86_impl demo_as (ram s') va = phys_for_virt x86_impl demo_as (ram s1) va)"
    by blast
  then obtain f where "r = Inr [f]" "f = 0x5000"
    using s1(2) by (cases r) (auto simp: length_Suc_conv)
  then show ?thesis using out s1(2) by (auto simp: PAGE_SIZE_def)
qed

text \<open>
  C8: \<open>find_user_vm_range\<close> always returns. It finds the lowest run of \<open>pages\<close> unmapped pages of the
  IPC window, but only if that run ends at least \<open>pages - 1\<close> pages before the end of the window;
  otherwise it reports that there is none.
\<close>

theorem find_user_vm_range_correct:
  assumes "x86_laws P" and "as_inv P user_slots s (pml4_phys as)" and "0 < pages" and "pages \<le> 2 ^ 40"
  shows "find_user_vm_range P as (ram s) pages =
    Some (if \<exists>t. t + 2 * pages \<le> IPC_PAGES + 1 \<and> is_run (free_ipc_pages P as (ram s)) t pages
          then Some (ipc_page (LEAST t. is_run (free_ipc_pages P as (ram s)) t pages)) else None)"
  using page_entries.find_vm_loop_spec[OF page_entries.intro[OF assms(1)] assms(2,4) refl run_inv_start[OF assms(3)],
      of None]
  by (simp add: find_user_vm_range_def ipc_page_def)

theorem find_user_vm_range_correct_witness:
  "find_user_vm_range x86_impl demo_as (ram demo_vm) 16 = Some (Some USER_IPC_BASE)
   \<and> find_user_vm_range x86_impl demo_as (ram demo_vm) 131073 = Some None"
proof -
  have "pte x86_impl (ram demo_vm) (pml4_phys demo_as) (page_path va) = 0" for va
    using demo_walk[of "pml4_phys demo_as" "take 3 (page_path va)"]
    by (auto simp: pte_def demo_vm_def page_path_def split: option.splits)
  then have all: "is_run (free_ipc_pages x86_impl demo_as (ram demo_vm)) t n" for t n
    by (simp add: is_run_def free_ipc_pages_def)
  have "(LEAST t. is_run (free_ipc_pages x86_impl demo_as (ram demo_vm)) t 16) = 0"
    by (intro Least_equality) (simp_all add: all)
  then show ?thesis
    using find_user_vm_range_correct[OF x86_impl_laws demo_as_inv, of 16]
      find_user_vm_range_correct[OF x86_impl_laws demo_as_inv, of 131073] all
    by (simp add: IPC_PAGES_def ipc_page_def) presburger
qed

section \<open>Isolation\<close>

lemma entry_get_agree:
  assumes "t mod PAGE_SIZE = 0" "j < 512" "\<And>a. a div PAGE_SIZE = t div PAGE_SIZE \<Longrightarrow> m' a = m a"
  shows "entry_get m' t j = entry_get m t j"
proof -
  have "m' (t + 8 * j + i) = m (t + 8 * j + i)" if "i < 8" for i
    using that assms(2) by (intro assms(3) same_page[OF assms(1)]) auto
  then have "mem_read m' (t + 8 * j) 8 = mem_read m (t + 8 * j) 8" by (simp add: mem_read_def)
  then show ?thesis by (simp add: entry_get_def)
qed

text \<open>An address space whose tables lie outside the frames an operation touches is not affected.\<close>

lemma unaffected_space:
  assumes inv: "as_inv P E s root" and fr: "vm_frame s s' F" and fi: "frame_inv (frames s')" "search_ends (frames s')"
    and out: "\<forall>p t. path_ok E p \<longrightarrow> length p \<le> 3 \<longrightarrow> table_at P (ram s) root p = Some t \<longrightarrow> t div PAGE_SIZE \<notin> F"
  shows "as_inv P E s' root"
    and "\<And>q. path_ok E q \<Longrightarrow> length q = 4 \<Longrightarrow> pte P (ram s') root q = pte P (ram s) root q"
    and "\<And>q. path_ok E q \<Longrightarrow> length q \<le> 4 \<Longrightarrow> table_at P (ram s') root q = table_at P (ram s) root q"
proof -
  have same: "entry_get (ram s') t j = entry_get (ram s) t j"
    if "path_ok E p" "length p \<le> 3" "table_at P (ram s) root p = Some t" "j < 512" for p t j
    using as_inv_table[OF inv that(1-3)] out that fr
    by (intro entry_get_agree) (auto simp: vm_frame_def table_frame_def)
  have walk: "table_at P (ram s') root q = table_at P (ram s) root q" if q: "path_ok E q" "length q \<le> 4" for q
  proof (rule table_at_agree)
    fix r j u t assume sp: "q = r @ j # u" and tr: "table_at P (ram s) root r = Some t"
    have "path_ok E r" "length r \<le> 3" "j < 512" using q sp path_ok_appendD[of E r] by (auto simp: path_ok_def)
    then show "same_link P (entry_get (ram s) t j) (entry_get (ram s') t j)" using same tr by simp
  qed
  show "table_at P (ram s') root q = table_at P (ram s) root q" if "path_ok E q" "length q \<le> 4" for q by (rule walk[OF that])
  show "as_inv P E s' root"
    using inv walk fr fi by (intro as_invI) (auto simp: as_inv_def vm_frame_def table_frame_def subset_iff)
  show "pte P (ram s') root q = pte P (ram s) root q" if q: "path_ok E q" "length q = 4" for q
    using walk[of "take 3 q"] take3_path[OF q] same[of "take 3 q" _ "q ! 3"]
    by (simp add: pte_def split: option.splits)
qed

definition spaces_apart :: "x86_api \<Rightarrow> nat set \<Rightarrow> nat set \<Rightarrow> vm_state \<Rightarrow> nat \<Rightarrow> nat \<Rightarrow> bool" where
  "spaces_apart P D E s root root' \<longleftrightarrow> (\<forall>p q t. path_ok D p \<longrightarrow> path_ok E q \<longrightarrow> length p \<le> 3 \<longrightarrow> length q \<le> 3 \<longrightarrow>
     table_at P (ram s) root p = Some t \<longrightarrow> table_at P (ram s) root' q \<noteq> Some t)"

text \<open>
  C7: Address spaces are isolated. If the page tables of two address spaces are separate frames, then
  mapping a page in one of them, whatever the result, changes no translation of the other and keeps
  its tables well-formed.
\<close>

theorem map_4k_isolates:
  assumes "x86_laws P" and "as_inv P D s (pml4_phys as)" and "as_inv P E s (pml4_phys bs)"
    and "spaces_apart P D E s (pml4_phys as) (pml4_phys bs)" and "pml4_idx virt \<in> D" and "phys < 2 ^ 52"
    and "map_4k P as virt phys flags s = Some (r, s')"
  shows "as_inv P E s' (pml4_phys bs)
    \<and> (\<forall>va. pml4_idx va \<in> E \<longrightarrow> phys_for_virt P bs (ram s') va = phys_for_virt P bs (ram s) va)"
proof (cases "virt mod PAGE_SIZE = 0 \<and> phys mod PAGE_SIZE = 0")
  case False
  then have "s' = s" using assms(7) by (auto simp: map_4k_def)
  then show ?thesis using assms(3) by simp
next
  case True
  have pe: "page_entries P" using assms(1) by (rule page_entries.intro)
  let ?F = "path_frames P (ram s) (pml4_phys as) (page_path virt) \<union> free_set (frames s)"
  from True have "virt mod PAGE_SIZE = 0" "phys mod PAGE_SIZE = 0" by simp_all
  from page_entries.map_4k_outcome[OF pe assms(2) this(1) assms(5) this(2) assms(6), of flags] assms(7)
  have out: "map_outcome P D (pml4_phys as) (page_path virt) phys flags s (r, s')" by simp
  then have fr: "vm_frame s s' ?F" and "as_inv P D s' (pml4_phys as)" by (simp_all add: map_outcome_def)
  then have fi: "frame_inv (frames s')" "search_ends (frames s')" by (simp_all add: as_inv_frames)
  have clear: "t div PAGE_SIZE \<notin> ?F"
    if q: "path_ok E q" "length q \<le> 3" "table_at P (ram s) (pml4_phys bs) q = Some t" for q t
  proof
    assume "t div PAGE_SIZE \<in> ?F"
    moreover have tf: "table_frame s t" by (rule as_inv_table[OF assms(3) q])
    ultimately have "t div PAGE_SIZE \<in> path_frames P (ram s) (pml4_phys as) (page_path virt)"
      by (auto simp: table_frame_def)
    then obtain u n where u: "n \<le> 3" "table_at P (ram s) (pml4_phys as) (take n (page_path virt)) = Some u"
      "t div PAGE_SIZE = u div PAGE_SIZE" unfolding path_frames_def by blast
    have ok: "path_ok D (take n (page_path virt))" "length (take n (page_path virt)) \<le> 3"
      using path_ok_take[OF page_path_ok[OF assms(5)]] u(1) by simp_all
    have "table_frame s u" by (rule as_inv_table[OF assms(2) ok u(2)])
    then have "u = t" using tf page_eq_iff[THEN iffD1, OF _ _ u(3)[symmetric]] by (simp add: table_frame_def)
    then have "table_at P (ram s) (pml4_phys bs) q \<noteq> Some u"
      using assms(4) ok q(1,2) u(2) by (simp add: spaces_apart_def)
    then show False using q(3) \<open>u = t\<close> by simp
  qed
  from clear have "\<forall>p t. path_ok E p \<longrightarrow> length p \<le> 3 \<longrightarrow> table_at P (ram s) (pml4_phys bs) p = Some t \<longrightarrow>
      t div PAGE_SIZE \<notin> ?F" by blast
  note un = unaffected_space[OF assms(3) fr fi this]
  have "phys_for_virt P bs (ram s') va = phys_for_virt P bs (ram s) va" if "pml4_idx va \<in> E" for va
    using page_entries.phys_for_virt_eq[OF pe assms(3) that] page_entries.phys_for_virt_eq[OF pe un(1) that]
      un(2)[OF page_path_ok[OF that]] by simp
  then show ?thesis using un(1) by blast
qed

definition demo_as2 :: AddressSpace where
  "demo_as2 = \<lparr>pml4_phys = 0x4000\<rparr>"

lemma demo_as2_inv: "as_inv x86_impl D demo_vm (pml4_phys demo_as2)"
proof (rule as_invI)
  show "frame_inv (frames demo_vm)" "search_ends (frames demo_vm)" "TOTAL_FRAMES (frames demo_vm) \<le> 2 ^ 35"
    by code_simp+
  have "table_frame demo_vm (pml4_phys demo_as2)" by code_simp
  then show "\<And>p t. table_at x86_impl (ram demo_vm) (pml4_phys demo_as2) p = Some t \<Longrightarrow> table_frame demo_vm t"
    by (simp add: demo_vm_def demo_walk)
qed (simp add: demo_vm_def demo_walk)

theorem map_4k_isolates_witness:
  "\<exists>s'. map_4k x86_impl demo_as 0x400000 0x5000 MF_WRITE demo_vm = Some (Inr (), s')
     \<and> phys_for_virt x86_impl demo_as2 (ram s') 0x400000 = phys_for_virt x86_impl demo_as2 (ram demo_vm) 0x400000"
proof -
  obtain s1 where s1: "map_4k x86_impl demo_as 0x400000 0x5000 MF_WRITE demo_vm = Some (Inr (), s1)"
    by (rule demo_mapped)
  have slot: "pml4_idx 0x400000 \<in> user_slots" by (simp add: user_slot)
  have "spaces_apart x86_impl user_slots user_slots demo_vm (pml4_phys demo_as) (pml4_phys demo_as2)"
    by (auto simp: spaces_apart_def demo_vm_def demo_walk demo_as_def demo_as2_def)
  from map_4k_isolates[OF x86_impl_laws demo_as_inv demo_as2_inv this slot _ s1] s1 slot show ?thesis by simp
qed

end
