(* ===== verification/Sched_Correct.thy ===== *)
theory Sched_Correct
  imports Sched Vmm_Correct
begin

text \<open>
  Properties of the scheduler. The kernel's use of it is a step relation: timer ticks, yields,
  blocking, waking, exits, kills and spawns, with the guards their callers establish (the idle task,
  task 1, only halts, so it never blocks or exits; \<open>sys_kill\<close> turns a kill of the caller into an
  exit). The invariant says that no task is in two places, that no live task is lost, and that
  the recorded states agree with the queues; it holds in every reachable state.
\<close>

section \<open>Reading the updates\<close>

lemma set_state_fields [simp]:
  "RUN_QUEUE (set_state t st s) = RUN_QUEUE s" "CURRENT (set_state t st s) = CURRENT s"
  "TASKS (set_state t st s) = TASKS s" "WAIT_QUEUES (set_state t st s) = WAIT_QUEUES s"
  "NEXT_ID (set_state t st s) = NEXT_ID s" "TICKS (set_state t st s) = TICKS s"
  by (simp_all add: set_state_def)

lemma set_exit_code_fields [simp]:
  "RUN_QUEUE (set_exit_code t c s) = RUN_QUEUE s" "CURRENT (set_exit_code t c s) = CURRENT s"
  "TASKS (set_exit_code t c s) = TASKS s" "WAIT_QUEUES (set_exit_code t c s) = WAIT_QUEUES s"
  "NEXT_ID (set_exit_code t c s) = NEXT_ID s"
  by (simp_all add: set_exit_code_def)

lemma enqueue_fields [simp]:
  "RUN_QUEUE (enqueue t s) = RUN_QUEUE s @ [t]" "CURRENT (enqueue t s) = CURRENT s"
  "TASKS (enqueue t s) = TASKS s" "WAIT_QUEUES (enqueue t s) = WAIT_QUEUES s"
  "NEXT_ID (enqueue t s) = NEXT_ID s" "objs (enqueue t s) = objs s"
  by (simp_all add: enqueue_def)

lemma state_set_state:
  "state (set_state t st s) u = (if u = t \<and> objs s t \<noteq> None then st else state s u)"
  by (auto simp: state_def task_of_def set_state_def split: option.splits)

lemma state_set_exit_code [simp]: "state (set_exit_code t c s) u = state s u"
  by (auto simp: state_def task_of_def set_exit_code_def split: option.splits)

lemma objs_set_state: "objs (set_state t st s) u =
    (if u = t then map_option (\<lambda>x. x\<lparr>t_state := st\<rparr>) (objs s t) else objs s u)"
  by (simp add: set_state_def)

lemma objs_set_exit_code: "objs (set_exit_code t c s) u =
    (if u = t then map_option (\<lambda>x. x\<lparr>t_exit_code := c\<rparr>) (objs s t) else objs s u)"
  by (simp add: set_exit_code_def)

lemma state_cong: "objs s u = objs s' u \<Longrightarrow> state s u = state s' u"
  by (simp add: state_def task_of_def)

lemma state_update_simps [simp]:
  "state (s\<lparr>RUN_QUEUE := q\<rparr>) u = state s u" "state (s\<lparr>CURRENT := c\<rparr>) u = state s u"
  "state (s\<lparr>WAIT_QUEUES := w\<rparr>) u = state s u" "state (s\<lparr>NEED_RESCHED := b\<rparr>) u = state s u"
  "state (s\<lparr>TICKS := n\<rparr>) u = state s u" "state (s\<lparr>cr3 := v\<rparr>) u = state s u"
  "state (s\<lparr>kernel_stack := v\<rparr>) u = state s u" "state (s\<lparr>TASKS := ts\<rparr>) u = state s u"
  "state (enqueue t s) u = state s u" "state (register t s) u = state s u"
  by (auto intro: state_cong simp: enqueue_def register_def)

text \<open>\<open>static s s'\<close>: what no operation but a spawn changes.\<close>

definition fixed_part :: "Task \<Rightarrow> nat \<times> AddressSpace option \<times> TaskId" where
  "fixed_part x = (t_kstack x, t_addr_space x, t_parent x)"

lemma fixed_part_simps [simp]:
  "fixed_part (x\<lparr>t_state := st\<rparr>) = fixed_part x" "fixed_part (x\<lparr>t_exit_code := c\<rparr>) = fixed_part x"
  by (simp_all add: fixed_part_def)

definition static :: "sched \<Rightarrow> sched \<Rightarrow> bool" where
  "static s s' \<longleftrightarrow> TASKS s' = TASKS s \<and> NEXT_ID s' = NEXT_ID s
     \<and> (\<forall>t. map_option fixed_part (objs s' t) = map_option fixed_part (objs s t))"

lemma static_refl [simp]: "static s s"
  by (simp add: static_def)

lemma static_trans: "static s s' \<Longrightarrow> static s' s'' \<Longrightarrow> static s s''"
  by (simp add: static_def)

lemma static_updates [simp]:
  "static s (set_state t st s)" "static s (set_exit_code t c s)" "static s (enqueue t s)"
  "static s (s\<lparr>RUN_QUEUE := q\<rparr>)" "static s (s\<lparr>CURRENT := c'\<rparr>)" "static s (s\<lparr>WAIT_QUEUES := w\<rparr>)"
  "static s (s\<lparr>NEED_RESCHED := b\<rparr>)" "static s (s\<lparr>TICKS := n\<rparr>)" "static s (s\<lparr>cr3 := v\<rparr>)" "static s (s\<lparr>kernel_stack := v\<rparr>)"
  by (simp_all add: static_def set_state_def set_exit_code_def enqueue_def option.map_comp comp_def)

section \<open>Waking\<close>

definition wake_list :: "TaskId list \<Rightarrow> sched \<Rightarrow> sched" where
  "wake_list ts s = foldl (\<lambda>s t. enqueue t (set_state t Ready s)) s ts"

lemma wake_list_props:
  "RUN_QUEUE (wake_list ts s) = RUN_QUEUE s @ ts" "CURRENT (wake_list ts s) = CURRENT s"
  "TASKS (wake_list ts s) = TASKS s" "WAIT_QUEUES (wake_list ts s) = WAIT_QUEUES s"
  "NEXT_ID (wake_list ts s) = NEXT_ID s"
  "state (wake_list ts s) u = (if u \<in> set ts \<and> objs s u \<noteq> None then Ready else state s u)"
  "static s (wake_list ts s)"
proof -
  have all: "RUN_QUEUE (wake_list ts s) = RUN_QUEUE s @ ts \<and> CURRENT (wake_list ts s) = CURRENT s
      \<and> TASKS (wake_list ts s) = TASKS s \<and> WAIT_QUEUES (wake_list ts s) = WAIT_QUEUES s
      \<and> NEXT_ID (wake_list ts s) = NEXT_ID s
      \<and> state (wake_list ts s) u = (if u \<in> set ts \<and> objs s u \<noteq> None then Ready else state s u)
      \<and> static s (wake_list ts s)"
  proof (induction ts arbitrary: s)
    case Nil
    then show ?case by (simp add: wake_list_def)
  next
    case (Cons t ts)
    let ?s = "enqueue t (set_state t Ready s)"
    have step: "wake_list (t # ts) s = wake_list ts ?s" by (simp add: wake_list_def)
    have st: "static s ?s" using static_trans[OF static_updates(1) static_updates(3)] .
    have "objs ?s u \<noteq> None \<longleftrightarrow> objs s u \<noteq> None" by (simp add: objs_set_state)
    then show ?case
      using Cons.IH[of ?s] static_trans[OF st] by (auto simp: step state_set_state)
  qed
  then show "RUN_QUEUE (wake_list ts s) = RUN_QUEUE s @ ts" "CURRENT (wake_list ts s) = CURRENT s"
    "TASKS (wake_list ts s) = TASKS s" "WAIT_QUEUES (wake_list ts s) = WAIT_QUEUES s"
    "NEXT_ID (wake_list ts s) = NEXT_ID s"
    "state (wake_list ts s) u = (if u \<in> set ts \<and> objs s u \<noteq> None then Ready else state s u)"
    "static s (wake_list ts s)" by blast+
qed

lemma wake_all_eq:
  assumes "drain (\<lambda>w. fst w = key) (WAIT_QUEUES s) 0 [] = (woken, wq)"
  shows "wake_all key s = wake_list (map snd woken) (s\<lparr>WAIT_QUEUES := wq\<rparr>)"
  using assms by (simp add: wake_all_def wake_list_def foldl_map)

section \<open>Invariant\<close>

definition IDLE :: TaskId where
  "IDLE = 1"

definition runnable :: "x86_api \<Rightarrow> Task \<Rightarrow> bool" where
  "runnable P x \<longleftrightarrow> (\<exists>top. kstack_top x = Some top \<and> va_canonical P top)
     \<and> (case t_addr_space x of None \<Rightarrow> True | Some as \<Rightarrow> activate as \<noteq> None)"

definition cur_list :: "sched \<Rightarrow> TaskId list" where
  "cur_list s = (case CURRENT s of None \<Rightarrow> [] | Some t \<Rightarrow> [t])"

text \<open>Where a task can be: running, ready, or parked.\<close>

definition placed :: "sched \<Rightarrow> TaskId list" where
  "placed s = cur_list s @ RUN_QUEUE s @ map snd (WAIT_QUEUES s)"

definition sched_inv :: "x86_api \<Rightarrow> sched \<Rightarrow> bool" where
  "sched_inv P s \<longleftrightarrow> distinct (placed s) \<and> set (placed s) \<subseteq> set (TASKS s)
   \<and> (\<forall>t \<in> set (TASKS s). t < NEXT_ID s \<and> (\<exists>x. objs s t = Some x \<and> runnable P x))
   \<and> (\<forall>t \<in> set (RUN_QUEUE s). state s t = Ready)
   \<and> (\<forall>t \<in> set (cur_list s). state s t = Ready \<or> state s t = Running)
   \<and> (\<forall>w \<in> set (WAIT_QUEUES s). state s (snd w) = Blocked \<or> state s (snd w) = Dead)
   \<and> (\<forall>t \<in> set (TASKS s). state s t \<noteq> Dead \<longrightarrow> t \<in> set (placed s))
   \<and> IDLE \<in> set (cur_list s @ RUN_QUEUE s)"

lemma runnable_fixed: "fixed_part x = fixed_part y \<Longrightarrow> runnable P x = runnable P y"
  by (simp add: runnable_def fixed_part_def kstack_top_def)

lemma static_runnable:
  assumes "static s s'" and "objs s t = Some x" and "runnable P x"
  shows "\<exists>x'. objs s' t = Some x' \<and> runnable P x'"
proof -
  have "map_option fixed_part (objs s' t) = Some (fixed_part x)" using assms(1,2) by (simp add: static_def)
  then obtain x' where "objs s' t = Some x'" "fixed_part x' = fixed_part x" by auto
  then show ?thesis using assms(3) runnable_fixed by blast
qed

text \<open>The part of the invariant about the task objects survives every update of the queues.\<close>

lemma static_tasks:
  assumes "static s s'"
    and "\<forall>t \<in> set (TASKS s). t < NEXT_ID s \<and> (\<exists>x. objs s t = Some x \<and> runnable P x)"
  shows "\<forall>t \<in> set (TASKS s'). t < NEXT_ID s' \<and> (\<exists>x. objs s' t = Some x \<and> runnable P x)"
  using assms static_runnable[OF assms(1)] by (metis static_def)

lemma prepare_to_run_ok:
  assumes "objs s t = Some x" and "runnable P x"
  obtains s' where "prepare_to_run P t s = Some s'" "RUN_QUEUE s' = RUN_QUEUE s" "CURRENT s' = CURRENT s"
    "TASKS s' = TASKS s" "WAIT_QUEUES s' = WAIT_QUEUES s" "objs s' = objs s" "NEXT_ID s' = NEXT_ID s"
    "TICKS s' = TICKS s"
proof -
  have "task_of s t = x" using assms(1) by (simp add: task_of_def)
  then obtain v s1 where "s1 = (case t_addr_space x of None \<Rightarrow> s | Some as \<Rightarrow> s\<lparr>cr3 := v\<rparr>)"
      "(case t_addr_space x of None \<Rightarrow> Some s | Some as \<Rightarrow> do { v \<leftarrow> activate as; Some (s\<lparr>cr3 := v\<rparr>) }) = Some s1"
    using assms(2) by (cases "t_addr_space x") (auto simp: runnable_def)
  then show ?thesis
    using that[of "s1\<lparr>kernel_stack := the (kstack_top x)\<rparr>"] assms(2) \<open>task_of s t = x\<close>
    by (auto simp: prepare_to_run_def runnable_def split: option.splits)
qed

lemma state_of_objs: "objs s' = objs s \<Longrightarrow> state s' t = state s t"
  by (simp add: state_def task_of_def)

text \<open>One scheduling decision with a non-empty queue.\<close>

lemma schedule_step:
  assumes q: "RUN_QUEUE s = nx # q" and x: "objs s nx = Some x" "runnable P x"
    and ne: "CURRENT s \<noteq> Some nx"
    and po: "\<forall>p. CURRENT s = Some p \<longrightarrow> objs s p \<noteq> None"
  defines "live \<equiv> filter (\<lambda>p. state s p = Ready \<or> state s p = Running) (cur_list s)"
  shows "\<exists>s'. schedule P s = Some (Some (CURRENT s, nx), s') \<and> RUN_QUEUE s' = q @ live
    \<and> CURRENT s' = Some nx \<and> WAIT_QUEUES s' = WAIT_QUEUES s \<and> static s s' \<and> TICKS s' = TICKS s
    \<and> (\<forall>t. state s' t = (if t = nx then Running else if t \<in> set live then Ready else state s t))"
proof -
  define s1 where "s1 = s\<lparr>NEED_RESCHED := False, RUN_QUEUE := q\<rparr>"
  define s2 where "s2 = (case CURRENT s of None \<Rightarrow> s1
     | Some p \<Rightarrow> if state s1 p = Ready \<or> state s1 p = Running then enqueue p (set_state p Ready s1) else s1)"
  define s3 where "s3 = (set_state nx Running s2)\<lparr>CURRENT := Some nx\<rparr>"
  have s1: "RUN_QUEUE s1 = q" "CURRENT s1 = CURRENT s" "WAIT_QUEUES s1 = WAIT_QUEUES s" "static s s1"
    "objs s1 = objs s" "TICKS s1 = TICKS s"
    unfolding s1_def using static_trans[OF static_updates(7)[of s False] static_updates(4)] by simp_all
  have st1: "state s1 t = state s t" for t by (rule state_of_objs[OF s1(5)])
  have s2: "RUN_QUEUE s2 = q @ live" "CURRENT s2 = CURRENT s" "WAIT_QUEUES s2 = WAIT_QUEUES s" "static s s2"
    "TICKS s2 = TICKS s"
    using s1 st1 static_trans[OF s1(4)] static_trans[OF static_updates(1) static_updates(3)]
    by (auto simp: s2_def live_def cur_list_def enqueue_def split: option.splits)
  have st2: "state s2 t = (if t \<in> set live then Ready else state s t)" for t
    using st1 po s1(5) by (auto simp: s2_def live_def cur_list_def state_set_state split: option.splits)
  have o2: "objs s2 nx \<noteq> None" using static_runnable[OF s2(4) x] by auto
  have s3: "RUN_QUEUE s3 = q @ live" "CURRENT s3 = Some nx" "WAIT_QUEUES s3 = WAIT_QUEUES s" "static s s3" "TICKS s3 = TICKS s"
    using s2 static_trans[OF s2(4)] static_trans[OF static_updates(1) static_updates(5)] by (auto simp: s3_def)
  have st3: "state s3 t = (if t = nx then Running else if t \<in> set live then Ready else state s t)" for t
    using st2 o2 by (simp add: s3_def state_set_state)
  from static_runnable[OF s3(4) x] obtain x' where x': "objs s3 nx = Some x'" "runnable P x'" by blast
  from prepare_to_run_ok[OF x'] obtain s4 where s4: "prepare_to_run P nx s3 = Some s4" "RUN_QUEUE s4 = RUN_QUEUE s3"
    "CURRENT s4 = CURRENT s3" "TASKS s4 = TASKS s3" "WAIT_QUEUES s4 = WAIT_QUEUES s3" "objs s4 = objs s3"
    "NEXT_ID s4 = NEXT_ID s3" "TICKS s4 = TICKS s3" .
  have "schedule P s = Some (Some (CURRENT s, nx), s4)"
    using q ne s4(1) by (cases "CURRENT s") (simp_all add: schedule_def Let_def s3_def s2_def s1_def cong: if_cong)
  moreover have "static s s4" using s3(4) s4 by (simp add: static_def)
  ultimately show ?thesis using s3 s4 st3 state_of_objs[OF s4(6)] by auto
qed

section \<open>Every operation keeps the invariant\<close>

lemma sched_inv_cur: "sched_inv P s \<Longrightarrow> CURRENT s = Some t \<Longrightarrow> t \<in> set (TASKS s) \<and> (state s t = Ready \<or> state s t = Running)"
  by (auto simp: sched_inv_def placed_def cur_list_def)

lemma sched_inv_objs: "sched_inv P s \<Longrightarrow> t \<in> set (TASKS s) \<Longrightarrow> \<exists>x. objs s t = Some x \<and> runnable P x"
  by (simp add: sched_inv_def)

lemma sched_inv_static:
  "sched_inv P s \<Longrightarrow> static s s' \<Longrightarrow> \<forall>t \<in> set (TASKS s'). t < NEXT_ID s' \<and> (\<exists>x. objs s' t = Some x \<and> runnable P x)"
  using static_tasks[of s s' P] by (simp add: sched_inv_def)

lemma sched_inv_waiter:
  assumes "sched_inv P s" and "w \<in> set (WAIT_QUEUES s)"
  shows "snd w \<notin> set (cur_list s)" "snd w \<notin> set (RUN_QUEUE s)" "snd w \<in> set (TASKS s)"
proof -
  have "snd w \<in> set (map snd (WAIT_QUEUES s))" using assms(2) by simp
  moreover have "distinct (cur_list s @ RUN_QUEUE s @ map snd (WAIT_QUEUES s))"
    "set (cur_list s @ RUN_QUEUE s @ map snd (WAIT_QUEUES s)) \<subseteq> set (TASKS s)"
    using assms(1) by (simp_all only: sched_inv_def placed_def)
  ultimately show "snd w \<notin> set (cur_list s)" "snd w \<notin> set (RUN_QUEUE s)" "snd w \<in> set (TASKS s)"
    unfolding distinct_append set_append by blast+
qed

lemma schedule_inv:
  assumes inv: "sched_inv P s"
  shows "\<exists>sw s'. schedule P s = Some (sw, s') \<and> sched_inv P s' \<and> mset (placed s') = mset (placed s)
    \<and> (RUN_QUEUE s = [] \<longrightarrow> CURRENT s' = CURRENT s)
    \<and> (\<forall>nx q. RUN_QUEUE s = nx # q \<longrightarrow> CURRENT s' = Some nx \<and> RUN_QUEUE s' = q @ cur_list s)
    \<and> static s s' \<and> TICKS s' = TICKS s"
proof (cases "RUN_QUEUE s")
  case Nil
  let ?s = "s\<lparr>NEED_RESCHED := False\<rparr>"
  have "placed ?s = placed s" "cur_list ?s = cur_list s" by (simp_all add: placed_def cur_list_def)
  then have "sched_inv P ?s" using inv by (simp add: sched_inv_def)
  then show ?thesis using Nil \<open>placed ?s = placed s\<close> by (simp add: schedule_def)
next
  case (Cons nx q)
  have nx: "nx \<in> set (TASKS s)" using inv Cons by (auto simp: sched_inv_def placed_def)
  then obtain x where x: "objs s nx = Some x" "runnable P x" using sched_inv_objs[OF inv] by blast
  have ne: "CURRENT s \<noteq> Some nx" using inv Cons by (auto simp: sched_inv_def placed_def cur_list_def)
  have po: "\<forall>p. CURRENT s = Some p \<longrightarrow> objs s p \<noteq> None"
    using sched_inv_cur[OF inv] sched_inv_objs[OF inv] by fastforce
  have live: "filter (\<lambda>p. state s p = Ready \<or> state s p = Running) (cur_list s) = cur_list s"
    using inv by (auto simp: sched_inv_def filter_id_conv)
  from schedule_step[OF Cons x ne po] live obtain s' where s':
    "schedule P s = Some (Some (CURRENT s, nx), s')" "RUN_QUEUE s' = q @ cur_list s" "CURRENT s' = Some nx"
    "WAIT_QUEUES s' = WAIT_QUEUES s" "static s s'" "TICKS s' = TICKS s"
    "\<forall>t. state s' t = (if t = nx then Running else if t \<in> set (cur_list s) then Ready else state s t)"
    by auto
  have ms: "mset (placed s') = mset (placed s)" using s' Cons by (simp add: placed_def cur_list_def[of s'])
  then have sets: "set (placed s') = set (placed s)" and dist: "distinct (placed s') = distinct (placed s)"
    by (auto dest: mset_eq_setD mset_eq_imp_distinct_iff)
  have ts: "TASKS s' = TASKS s" using s'(5) by (simp add: static_def)
  have wq: "snd w \<noteq> nx \<and> snd w \<notin> set (cur_list s)" if "w \<in> set (WAIT_QUEUES s)" for w
    using inv that Cons by (auto simp: sched_inv_def placed_def)
  have nq: "t \<noteq> nx \<and> t \<notin> set (cur_list s)" if "t \<in> set q" for t
    using inv that Cons by (auto simp: sched_inv_def placed_def)
  have nc: "nx \<notin> set (cur_list s)" using ne by (auto simp: cur_list_def split: option.splits)
  have "sched_inv P s'"
    unfolding sched_inv_def
  proof (intro conjI)
    show "distinct (placed s')" "set (placed s') \<subseteq> set (TASKS s')" using inv dist sets ts by (simp_all add: sched_inv_def)
    show "\<forall>t \<in> set (TASKS s'). t < NEXT_ID s' \<and> (\<exists>x. objs s' t = Some x \<and> runnable P x)"
      by (rule sched_inv_static[OF inv s'(5)])
    show "\<forall>t \<in> set (RUN_QUEUE s'). state s' t = Ready"
      using inv Cons s' nq nc by (auto simp: sched_inv_def)
    show "\<forall>t \<in> set (cur_list s'). state s' t = Ready \<or> state s' t = Running"
      using s' by (simp add: cur_list_def)
    show "\<forall>w \<in> set (WAIT_QUEUES s'). state s' (snd w) = Blocked \<or> state s' (snd w) = Dead"
      using inv s' wq by (simp add: sched_inv_def)
    show "\<forall>t \<in> set (TASKS s'). state s' t \<noteq> Dead \<longrightarrow> t \<in> set (placed s')"
      using inv s' sets ts Cons by (auto simp: sched_inv_def placed_def)
    show "IDLE \<in> set (cur_list s' @ RUN_QUEUE s')"
      using inv s' Cons by (auto simp: sched_inv_def cur_list_def)
  qed
  then show ?thesis using s' ms Cons by auto
qed

lemma wake_all_inv:
  assumes inv: "sched_inv P s"
  shows "sched_inv P (wake_all key s) \<and> mset (placed (wake_all key s)) = mset (placed s)
    \<and> CURRENT (wake_all key s) = CURRENT s \<and> TASKS (wake_all key s) = TASKS s"
proof -
  obtain woken wq where d: "drain (\<lambda>w. fst w = key) (WAIT_QUEUES s) 0 [] = (woken, wq)" by fastforce
  let ?s = "s\<lparr>WAIT_QUEUES := wq\<rparr>"
  let ?w = "wake_list (map snd woken) ?s"
  have eq: "wake_all key s = ?w" by (rule wake_all_eq[OF d])
  have "mset (WAIT_QUEUES s) = mset woken + mset wq"
    using drain_start[OF d] multiset_partition[of "mset (WAIT_QUEUES s)" "\<lambda>w. fst w = key"] by simp
  then have split: "mset (map snd (WAIT_QUEUES s)) = mset (map snd woken) + mset (map snd wq)"
    by (metis image_mset_union mset_map)
  have cl: "cur_list ?w = cur_list s" by (simp add: cur_list_def wake_list_props)
  have ms: "mset (placed ?w) = mset (placed s)"
    using split by (simp add: placed_def wake_list_props cl)
  then have sets: "set (placed ?w) = set (placed s)" and dist: "distinct (placed ?w) = distinct (placed s)"
    by (auto dest: mset_eq_setD mset_eq_imp_distinct_iff)
  have stat: "static s ?w" using static_trans[OF static_updates(6) wake_list_props(7)] .
  have wk: "set woken \<subseteq> set (WAIT_QUEUES s)" "set wq \<subseteq> set (WAIT_QUEUES s)"
    using drain_sets[OF d] by auto
  have disj: "snd w \<notin> set (cur_list s)" "snd w \<notin> set (RUN_QUEUE s)" "objs s (snd w) \<noteq> None" "snd w \<in> set (placed s)"
    if "w \<in> set woken" for w
  proof -
    have w: "w \<in> set (WAIT_QUEUES s)" using that wk(1) by blast
    show "snd w \<notin> set (cur_list s)" "snd w \<notin> set (RUN_QUEUE s)"
      by (rule sched_inv_waiter(1,2)[OF inv w])+
    show "objs s (snd w) \<noteq> None" using sched_inv_objs[OF inv sched_inv_waiter(3)[OF inv w]] by auto
    show "snd w \<in> set (placed s)" using w by (simp add: placed_def)
  qed
  have disj2: "snd ` set woken \<inter> snd ` set wq = {}"
  proof -
    have "distinct (map snd (WAIT_QUEUES s))" using inv by (simp add: sched_inv_def placed_def)
    then have "distinct (map snd woken @ map snd wq)"
      using split mset_eq_imp_distinct_iff[of "map snd (WAIT_QUEUES s)" "map snd woken @ map snd wq"] by simp
    then show ?thesis by auto
  qed
  have st: "state ?w u = (if u \<in> snd ` set woken then Ready else state s u)" for u
  proof -
    have "\<forall>w \<in> set woken. objs s (snd w) \<noteq> None" using disj(3) by blast
    then show ?thesis by (auto simp: wake_list_props(6))
  qed
  have "sched_inv P ?w"
    unfolding sched_inv_def
  proof (intro conjI)
    show "distinct (placed ?w)" "set (placed ?w) \<subseteq> set (TASKS ?w)"
      using inv dist sets by (simp_all add: sched_inv_def wake_list_props)
    show "\<forall>t \<in> set (TASKS ?w). t < NEXT_ID ?w \<and> (\<exists>x. objs ?w t = Some x \<and> runnable P x)"
      by (rule sched_inv_static[OF inv stat])
    show "\<forall>t \<in> set (RUN_QUEUE ?w). state ?w t = Ready"
      using inv by (auto simp: st wake_list_props(1) sched_inv_def)
    show "\<forall>t \<in> set (cur_list ?w). state ?w t = Ready \<or> state ?w t = Running"
      using inv by (simp add: st cl sched_inv_def)
    show "\<forall>w \<in> set (WAIT_QUEUES ?w). state ?w (snd w) = Blocked \<or> state ?w (snd w) = Dead"
    proof
      fix w assume "w \<in> set (WAIT_QUEUES ?w)"
      then have "w \<in> set wq" "snd w \<notin> snd ` set woken" using disj2 by (auto simp: wake_list_props(4))
      then show "state ?w (snd w) = Blocked \<or> state ?w (snd w) = Dead"
        using inv wk(2) by (auto simp: st sched_inv_def)
    qed
    show "\<forall>t \<in> set (TASKS ?w). state ?w t \<noteq> Dead \<longrightarrow> t \<in> set (placed ?w)"
      using inv disj(4) by (auto simp: st sets wake_list_props(3) sched_inv_def)
    show "IDLE \<in> set (cur_list ?w @ RUN_QUEUE ?w)"
      using inv by (auto simp: cl wake_list_props sched_inv_def)
  qed
  then show ?thesis using ms eq by (simp add: wake_list_props)
qed

lemma sched_inv_queue_nonempty:
  "sched_inv P s \<Longrightarrow> CURRENT s \<noteq> Some IDLE \<Longrightarrow> RUN_QUEUE s \<noteq> [] \<and> IDLE \<in> set (RUN_QUEUE s)"
  by (auto simp: sched_inv_def cur_list_def split: option.splits)

lemma block_on_inv:
  assumes inv: "sched_inv P s" and cur: "CURRENT s = Some t" "t \<noteq> IDLE"
  shows "\<exists>sw s'. block_on P key s = Some (sw, s') \<and> sched_inv P s' \<and> mset (placed s') = mset (placed s)
    \<and> (key, t) \<in> set (WAIT_QUEUES s') \<and> state s' t = Blocked \<and> TASKS s' = TASKS s"
proof -
  let ?s = "(set_state t Blocked s)\<lparr>WAIT_QUEUES := WAIT_QUEUES s @ [(key, t)]\<rparr>"
  from sched_inv_queue_nonempty[OF inv] cur obtain nx q where q: "RUN_QUEUE s = nx # q" "IDLE \<in> set (nx # q)"
    by (cases "RUN_QUEUE s") auto
  have tt: "t \<in> set (TASKS s)" "objs s t \<noteq> None" using sched_inv_cur[OF inv cur(1)] sched_inv_objs[OF inv] by fastforce+
  have stat: "static s ?s" using static_trans[OF static_updates(1) static_updates(6)] .
  have nx: "nx \<in> set (TASKS s)" "nx \<noteq> t" using inv q cur by (auto simp: sched_inv_def placed_def cur_list_def)
  from static_runnable[OF stat] sched_inv_objs[OF inv nx(1)] obtain x where
    x: "objs ?s nx = Some x" "runnable P x" by blast
  have st0: "state ?s u = (if u = t then Blocked else state s u)" for u
    using tt(2) by (auto simp: state_set_state)
  have live: "filter (\<lambda>p. state ?s p = Ready \<or> state ?s p = Running) (cur_list ?s) = []"
    using cur st0 by (simp add: cur_list_def)
  have pre: "RUN_QUEUE ?s = nx # q" "CURRENT ?s \<noteq> Some nx" "\<forall>p. CURRENT ?s = Some p \<longrightarrow> objs ?s p \<noteq> None"
    using q cur nx tt(2) by (auto simp: objs_set_state)
  from schedule_step[OF pre(1) x pre(2,3)] live obtain s' where s':
    "schedule P ?s = Some (Some (CURRENT ?s, nx), s')" "RUN_QUEUE s' = q" "CURRENT s' = Some nx"
    "WAIT_QUEUES s' = WAIT_QUEUES s @ [(key, t)]" "static ?s s'"
    "\<forall>u. state s' u = (if u = nx then Running else state ?s u)" by auto
  have st: "state s' u = (if u = nx then Running else if u = t then Blocked else state s u)" for u
    using s'(6) st0 by simp
  have stat': "static s s'" by (rule static_trans[OF stat s'(5)])
  then have ts: "TASKS s' = TASKS s" by (simp add: static_def)
  have ms: "mset (placed s') = mset (placed s)"
    using s' cur q by (simp add: placed_def cur_list_def)
  then have sets: "set (placed s') = set (placed s)" and dist: "distinct (placed s') = distinct (placed s)"
    by (auto dest: mset_eq_setD mset_eq_imp_distinct_iff)
  have apart: "u \<noteq> nx \<and> u \<noteq> t" if "u \<in> set q" for u
    using inv that q cur by (auto simp: sched_inv_def placed_def cur_list_def)
  have "sched_inv P s'"
    unfolding sched_inv_def
  proof (intro conjI)
    show "distinct (placed s')" "set (placed s') \<subseteq> set (TASKS s')" using inv dist sets ts by (simp_all add: sched_inv_def)
    show "\<forall>t \<in> set (TASKS s'). t < NEXT_ID s' \<and> (\<exists>x. objs s' t = Some x \<and> runnable P x)"
      by (rule sched_inv_static[OF inv stat'])
    show "\<forall>u \<in> set (RUN_QUEUE s'). state s' u = Ready"
      using inv q apart by (auto simp: st s'(2) sched_inv_def)
    show "\<forall>u \<in> set (cur_list s'). state s' u = Ready \<or> state s' u = Running"
      by (simp add: cur_list_def s'(3) st)
    show "\<forall>w \<in> set (WAIT_QUEUES s'). state s' (snd w) = Blocked \<or> state s' (snd w) = Dead"
    proof
      fix w assume "w \<in> set (WAIT_QUEUES s')"
      then consider "w = (key, t)" | "w \<in> set (WAIT_QUEUES s)" by (auto simp: s'(4))
      then show "state s' (snd w) = Blocked \<or> state s' (snd w) = Dead"
      proof cases
        case 2
        have "snd w \<noteq> nx" using sched_inv_waiter(2)[OF inv 2] q by auto
        then show ?thesis using inv 2 by (auto simp: st sched_inv_def)
      qed (use nx in \<open>simp add: st\<close>)
    qed
    show "\<forall>u \<in> set (TASKS s'). state s' u \<noteq> Dead \<longrightarrow> u \<in> set (placed s')"
    proof (intro ballI impI)
      fix u assume u: "u \<in> set (TASKS s')" "state s' u \<noteq> Dead"
      have "nx \<in> set (placed s)" "t \<in> set (placed s)" using q cur by (simp_all add: placed_def cur_list_def)
      moreover have "u \<in> set (placed s)" if "u \<noteq> nx" "u \<noteq> t"
        using inv u that by (simp add: st ts sched_inv_def)
      ultimately show "u \<in> set (placed s')" unfolding sets by blast
    qed
    show "IDLE \<in> set (cur_list s' @ RUN_QUEUE s')" using q by (auto simp: cur_list_def s'(2,3))
  qed
  then show ?thesis using s'(1,4) ms cur ts st nx by (auto simp: block_on_def)
qed

lemma wake_list_Cons: "wake_list (t # ts) s = wake_list ts (enqueue t (set_state t Ready s))"
  by (simp add: wake_list_def)

lemma wake_step_current:
  "enqueue t (set_state t Ready (s\<lparr>CURRENT := c\<rparr>)) = (enqueue t (set_state t Ready s))\<lparr>CURRENT := c\<rparr>"
  by (cases s) (simp add: enqueue_def set_state_def)

lemma wake_list_current: "wake_list ts (s\<lparr>CURRENT := c\<rparr>) = (wake_list ts s)\<lparr>CURRENT := c\<rparr>"
proof (induction ts arbitrary: s)
  case Nil
  then show ?case by (simp add: wake_list_def)
next
  case (Cons t ts)
  then show ?case by (simp add: wake_list_Cons wake_step_current)
qed

lemma wake_all_current: "wake_all key (s\<lparr>CURRENT := c\<rparr>) = (wake_all key s)\<lparr>CURRENT := c\<rparr>"
proof -
  obtain woken wq where d: "drain (\<lambda>w. fst w = key) (WAIT_QUEUES s) 0 [] = (woken, wq)" by fastforce
  have sw: "s\<lparr>CURRENT := c, WAIT_QUEUES := wq\<rparr> = s\<lparr>WAIT_QUEUES := wq, CURRENT := c\<rparr>" by (cases s) simp
  have "wake_all key (s\<lparr>CURRENT := c\<rparr>) = wake_list (map snd woken) (s\<lparr>CURRENT := c, WAIT_QUEUES := wq\<rparr>)"
    using d by (intro wake_all_eq) simp
  also have "\<dots> = (wake_list (map snd woken) (s\<lparr>WAIT_QUEUES := wq\<rparr>))\<lparr>CURRENT := c\<rparr>"
    unfolding sw by (rule wake_list_current)
  finally show ?thesis using wake_all_eq[OF d] by simp
qed

text \<open>Taking a task that is neither idle nor parked out of its place, dead.\<close>

lemma bury_inv:
  assumes inv: "sched_inv P s" and t: "t \<in> set (TASKS s)" "t \<noteq> IDLE"
    and s': "static s s'" "\<forall>u. state s' u = (if u = t then Dead else state s u)"
    "set (cur_list s') = set (cur_list s) - {t}" "set (RUN_QUEUE s') = set (RUN_QUEUE s) - {t}"
    "WAIT_QUEUES s' = WAIT_QUEUES s" "distinct (placed s')"
  shows "sched_inv P s'"
proof -
  have ts: "TASKS s' = TASKS s" using s'(1) by (simp add: static_def)
  have sub: "set (placed s') \<subseteq> set (placed s)" and most: "set (placed s) - {t} \<subseteq> set (placed s')"
    using s'(3-5) by (auto simp: placed_def)
  show ?thesis
    unfolding sched_inv_def
  proof (intro conjI)
    show "distinct (placed s')" by (rule s'(6))
    show "set (placed s') \<subseteq> set (TASKS s')" using sub inv ts by (auto simp: sched_inv_def)
    show "\<forall>t \<in> set (TASKS s'). t < NEXT_ID s' \<and> (\<exists>x. objs s' t = Some x \<and> runnable P x)"
      by (rule sched_inv_static[OF inv s'(1)])
    show "\<forall>u \<in> set (RUN_QUEUE s'). state s' u = Ready" using inv s' by (auto simp: sched_inv_def)
    show "\<forall>u \<in> set (cur_list s'). state s' u = Ready \<or> state s' u = Running" using inv s' by (auto simp: sched_inv_def)
    show "\<forall>w \<in> set (WAIT_QUEUES s'). state s' (snd w) = Blocked \<or> state s' (snd w) = Dead"
      using inv s'(2,5) by (simp add: sched_inv_def)
    show "\<forall>u \<in> set (TASKS s'). state s' u \<noteq> Dead \<longrightarrow> u \<in> set (placed s')"
      using inv s'(2) most ts by (auto simp: sched_inv_def)
    show "IDLE \<in> set (cur_list s' @ RUN_QUEUE s')" using inv s'(3,4) t(2) by (auto simp: sched_inv_def)
  qed
qed

lemma current_exit_inv:
  assumes inv: "sched_inv P s" and cur: "CURRENT s = Some t" "t \<noteq> IDLE"
  shows "\<exists>sw s'. current_exit P code s = Some (sw, s') \<and> sched_inv P s' \<and> TASKS s' = TASKS s
    \<and> mset (placed s') = mset (placed s) - {#t#}"
proof -
  let ?d = "(set_state t Dead (set_exit_code t code s))\<lparr>CURRENT := None\<rparr>"
  let ?key = "wait_key (t_parent (task_of s t))"
  have tt: "t \<in> set (TASKS s)" using sched_inv_cur[OF inv cur(1)] by simp
  then have ob: "objs s t \<noteq> None" using sched_inv_objs[OF inv] by fastforce
  have stat: "static s ?d"
    using static_trans[OF static_trans[OF static_updates(2) static_updates(1)] static_updates(5)] .
  have pl: "placed s = t # placed ?d" using cur by (simp add: placed_def cur_list_def)
  have invd: "sched_inv P ?d"
  proof (rule bury_inv[OF inv tt cur(2) stat])
    show "\<forall>u. state ?d u = (if u = t then Dead else state s u)"
      using ob by (simp add: state_set_state objs_set_exit_code)
    show "set (cur_list ?d) = set (cur_list s) - {t}" using cur by (simp add: cur_list_def)
    have "t \<notin> set (RUN_QUEUE s)" using inv cur by (auto simp: sched_inv_def placed_def cur_list_def)
    then show "set (RUN_QUEUE ?d) = set (RUN_QUEUE s) - {t}" by simp
    show "distinct (placed ?d)" using inv pl by (simp add: sched_inv_def)
  qed simp
  note w = wake_all_inv[OF invd, of ?key]
  from schedule_inv[OF conjunct1[OF w]] obtain sw s' where s':
    "schedule P (wake_all ?key ?d) = Some (sw, s')" "sched_inv P s'"
    "mset (placed s') = mset (placed (wake_all ?key ?d))" "static (wake_all ?key ?d) s'" by blast
  have "current_exit P code s = Some (sw, s')"
    using s'(1) cur unfolding wake_all_current by (simp add: current_exit_def)
  moreover have "TASKS s' = TASKS s" using s'(4) w stat by (simp add: static_def)
  moreover have "mset (placed s') = mset (placed s) - {#t#}" using s'(3) w pl by simp
  ultimately show ?thesis using s'(2) by blast
qed

lemma find_task_eq: "find_task s pid = (if pid \<in> set (TASKS s) then Some pid else None)"
proof (cases "pid \<in> set (TASKS s)")
  case True
  then have "find_task s pid \<noteq> None" by (auto simp: find_task_def find_None_iff)
  then obtain t where "find_task s pid = Some t" by blast
  then show ?thesis using True by (auto simp: find_task_def find_Some_iff)
qed (auto simp: find_task_def find_None_iff)

lemma kill_inv:
  assumes inv: "sched_inv P s" and pid: "CURRENT s \<noteq> Some pid" "pid \<noteq> IDLE"
  shows "sched_inv P (snd (kill pid code s)) \<and> TASKS (snd (kill pid code s)) = TASKS s
    \<and> CURRENT (snd (kill pid code s)) = CURRENT s"
proof (cases "pid \<in> set (TASKS s)")
  case False
  then show ?thesis using inv by (simp add: kill_def find_task_eq)
next
  case True
  obtain t k where d: "drain (\<lambda>x. x = pid) (RUN_QUEUE s) 0 [] = (t, k)" by fastforce
  let ?d = "(set_state pid Dead (set_exit_code pid code s))\<lparr>RUN_QUEUE := k\<rparr>"
  have ob: "objs s pid \<noteq> None" using sched_inv_objs[OF inv True] by auto
  have stat: "static s ?d"
    using static_trans[OF static_trans[OF static_updates(2) static_updates(1)] static_updates(4)] .
  have invd: "sched_inv P ?d"
  proof (rule bury_inv[OF inv True pid(2) stat])
    show "\<forall>u. state ?d u = (if u = pid then Dead else state s u)"
      using ob by (simp add: state_set_state objs_set_exit_code)
    show "set (cur_list ?d) = set (cur_list s) - {pid}" using pid(1) by (auto simp: cur_list_def split: option.splits)
    show "set (RUN_QUEUE ?d) = set (RUN_QUEUE s) - {pid}" using drain_sets(2)[OF d] by auto
    have "mset k \<subseteq># mset (RUN_QUEUE s)" using drain_start(2)[OF d] by simp
    moreover have "set k \<subseteq> set (RUN_QUEUE s)" using drain_sets(2)[OF d] by auto
    moreover have "distinct (RUN_QUEUE s)" using inv by (simp add: sched_inv_def placed_def)
    ultimately have "distinct k"
      by (metis (no_types, lifting) distinct_append mset_append mset_eq_imp_distinct_iff ex_mset subset_mset.add_diff_inverse)
    then show "distinct (placed ?d)"
      using inv \<open>set k \<subseteq> set (RUN_QUEUE s)\<close> by (auto simp: sched_inv_def placed_def cur_list_def split: option.splits)
  qed simp
  have "snd (kill pid code s) = wake_all (wait_key (t_parent (task_of ?d pid))) ?d"
    using True d by (simp add: kill_def find_task_eq Let_def)
  then show ?thesis using wake_all_inv[OF invd] by simp
qed

lemma spawn_inv:
  assumes inv: "sched_inv P s" and fresh: "NEXT_ID s + 1 < 2 ^ 64"
    and nt: "new_task parent kstack rsp as s = (t, s1)"
    and run: "runnable P (the (objs s1 t))"
  shows "sched_inv P (enqueue t (register t s1))"
proof -
  let ?s = "enqueue t (register t s1)"
  have s1: "t = NEXT_ID s" "NEXT_ID s1 = NEXT_ID s + 1" "RUN_QUEUE s1 = RUN_QUEUE s" "CURRENT s1 = CURRENT s"
    "TASKS s1 = TASKS s" "WAIT_QUEUES s1 = WAIT_QUEUES s" "\<forall>u. u \<noteq> t \<longrightarrow> objs s1 u = objs s u"
    "\<exists>x. objs s1 t = Some x \<and> t_state x = Ready"
    using nt fresh by (auto simp: new_task_def new_id_def Let_def)
  have new: "t \<notin> set (TASKS s)" using inv s1(1) by (auto simp: sched_inv_def)
  then have newp: "t \<notin> set (placed s)" using inv by (auto simp: sched_inv_def)
  have st: "state s1 u = (if u = t then Ready else state s u)" for u
    using s1(7,8) by (auto simp: state_def task_of_def)
  have fields: "RUN_QUEUE ?s = RUN_QUEUE s @ [t]" "cur_list ?s = cur_list s" "WAIT_QUEUES ?s = WAIT_QUEUES s"
    "TASKS ?s = TASKS s @ [t]" "NEXT_ID ?s = NEXT_ID s + 1" "objs ?s = objs s1"
    "RUN_QUEUE (register t s1) = RUN_QUEUE s" "WAIT_QUEUES (register t s1) = WAIT_QUEUES s"
    "TASKS (register t s1) = TASKS s @ [t]" "NEXT_ID (register t s1) = NEXT_ID s + 1" "objs (register t s1) = objs s1"
    using s1 by (simp_all add: register_def cur_list_def)
  have pl: "mset (placed ?s) = add_mset t (mset (placed s))" unfolding placed_def fields by simp
  then have dist: "distinct (placed ?s)" and sets: "set (placed ?s) = insert t (set (placed s))"
  proof -
    have "mset (placed ?s) = mset (t # placed s)" using pl by simp
    then have "distinct (placed ?s) \<longleftrightarrow> distinct (t # placed s)" "set (placed ?s) = set (t # placed s)"
      by (rule mset_eq_imp_distinct_iff, rule mset_eq_setD)
    then show "distinct (placed ?s)" "set (placed ?s) = insert t (set (placed s))"
      using inv newp by (simp_all add: sched_inv_def)
  qed
  have ne: "u \<noteq> t" if "u \<in> set (placed s)" for u using that newp by blast
  show ?thesis
    unfolding sched_inv_def
  proof (intro conjI)
    show "distinct (placed ?s)" by (rule dist)
    show "set (placed ?s) \<subseteq> set (TASKS ?s)" using inv by (auto simp: sets fields sched_inv_def)
    show "\<forall>u \<in> set (TASKS ?s). u < NEXT_ID ?s \<and> (\<exists>x. objs ?s u = Some x \<and> runnable P x)"
    proof
      fix u assume "u \<in> set (TASKS ?s)"
      then consider "u = t" | "u \<in> set (TASKS s)" "u \<noteq> t" using new by (auto simp: fields)
      then show "u < NEXT_ID ?s \<and> (\<exists>x. objs ?s u = Some x \<and> runnable P x)"
      proof cases
        case 1
        then show ?thesis unfolding fields using s1(1,8) run by auto
      next
        case 2
        then show ?thesis unfolding fields using inv s1(7) by (auto simp: sched_inv_def less_Suc_eq)
      qed
    qed
    show "\<forall>u \<in> set (RUN_QUEUE ?s). state ?s u = Ready" using inv by (auto simp: st fields sched_inv_def)
    show "\<forall>u \<in> set (cur_list ?s). state ?s u = Ready \<or> state ?s u = Running"
      using inv by (auto simp: st fields sched_inv_def)
    show "\<forall>w \<in> set (WAIT_QUEUES ?s). state ?s (snd w) = Blocked \<or> state ?s (snd w) = Dead"
    proof
      fix w assume w: "w \<in> set (WAIT_QUEUES ?s)"
      then have "snd w \<noteq> t" using ne[of "snd w"] by (simp add: fields placed_def)
      then show "state ?s (snd w) = Blocked \<or> state ?s (snd w) = Dead"
        using inv w by (simp add: st fields sched_inv_def)
    qed
    show "\<forall>u \<in> set (TASKS ?s). state ?s u \<noteq> Dead \<longrightarrow> u \<in> set (placed ?s)"
      using inv by (auto simp: st fields sets sched_inv_def)
    show "IDLE \<in> set (cur_list ?s @ RUN_QUEUE ?s)" using inv by (auto simp: fields sched_inv_def)
  qed
qed


section \<open>Steps and reachable states\<close>

text \<open>The statics at reset, and the state once \<open>kmain\<close> has spawned the idle task.\<close>

definition reset_sched :: sched where
  "reset_sched = \<lparr>objs = (\<lambda>_. None), RUN_QUEUE = [], CURRENT = None, TASKS = [], TICKS = 0, NEED_RESCHED = False,
     WAIT_QUEUES = [], NEXT_ID = 1, cr3 = 0, kernel_stack = 0\<rparr>"

definition boot_sched :: "nat \<Rightarrow> nat \<Rightarrow> sched" where
  "boot_sched kstack rsp =
     (let (idle, s) = new_task 0 kstack rsp None reset_sched in enqueue idle (register idle s))"

inductive sched_step :: "x86_api \<Rightarrow> sched \<Rightarrow> sched \<Rightarrow> bool" for P where
  step_run: "CURRENT s = None \<Longrightarrow> sched_run P s = Some (sw, s') \<Longrightarrow> sched_step P s s'"
| step_tick: "on_tick P s = Some (sw, s') \<Longrightarrow> sched_step P s s'"
| step_yield: "yield_now P s = Some (sw, s') \<Longrightarrow> sched_step P s s'"
| step_block: "CURRENT s = Some t \<Longrightarrow> t \<noteq> IDLE \<Longrightarrow> block_on P key s = Some (sw, s') \<Longrightarrow> sched_step P s s'"
| step_wake: "sched_step P s (wake_all key s)"
| step_exit: "CURRENT s = Some t \<Longrightarrow> t \<noteq> IDLE \<Longrightarrow> current_exit P code s = Some (sw, s') \<Longrightarrow> sched_step P s s'"
| step_kill: "CURRENT s \<noteq> Some pid \<Longrightarrow> pid \<noteq> IDLE \<Longrightarrow> sched_step P s (snd (kill pid code s))"
| step_spawn: "NEXT_ID s + 1 < 2 ^ 64 \<Longrightarrow> new_task parent kstack rsp as s = (t, s1) \<Longrightarrow> runnable P (the (objs s1 t))
    \<Longrightarrow> sched_step P s (enqueue t (register t s1))"

inductive sched_reach :: "x86_api \<Rightarrow> sched \<Rightarrow> sched \<Rightarrow> bool" for P s where
  reach_refl: "sched_reach P s s"
| reach_step: "sched_reach P s s' \<Longrightarrow> sched_step P s' s'' \<Longrightarrow> sched_reach P s s''"

lemma sched_inv_cong:
  assumes "sched_inv P s" and "placed s' = placed s" "cur_list s' = cur_list s" "RUN_QUEUE s' = RUN_QUEUE s"
    "WAIT_QUEUES s' = WAIT_QUEUES s" "TASKS s' = TASKS s" "NEXT_ID s' = NEXT_ID s" "objs s' = objs s"
  shows "sched_inv P s'"
proof -
  have "state s' = state s" using assms(8) by (auto simp: state_def task_of_def)
  then show ?thesis using assms by (simp add: sched_inv_def)
qed

lemma sched_inv_ticks: "sched_inv P s \<Longrightarrow> sched_inv P (s\<lparr>TICKS := n\<rparr>)"
  by (erule sched_inv_cong) (simp_all add: placed_def cur_list_def)

lemma run_inv:
  assumes inv: "sched_inv P s" and none: "CURRENT s = None"
  shows "\<exists>sw s'. sched_run P s = Some (sw, s') \<and> sched_inv P s'"
proof -
  obtain t q where q: "RUN_QUEUE s = t # q"
    using sched_inv_queue_nonempty[OF inv] none by (cases "RUN_QUEUE s") auto
  let ?s = "s\<lparr>RUN_QUEUE := q, CURRENT := Some t\<rparr>"
  have "t \<in> set (TASKS s)" using inv q by (auto simp: sched_inv_def placed_def)
  then obtain x where "objs ?s t = Some x" "runnable P x" using sched_inv_objs[OF inv] by fastforce
  from prepare_to_run_ok[OF this] obtain s' where s0: "prepare_to_run P t ?s = Some s'" "RUN_QUEUE s' = RUN_QUEUE ?s"
    "CURRENT s' = CURRENT ?s" "TASKS s' = TASKS ?s" "WAIT_QUEUES s' = WAIT_QUEUES ?s" "objs s' = objs ?s"
    "NEXT_ID s' = NEXT_ID ?s" by metis
  note s' = s0[simplified]
  have pl: "placed s' = placed s" using q none s' by (simp add: placed_def cur_list_def)
  have st: "state s' = state s" by (rule ext) (simp add: state_def task_of_def s')
  have "sched_inv P s'"
    using inv q none s' unfolding sched_inv_def pl st by (auto simp: cur_list_def)
  then show ?thesis using q s0(1) by (simp add: sched_run_def)
qed

lemma on_tick_inv:
  assumes "sched_inv P s"
  shows "\<exists>sw s'. on_tick P s = Some (sw, s') \<and> sched_inv P s' \<and> mset (placed s') = mset (placed s)
    \<and> (\<forall>nx q. RUN_QUEUE s = nx # q \<longrightarrow> CURRENT s' = Some nx \<and> RUN_QUEUE s' = q @ cur_list s)"
proof -
  let ?s = "s\<lparr>TICKS := (TICKS s + 1) mod 2 ^ 64\<rparr>"
  have pl: "placed ?s = placed s" "cur_list ?s = cur_list s" "RUN_QUEUE ?s = RUN_QUEUE s"
    by (simp_all add: placed_def cur_list_def)
  show ?thesis
    using schedule_inv[OF sched_inv_ticks[OF assms], of "(TICKS s + 1) mod 2 ^ 64"] unfolding on_tick_def pl by blast
qed

lemma step_inv:
  assumes "sched_step P s s'" and "sched_inv P s"
  shows "sched_inv P s'"
  using assms
proof cases
  case (step_run sw)
  then show ?thesis using run_inv[OF assms(2)] by auto
next
  case (step_tick sw)
  then show ?thesis using on_tick_inv[OF assms(2)] by auto
next
  case (step_yield sw)
  then show ?thesis using schedule_inv[OF assms(2)] by (auto simp: yield_now_def)
next
  case (step_block t key sw)
  then show ?thesis using block_on_inv[OF assms(2) step_block(1,2), of key] by auto
next
  case (step_wake key)
  then show ?thesis using wake_all_inv[OF assms(2)] by simp
next
  case (step_exit t code sw)
  then show ?thesis using current_exit_inv[OF assms(2) step_exit(1,2), of code] by auto
next
  case (step_kill pid code)
  then show ?thesis using kill_inv[OF assms(2) step_kill(2,3)] by simp
next
  case (step_spawn parent kstack rsp as t s1)
  then show ?thesis using spawn_inv[OF assms(2)] by simp
qed

lemma boot_inv:
  assumes "runnable P \<lparr>t_parent = 0, t_exit_code = 0, t_kstack = kstack, t_saved_rsp = rsp, t_state = Ready, t_addr_space = None\<rparr>"
  shows "sched_inv P (boot_sched kstack rsp)"
  using assms by (simp add: boot_sched_def new_task_def new_id_def reset_sched_def sched_inv_def placed_def
    cur_list_def register_def enqueue_def state_def task_of_def IDLE_def)


section \<open>Properties\<close>

fun run_ticks :: "x86_api \<Rightarrow> nat \<Rightarrow> sched \<Rightarrow> sched may_stop" where
  "run_ticks P 0 s = Some s"
| "run_ticks P (Suc n) s = do { (sw, s') \<leftarrow> on_tick P s; run_ticks P n s' }"

text \<open>A concrete kernel: idle, two user tasks, started.\<close>

definition demo_task :: "sched \<Rightarrow> sched" where
  "demo_task s = (let (t, s1) = new_task 1 0x200000 0x203f00 None s in enqueue t (register t s1))"

definition demo_sched :: sched where
  "demo_sched = snd (the (sched_run x86_impl (demo_task (demo_task (boot_sched 0x100000 0x103f00)))))"

lemma demo_runnable [simp]:
  "runnable x86_impl \<lparr>t_parent = p, t_exit_code = c, t_kstack = 0x100000, t_saved_rsp = r, t_state = st, t_addr_space = None\<rparr>"
  "runnable x86_impl \<lparr>t_parent = p, t_exit_code = c, t_kstack = 0x200000, t_saved_rsp = r, t_state = st, t_addr_space = None\<rparr>"
  by (simp_all add: runnable_def kstack_top_def u64_add_def KSTACK_SIZE_def x86_impl_def)

lemma demo_task_step: "NEXT_ID s + 1 < 2 ^ 64 \<Longrightarrow> sched_step x86_impl s (demo_task s)"
  unfolding demo_task_def
  by (cases "new_task 1 0x200000 0x203f00 None s")
     (auto intro!: step_spawn simp: new_task_def new_id_def)

lemma demo_sched_reach: "sched_reach x86_impl (boot_sched 0x100000 0x103f00) demo_sched"
proof -
  let ?b = "boot_sched 0x100000 0x103f00"
  have n: "NEXT_ID ?b = 2" "NEXT_ID (demo_task ?b) = 3"
    by (simp_all add: boot_sched_def demo_task_def new_task_def new_id_def reset_sched_def enqueue_def register_def)
  have "sched_reach x86_impl ?b (demo_task (demo_task ?b))"
    using n by (intro reach_step[OF reach_step[OF reach_refl demo_task_step] demo_task_step]) simp_all
  moreover have "sched_step x86_impl (demo_task (demo_task ?b)) demo_sched"
  proof -
    have c: "CURRENT (demo_task (demo_task ?b)) = None" by code_simp
    have "sched_run x86_impl (demo_task (demo_task ?b)) \<noteq> None" by code_simp
    then show ?thesis using c by (auto simp: demo_sched_def intro: step_run)
  qed
  ultimately show ?thesis by (rule reach_step)
qed



lemma demo_sched_inv: "sched_inv x86_impl demo_sched"
  using demo_sched_reach by (induction rule: sched_reach.induct) (simp_all add: boot_inv step_inv)

lemma demo_sched_fields: "RUN_QUEUE demo_sched = [2, 3]" "CURRENT demo_sched = Some 1" "WAIT_QUEUES demo_sched = []"
  "TASKS demo_sched = [1, 2, 3]"
  by code_simp+

text \<open>C10. The scheduler is round robin and starves nobody: the task at position k of the run queue is the
  current task after k + 1 timer ticks, and all of those ticks complete.\<close>

theorem round_robin:
  assumes "sched_inv P s" and "k < length (RUN_QUEUE s)"
  shows "\<exists>s'. run_ticks P (Suc k) s = Some s' \<and> CURRENT s' = Some (RUN_QUEUE s ! k)"
  using assms
proof (induction k arbitrary: s)
  case 0
  then show ?case using on_tick_inv[OF 0(1)] by (cases "RUN_QUEUE s") auto
next
  case (Suc k)
  then obtain nx q where q: "RUN_QUEUE s = nx # q" by (cases "RUN_QUEUE s") auto
  from on_tick_inv[OF Suc.prems(1)] q obtain sw s1 where
    s1: "on_tick P s = Some (sw, s1)" "sched_inv P s1" "RUN_QUEUE s1 = q @ cur_list s" by blast
  have "k < length q" using Suc.prems(2) q by simp
  then have k: "k < length (RUN_QUEUE s1)" "RUN_QUEUE s1 ! k = RUN_QUEUE s ! Suc k"
    using s1(3) q by (simp_all add: nth_append)
  have step: "run_ticks P (Suc (Suc k)) s = run_ticks P (Suc k) s1" by (simp add: s1(1))
  from Suc.IH[OF s1(2) k(1)] k(2) show ?case by (simp only: step)
qed

theorem round_robin_witness:
  "\<exists>s'. run_ticks x86_impl 2 demo_sched = Some s' \<and> CURRENT s' = Some 3"
  using round_robin[OF demo_sched_inv, of 1] by (simp add: demo_sched_fields numeral_2_eq_2)

lemma wake_all_outcome:
  assumes "sched_inv P s"
  shows "\<exists>woken. RUN_QUEUE (wake_all key s) = RUN_QUEUE s @ woken
    \<and> mset woken = mset (map snd (filter (\<lambda>w. fst w = key) (WAIT_QUEUES s)))
    \<and> mset (WAIT_QUEUES (wake_all key s)) = mset (filter (\<lambda>w. fst w \<noteq> key) (WAIT_QUEUES s))
    \<and> (\<forall>t. state (wake_all key s) t = (if t \<in> set woken then Ready else state s t))
    \<and> CURRENT (wake_all key s) = CURRENT s"
proof -
  obtain woken wq where d: "drain (\<lambda>w. fst w = key) (WAIT_QUEUES s) 0 [] = (woken, wq)" by fastforce
  note m = drain_start[OF d]
  have ob: "objs s t \<noteq> None" if "t \<in> set (map snd woken)" for t
  proof -
    have "set woken \<subseteq> set (WAIT_QUEUES s)" using drain_sets[OF d] by auto
    then obtain w where "w \<in> set (WAIT_QUEUES s)" "snd w = t" using \<open>t \<in> set (map snd woken)\<close> by auto
    then show ?thesis using sched_inv_waiter(3)[OF assms] sched_inv_objs[OF assms] by fastforce
  qed
  note eq = wake_all_eq[OF d]
  have "mset (map snd woken) = mset (map snd (filter (\<lambda>w. fst w = key) (WAIT_QUEUES s)))" using m by simp
  moreover have "\<forall>t. state (wake_all key s) t = (if t \<in> set (map snd woken) then Ready else state s t)"
    unfolding eq using ob by (simp add: wake_list_props)
  ultimately show ?thesis
    using m by (intro exI[of _ "map snd woken"]) (simp add: eq wake_list_props)
qed

text \<open>C11. Waking loses nobody and wakes nobody else: the tasks parked under the key are appended to the run
  queue, each as often as it was parked, and are ready; the other parked tasks stay parked, and the
  state of every other task is unchanged.\<close>

theorem wake_all_correct:
  assumes "sched_inv P s"
  shows "\<exists>woken. RUN_QUEUE (wake_all key s) = RUN_QUEUE s @ woken
    \<and> mset woken = mset (map snd (filter (\<lambda>w. fst w = key) (WAIT_QUEUES s)))
    \<and> mset (WAIT_QUEUES (wake_all key s)) = mset (filter (\<lambda>w. fst w \<noteq> key) (WAIT_QUEUES s))
    \<and> (\<forall>t. state (wake_all key s) t = (if t \<in> set woken then Ready else state s t))
    \<and> CURRENT (wake_all key s) = CURRENT s"
  by (rule wake_all_outcome[OF assms])

definition demo_parked :: sched where
  "demo_parked = snd (the (block_on x86_impl 7 (snd (the (on_tick x86_impl demo_sched)))))"

lemma demo_parked_inv: "sched_inv x86_impl demo_parked"
proof -
  have "sched_inv x86_impl (snd (the (on_tick x86_impl demo_sched)))"
    using on_tick_inv[OF demo_sched_inv] by auto
  moreover have "CURRENT (snd (the (on_tick x86_impl demo_sched))) = Some 2" by code_simp
  ultimately show ?thesis
    using block_on_inv[of x86_impl "snd (the (on_tick x86_impl demo_sched))" 2 7] by (auto simp: demo_parked_def IDLE_def)
qed

lemma demo_parked_fields: "WAIT_QUEUES demo_parked = [(7, 2)]" "CURRENT demo_parked = Some 3" "RUN_QUEUE demo_parked = [1]"
  "t_parent (task_of demo_parked 2) = 1" "TASKS demo_parked = [1, 2, 3]"
  by code_simp+

theorem wake_all_correct_witness:
  "RUN_QUEUE (wake_all 7 demo_parked) = [1, 2] \<and> state (wake_all 7 demo_parked) 2 = Ready"
  using wake_all_correct[OF demo_parked_inv, of 7] by (auto simp: demo_parked_fields)

lemma kill_waiter:
  assumes inv: "sched_inv P s" and t: "(key, t) \<in> set (WAIT_QUEUES s)" and key: "key \<noteq> wait_key (t_parent (task_of s t))"
  shows "state (snd (kill t code s)) t = Dead \<and> (key, t) \<in> set (WAIT_QUEUES (snd (kill t code s)))"
proof -
  note w = sched_inv_waiter[OF inv t, simplified]
  let ?s = "set_state t Dead (set_exit_code t code s)"
  let ?d = "?s\<lparr>RUN_QUEUE := snd (drain (\<lambda>x. x = t) (RUN_QUEUE s) 0 [])\<rparr>"
  have ob: "objs s t \<noteq> None" using sched_inv_objs[OF inv w(3)] by auto
  have par: "t_parent (task_of ?d t) = t_parent (task_of s t)"
    using ob by (auto simp: task_of_def objs_set_state objs_set_exit_code)
  let ?k = "wait_key (t_parent (task_of s t))"
  obtain woken wq where d: "drain (\<lambda>w. fst w = ?k) (WAIT_QUEUES ?d) 0 [] = (woken, wq)" by fastforce
  have k: "snd (kill t code s) = wake_list (map snd woken) (?d\<lparr>WAIT_QUEUES := wq\<rparr>)"
    using w(3) wake_all_eq[OF d] par by (simp add: kill_def find_task_eq Let_def)
  have "(key, t) \<in> set wq" using drain_sets(2)[OF d] t key by simp
  moreover have "t \<notin> set (map snd woken)"
  proof
    assume "t \<in> set (map snd woken)"
    then have "(?k, t) \<in> set (WAIT_QUEUES s)" using drain_sets(1)[OF d] by auto
    moreover have "inj_on snd (set (WAIT_QUEUES s))"
      using inv by (simp add: sched_inv_def placed_def distinct_map)
    ultimately show False using t key by (metis inj_onD fst_conv snd_conv)
  qed
  ultimately show ?thesis unfolding k using ob by (simp add: wake_list_props state_set_state objs_set_exit_code)
qed

text \<open>C12. \<open>kill\<close> does not take its target out of the wait queues: a task killed while it is parked under a
  key is dead at first, but the next wake-up of that key makes it ready and puts it back on the run queue.\<close>

theorem killed_waiter_is_revived:
  assumes "sched_inv P s" and "(key, t) \<in> set (WAIT_QUEUES s)" and "key \<noteq> wait_key (t_parent (task_of s t))"
    and "CURRENT s \<noteq> Some t" and "t \<noteq> IDLE"
  shows "state (snd (kill t code s)) t = Dead
    \<and> state (wake_all key (snd (kill t code s))) t = Ready \<and> t \<in> set (RUN_QUEUE (wake_all key (snd (kill t code s))))"
proof -
  note k = kill_waiter[OF assms(1-3), of code]
  have "sched_inv P (snd (kill t code s))" using kill_inv[OF assms(1,4,5)] by blast
  from wake_all_outcome[OF this, of key] obtain woken where w:
    "RUN_QUEUE (wake_all key (snd (kill t code s))) = RUN_QUEUE (snd (kill t code s)) @ woken"
    "mset woken = mset (map snd (filter (\<lambda>w. fst w = key) (WAIT_QUEUES (snd (kill t code s)))))"
    "\<forall>u. state (wake_all key (snd (kill t code s))) u = (if u \<in> set woken then Ready else state (snd (kill t code s)) u)"
    by blast
  have "t \<in> set woken" using k mset_eq_setD[OF w(2)] by force
  then show ?thesis using k w by simp
qed

theorem killed_waiter_is_revived_witness:
  "state (snd (kill 2 9 demo_parked)) 2 = Dead
    \<and> state (wake_all 7 (snd (kill 2 9 demo_parked))) 2 = Ready \<and> 2 \<in> set (RUN_QUEUE (wake_all 7 (snd (kill 2 9 demo_parked))))"
proof -
  have "wait_key 1 \<noteq> 7" by code_simp
  then show ?thesis
    by (intro killed_waiter_is_revived[OF demo_parked_inv]) (simp_all add: demo_parked_fields IDLE_def)
qed

end
