(* ===== verification/Ipc_Correct.thy ===== *)
theory Ipc_Correct
  imports Ipc Sched_Correct
begin

text \<open>
  Properties of message passing. The central invariant counts every capability in the system: those in
  the tables of the tasks, those in queued messages, and the multiset \<open>F\<close> of those a system call
  has in its hands at that moment. At most one of them carries the receive right of a given port, and
  every port that is referred to exists. Each elementary operation moves capabilities between the
  three places; the system calls are sequences of such moves.
\<close>

section \<open>The capability table keeps the contract of a handle table\<close>

definition cap_table_ok :: "CapTable \<Rightarrow> bool" where
  "cap_table_ok t \<longleftrightarrow> distinct (keys (cap_slots t)) \<and> (\<forall>k \<in> set (keys (cap_slots t)). k < cap_next t)"

definition cap_contents :: "CapTable \<Rightarrow> Cap multiset" where
  "cap_contents t = vals (cap_slots t)"

interpretation capt: handle_table cap_table_ok cap_next cap_get cap_contents cap_install cap_remove
proof unfold_locales
  fix t i v
  assume "cap_table_ok t" "cap_get t i = Some v"
  moreover from this have "i \<in> set (keys (cap_slots t))" by (metis cap_get_def map_of_iff_keys option.distinct(1))
  ultimately show "i < cap_next t \<and> v \<in># cap_contents t"
    by (auto simp: cap_table_ok_def cap_get_def cap_contents_def map_of_in_vals)
next
  fix t v i t'
  assume ok: "cap_table_ok t" and i: "cap_install v t = Some (i, t')"
  have new: "cap_next t \<notin> set (keys (cap_slots t))" using ok by (auto simp: cap_table_ok_def)
  have t': "i = cap_next t" "t' = \<lparr>cap_slots = AList.update (cap_next t) v (cap_slots t), cap_next = cap_next t + 1\<rparr>"
    using i by (auto simp: cap_install_def Let_def checked_simps split: bind_splits)
  show "cap_table_ok t' \<and> i = cap_next t \<and> cap_next t' = cap_next t + 1 \<and> cap_get t' = (cap_get t)(i \<mapsto> v)
      \<and> cap_contents t' = add_mset v (cap_contents t)"
    using ok new by (auto simp: t' cap_table_ok_def cap_contents_def cap_get_def update_conv' fun_eq_iff)
next
  fix t :: CapTable and v
  assume "cap_next t + 1 < 2 ^ 31"
  then show "cap_install v t \<noteq> None" by (simp add: cap_install_def i32_succ_def Let_def)
next
  fix t i r t'
  assume ok: "cap_table_ok t" and r: "cap_remove i t = (r, t')"
  have t': "r = cap_get t i" "t' = t\<lparr>cap_slots := AList.delete i (cap_slots t)\<rparr>" using r by (auto simp: cap_remove_def cap_get_def)
  have "cap_contents t = cap_contents t' + (case r of None \<Rightarrow> {#} | Some v \<Rightarrow> {#v#})"
  proof (cases "cap_get t i")
    case None
    then have "AList.delete i (cap_slots t) = cap_slots t" by (simp add: cap_get_def map_of_eq_None_iff)
    then show ?thesis using None by (simp add: t' cap_contents_def)
  next
    case (Some v)
    then show ?thesis using vals_delete[of "cap_slots t" i v] ok by (simp add: t' cap_contents_def cap_get_def cap_table_ok_def)
  qed
  then show "cap_table_ok t' \<and> r = cap_get t i \<and> cap_next t' = cap_next t \<and> cap_get t' = (cap_get t)(i := None)
      \<and> cap_contents t = cap_contents t' + (case r of None \<Rightarrow> {#} | Some v \<Rightarrow> {#v#})"
    using ok by (auto simp: t' cap_table_ok_def cap_get_def delete_conv' fun_eq_iff)
qed

section \<open>All capabilities of a state\<close>

definition queue_caps :: "Message list \<Rightarrow> Cap multiset" where
  "queue_caps q = (\<Sum>m \<in># mset q. mset (m_caps m))"

definition all_caps :: "ipc \<Rightarrow> Cap multiset" where
  "all_caps s = (\<Sum>tb \<in># vals (caps s). cap_contents tb) + (\<Sum>q \<in># vals (ports s). queue_caps q)"

lemma queue_caps_simps [simp]:
  "queue_caps [] = {#}" "queue_caps (m # q) = mset (m_caps m) + queue_caps q"
  "queue_caps (q @ r) = queue_caps q + queue_caps r"
  by (simp_all add: queue_caps_def)

lemma mset_concat_caps: "mset (concat (map m_caps q)) = queue_caps q"
  by (induction q) simp_all

lemma mset_state_caps: "mset (state_caps s) = all_caps s"
proof -
  have "mset (concat (map (\<lambda>(t, tb). map snd (cap_slots tb)) al)) = (\<Sum>tb \<in># vals al. cap_contents tb)"
    for al :: "(TaskId \<times> CapTable) list"
    by (induction al) (auto simp: vals_def cap_contents_def)
  moreover have "mset (concat (map (\<lambda>(p, q). concat (map m_caps q)) al)) = (\<Sum>q \<in># vals al. queue_caps q)"
    for al :: "(Port \<times> Message list) list"
    by (induction al) (auto simp: vals_def mset_concat_caps)
  ultimately show ?thesis by (simp add: state_caps_def all_caps_def)
qed

lemma all_caps_cong: "caps s' = caps s \<Longrightarrow> ports s' = ports s \<Longrightarrow> all_caps s' = all_caps s"
  by (simp add: all_caps_def)

lemma all_caps_set_table:
  assumes "distinct (keys (caps s))"
  shows "all_caps (set_table t tb s) + cap_contents (table s t) = all_caps s + cap_contents tb"
proof (cases "map_of (caps s) t")
  case None
  then have "t \<notin> set (keys (caps s))" by (simp add: map_of_None_keys)
  then show ?thesis using None by (simp add: all_caps_def set_table_def table_def cap_table_new_def cap_contents_def)
next
  case (Some tb0)
  note v = vals_delete[OF assms Some] vals_update[OF assms Some, of tb]
  show ?thesis using Some by (simp add: all_caps_def set_table_def table_def v)
qed

lemma all_caps_set_queue:
  assumes "distinct (keys (ports s))"
  shows "all_caps (s\<lparr>ports := AList.update p q (ports s)\<rparr>) + queue_caps (queue s p) = all_caps s + queue_caps q"
proof (cases "map_of (ports s) p")
  case None
  then have "p \<notin> set (keys (ports s))" by (simp add: map_of_None_keys)
  then show ?thesis using None by (simp add: all_caps_def queue_def)
next
  case (Some q0)
  note v = vals_delete[OF assms Some] vals_update[OF assms Some, of q]
  show ?thesis using Some by (simp add: all_caps_def queue_def v)
qed

section \<open>Invariant\<close>

definition ipc_wf :: "ipc \<Rightarrow> bool" where
  "ipc_wf s \<longleftrightarrow> distinct (keys (caps s)) \<and> (\<forall>t. cap_table_ok (table s t))
     \<and> distinct (keys (ports s)) \<and> (\<forall>p. length (queue s p) \<le> MAX_IN_FLIGHT)"

definition receives :: "Port \<Rightarrow> Cap \<Rightarrow> bool" where
  "receives p c \<longleftrightarrow> object c = PortObj p \<and> rights_contain (rights c) R_RECV"

definition refs_ok :: "Port set \<Rightarrow> Cap multiset \<Rightarrow> bool" where
  "refs_ok ps cs \<longleftrightarrow> (\<forall>c \<in># cs. \<forall>p. object c = PortObj p \<longrightarrow> p \<in> ps)"

definition unique_recv :: "Cap multiset \<Rightarrow> bool" where
  "unique_recv cs \<longleftrightarrow> (\<forall>p. size (filter_mset (receives p) cs) \<le> 1)"

definition ipc_inv :: "ipc \<Rightarrow> Cap multiset \<Rightarrow> bool" where
  "ipc_inv s F \<longleftrightarrow> ipc_wf s \<and> refs_ok (set (keys (ports s))) (all_caps s + F)
     \<and> snd ` set (REGISTRY s) \<subseteq> set (keys (ports s)) \<and> unique_recv (all_caps s + F)"

lemma refs_ok_mono: "refs_ok ps cs \<Longrightarrow> ds \<subseteq># cs \<Longrightarrow> ps \<subseteq> qs \<Longrightarrow> refs_ok qs ds"
  by (meson mset_subset_eqD refs_ok_def subset_iff)

lemma unique_recv_mono: "unique_recv cs \<Longrightarrow> ds \<subseteq># cs \<Longrightarrow> unique_recv ds"
  by (meson multiset_filter_mono order_trans size_mset_mono unique_recv_def)

text \<open>The rule every move is an instance of: the total does not grow.\<close>

lemma ipc_inv_move:
  assumes "ipc_inv s F" and "ipc_wf s'" and "all_caps s' + F' \<subseteq># all_caps s + F"
    and "set (keys (ports s)) \<subseteq> set (keys (ports s'))" and "REGISTRY s' = REGISTRY s"
  shows "ipc_inv s' F'"
  using assms by (auto simp: ipc_inv_def intro: refs_ok_mono unique_recv_mono)

lemma table_set_table [simp]: "table (set_table t tb s) u = (if u = t then tb else table s u)"
  by (simp add: table_def set_table_def update_conv')

lemma set_table_fields [simp]:
  "ports (set_table t tb s) = ports s" "REGISTRY (set_table t tb s) = REGISTRY s" "sc (set_table t tb s) = sc s"
  "vm (set_table t tb s) = vm s" "queue (set_table t tb s) p = queue s p" "keys (caps (set_table t tb s)) = keys (AList.update t tb (caps s))"
  by (simp_all add: set_table_def queue_def)

lemma ipc_wf_set_table: "ipc_wf s \<Longrightarrow> cap_table_ok tb \<Longrightarrow> ipc_wf (set_table t tb s)"
  by (simp add: ipc_wf_def)

lemma queue_update [simp]: "queue (s\<lparr>ports := AList.update p q (ports s)\<rparr>) r = (if r = p then q else queue s r)"
  by (simp add: queue_def update_conv')

lemma table_ports [simp]: "table (s\<lparr>ports := x\<rparr>) t = table s t"
  by (simp add: table_def)

lemma ipc_wf_set_queue: "ipc_wf s \<Longrightarrow> length q \<le> MAX_IN_FLIGHT \<Longrightarrow> ipc_wf (s\<lparr>ports := AList.update p q (ports s)\<rparr>)"
  by (simp add: ipc_wf_def)

lemma set_table_move:
  assumes "ipc_inv s F" and "cap_table_ok tb" and "cap_contents tb + F' \<subseteq># cap_contents (table s t) + F"
  shows "ipc_inv (set_table t tb s) F'"
proof (rule ipc_inv_move[OF assms(1)])
  have wf: "ipc_wf s" using assms(1) by (simp add: ipc_inv_def)
  then show "ipc_wf (set_table t tb s)" using assms(2) by (rule ipc_wf_set_table)
  have eq: "all_caps (set_table t tb s) + cap_contents (table s t) = all_caps s + cap_contents tb"
    using wf by (intro all_caps_set_table) (simp add: ipc_wf_def)
  have "all_caps (set_table t tb s) + F' + cap_contents (table s t) = all_caps s + (cap_contents tb + F')"
    using eq by (metis (no_types) add.assoc add.commute)
  also have "\<dots> \<subseteq># all_caps s + (cap_contents (table s t) + F)" using assms(3) by simp
  finally show "all_caps (set_table t tb s) + F' \<subseteq># all_caps s + F"
    by (metis add.assoc add.commute subset_mset.add_le_cancel_right)
qed simp_all

lemma set_queue_move:
  assumes "ipc_inv s F" and "length q \<le> MAX_IN_FLIGHT" and "queue_caps q + F' \<subseteq># queue_caps (queue s p) + F"
  shows "ipc_inv (s\<lparr>ports := AList.update p q (ports s)\<rparr>) F'"
proof (rule ipc_inv_move[OF assms(1)])
  let ?s = "s\<lparr>ports := AList.update p q (ports s)\<rparr>"
  have wf: "ipc_wf s" using assms(1) by (simp add: ipc_inv_def)
  then show "ipc_wf ?s" using assms(2) by (rule ipc_wf_set_queue)
  have eq: "all_caps ?s + queue_caps (queue s p) = all_caps s + queue_caps q"
    using wf by (intro all_caps_set_queue) (simp add: ipc_wf_def)
  have "all_caps ?s + F' + queue_caps (queue s p) = all_caps s + (queue_caps q + F')"
    using eq by (metis (no_types) add.assoc add.commute)
  also have "\<dots> \<subseteq># all_caps s + (queue_caps (queue s p) + F)" using assms(3) by simp
  finally show "all_caps ?s + F' \<subseteq># all_caps s + F"
    by (metis add.assoc add.commute subset_mset.add_le_cancel_right)
qed auto


section \<open>The moves\<close>

lemma ipc_inv_cong:
  assumes "ipc_inv s F" and "caps s' = caps s" "ports s' = ports s" "REGISTRY s' = REGISTRY s"
  shows "ipc_inv s' F"
proof -
  have "table s' = table s" "queue s' = queue s" using assms by (auto simp: table_def queue_def fun_eq_iff)
  then show ?thesis using assms all_caps_cong[of s' s] by (simp add: ipc_inv_def ipc_wf_def)
qed

lemma ipc_inv_table_ok: "ipc_inv s F \<Longrightarrow> cap_table_ok (table s t)"
  by (simp add: ipc_inv_def ipc_wf_def)

lemma ipc_inv_forget: "ipc_inv s (F + G) \<Longrightarrow> ipc_inv s F"
  by (rule ipc_inv_move[of s "F + G"]) (simp_all add: ipc_inv_def)

lemma free_pages_fields:
  "free_pages ps s = Some s' \<Longrightarrow> caps s' = caps s \<and> ports s' = ports s \<and> REGISTRY s' = REGISTRY s \<and> sc s' = sc s"
  by (auto simp: free_pages_def split: bind_splits)

lemma user_write_fields:
  "user_write P s va bs = Some s' \<Longrightarrow> caps s' = caps s \<and> ports s' = ports s \<and> REGISTRY s' = REGISTRY s \<and> sc s' = sc s"
  by (auto simp: user_write_def split: bind_splits)

lemma install_move:
  assumes "ipc_inv s (add_mset c F)" and "cap_install c (table s t) = Some (i, tb)"
  shows "ipc_inv (set_table t tb s) F"
  using capt.install_law[OF ipc_inv_table_ok[OF assms(1)] assms(2)] by (intro set_table_move[OF assms(1)]) auto

lemma install_each_move:
  assumes "ipc_inv s (mset cs + F)" and "install_each cap_install cs (table s t) = Some (is, tb)"
  shows "ipc_inv (set_table t tb s) F"
  using capt.install_each_law[OF ipc_inv_table_ok[OF assms(1)] assms(2)]
  by (intro set_table_move[OF assms(1)]) (auto simp: add_ac)

lemma remove_each_move:
  assumes "ipc_inv s F" and "remove_each cap_remove is (table s t) = (cs, tb)"
  shows "ipc_inv (set_table t tb s) (mset cs + F)"
  using capt.remove_each_law[OF ipc_inv_table_ok[OF assms(1)] assms(2)]
  by (intro set_table_move[OF assms(1)]) (auto simp: add_ac)

lemma remove_move:
  assumes "ipc_inv s F" and "cap_remove i (table s t) = (Some c, tb)"
  shows "ipc_inv (set_table t tb s) (add_mset c F)"
  using capt.remove_law[OF ipc_inv_table_ok[OF assms(1)] assms(2)]
  by (intro set_table_move[OF assms(1)]) auto

lemma push_move:
  assumes "ipc_inv s (mset (m_caps m) + F)" and "try_push p m s = Inr s'"
  shows "ipc_inv s' F"
proof -
  have s': "length (queue s p) < MAX_IN_FLIGHT" "s' = s\<lparr>ports := AList.update p (queue s p @ [m]) (ports s)\<rparr>"
    using assms(2) by (auto simp: try_push_def split: if_splits)
  show ?thesis unfolding s'(2) using s'(1) by (intro set_queue_move[OF assms(1)]) (simp_all add: add_ac)
qed

lemma pop_move:
  assumes "ipc_inv s F" and "port_pop p s = Some (m, s')"
  shows "ipc_inv s' (mset (m_caps m) + F)"
proof -
  obtain q where q: "queue s p = m # q" "s' = s\<lparr>ports := AList.update p q (ports s)\<rparr>"
    using assms(2) by (auto simp: port_pop_def split: list.splits)
  have "length (queue s p) \<le> MAX_IN_FLIGHT" using assms(1) by (simp add: ipc_inv_def ipc_wf_def)
  then show ?thesis unfolding q(2) using q(1) by (intro set_queue_move[OF assms(1)]) (simp_all add: add_ac)
qed

subsection \<open>Destructors\<close>

lemma all_caps_delete_port:
  assumes "distinct (keys (ports s))" and "map_of (ports s) p = Some q"
  shows "all_caps s = all_caps (s\<lparr>ports := AList.delete p (ports s)\<rparr>) + queue_caps q"
  using vals_delete[OF assms] by (simp add: all_caps_def add_ac)

lemma port_not_held:
  assumes "\<not> port_held s cs p"
  shows "\<forall>c \<in># all_caps s + mset cs. object c \<noteq> PortObj p" and "p \<notin> snd ` set (REGISTRY s)"
proof -
  have "\<forall>c \<in> set (state_caps s @ cs). object c \<noteq> PortObj p" using assms by (auto simp: port_held_def list_ex_iff)
  moreover have "set_mset (all_caps s + mset cs) = set (state_caps s @ cs)" by (simp flip: mset_state_caps)
  ultimately show "\<forall>c \<in># all_caps s + mset cs. object c \<noteq> PortObj p" by simp
  show "p \<notin> snd ` set (REGISTRY s)" using assms by (auto simp: port_held_def list_ex_iff)
qed

definition items_caps :: "drop_item list \<Rightarrow> Cap multiset" where
  "items_caps ws = mset (concat (map item_caps ws))"

lemma items_caps_simps [simp]:
  "items_caps [] = {#}" "items_caps (DropMsg m # ws) = mset (m_caps m) + items_caps ws"
  "items_caps (DropCap c # ws) = add_mset c (items_caps ws)"
  "items_caps (map DropCap cs @ ws) = mset cs + items_caps ws"
  "items_caps (map DropMsg q @ ws) = queue_caps q + items_caps ws"
proof -
  show "items_caps (map DropCap cs @ ws) = mset cs + items_caps ws" by (induction cs) (simp_all add: items_caps_def)
  show "items_caps (map DropMsg q @ ws) = queue_caps q + items_caps ws"
    by (induction q) (simp_all add: items_caps_def add_ac)
qed (simp_all add: items_caps_def)

lemma drop_port_move:
  assumes inv: "ipc_inv s (add_mset c (items_caps ws))" and p: "as_port c = Some p" "map_of (ports s) p = Some q"
    and un: "\<not> port_held s (concat (map item_caps ws)) p"
  shows "ipc_inv (s\<lparr>ports := AList.delete p (ports s)\<rparr>) (queue_caps q + items_caps ws)"
proof -
  let ?s = "s\<lparr>ports := AList.delete p (ports s)\<rparr>"
  have wf: "ipc_wf s" using inv by (simp add: ipc_inv_def)
  have tot: "all_caps s = all_caps ?s + queue_caps q" using wf p(2) by (intro all_caps_delete_port) (auto simp: ipc_wf_def)
  have "queue ?s r = (if r = p then [] else queue s r)" for r by (simp add: queue_def delete_conv')
  then have "ipc_wf ?s" using wf by (simp add: ipc_wf_def)
  moreover have "refs_ok (set (keys (ports ?s))) (all_caps ?s + (queue_caps q + items_caps ws))"
  proof -
    have eq: "all_caps ?s + (queue_caps q + items_caps ws) = all_caps s + items_caps ws" by (simp add: tot add_ac)
    have "\<forall>c \<in># all_caps s + items_caps ws. object c \<noteq> PortObj p" using port_not_held(1)[OF un] by (simp add: items_caps_def)
    then show ?thesis using inv unfolding eq by (auto simp: ipc_inv_def refs_ok_def)
  qed
  moreover have "snd ` set (REGISTRY ?s) \<subseteq> set (keys (ports ?s))"
    using inv port_not_held(2)[OF un] by (auto simp: ipc_inv_def)
  moreover have "unique_recv (all_caps ?s + (queue_caps q + items_caps ws))"
    using inv by (auto simp: ipc_inv_def tot add_ac intro: unique_recv_mono)
  ultimately show ?thesis by (simp add: ipc_inv_def)
qed

lemma drop_all_inv:
  assumes "drop_all ws s = Some s'" and "ipc_inv s (items_caps ws)"
  shows "ipc_inv s' {#} \<and> caps s' = caps s \<and> REGISTRY s' = REGISTRY s \<and> sc s' = sc s"
  using assms
proof (induction ws s arbitrary: s' rule: drop_all.induct)
  case (1 s)
  then show ?case by simp
next
  case (2 m ws s)
  then obtain s1 where s1: "free_pages (m_pages m) s = Some s1" by (cases "free_pages (m_pages m) s") auto
  have "ipc_inv s1 (items_caps (map DropCap (m_caps m) @ ws))"
    using 2(3) free_pages_fields[OF s1] by (auto intro: ipc_inv_cong)
  then show ?case using 2(1)[OF s1] 2(2) s1 free_pages_fields[OF s1] by simp
next
  case (3 c ws s)
  have less: "ipc_inv s (items_caps ws)" using "3.prems"(2) ipc_inv_forget[of s "items_caps ws" "{#c#}"] by simp
  show ?case
  proof (cases "\<exists>p q. as_port c = Some p \<and> map_of (ports s) p = Some q \<and> \<not> port_held s (concat (map item_caps ws)) p")
    case True
    then obtain p q where p: "as_port c = Some p" "map_of (ports s) p = Some q" "\<not> port_held s (concat (map item_caps ws)) p"
      by blast
    have "ipc_inv (s\<lparr>ports := AList.delete p (ports s)\<rparr>) (items_caps (map DropMsg q @ ws))"
      using drop_port_move[OF _ p] "3.prems"(2) by simp
    then show ?thesis using 3(4)[OF p] p "3.prems"(1) by simp
  next
    case False
    then have "drop_all (DropCap c # ws) s = drop_all ws s" by (auto split: option.splits)
    then show ?thesis using 3(1-3) "3.prems"(1) less False by (cases "as_port c"; cases "map_of (ports s) (the (as_port c))") auto
  qed
qed


section \<open>Every system call keeps the invariant\<close>

lemma add_port_inv:
  assumes inv: "ipc_inv s {#}" and new: "addr \<notin> set (keys (ports s))"
  shows "ipc_inv (port_new addr s) {#cap_port addr r#}"
proof -
  let ?s = "port_new addr s" and ?c = "cap_port addr r"
  have q: "queue s addr = []" using new by (simp add: queue_def map_of_None_keys split: option.splits)
      (metis map_of_None_keys option.distinct(1))
  have wf: "ipc_wf s" using inv by (simp add: ipc_inv_def)
  have "all_caps ?s = all_caps s"
    using all_caps_set_queue[of s addr "[]"] wf q by (simp add: port_new_def ipc_wf_def)
  moreover have "ipc_wf ?s" using ipc_wf_set_queue[OF wf, of "[]" addr] by (simp add: port_new_def)
  moreover have "refs_ok (set (keys (ports ?s))) (all_caps s + {#?c#})"
    using inv by (auto simp: ipc_inv_def refs_ok_def port_new_def cap_port_def)
  moreover have "unique_recv (all_caps s + {#?c#})"
  proof -
    have none: "filter_mset (receives addr) (all_caps s) = {#}"
    proof -
      have "\<forall>c \<in># all_caps s. \<not> receives addr c" using inv new by (auto simp: ipc_inv_def refs_ok_def receives_def)
      then have "set_mset (filter_mset (receives addr) (all_caps s)) = {}" by auto
      then show ?thesis by (simp only: set_mset_eq_empty_iff)
    qed
    have "size (filter_mset (receives p) (all_caps s + {#?c#})) \<le> 1" for p
    proof (cases "p = addr")
      case True
      have "filter_mset (receives addr) (all_caps s + {#?c#}) = filter_mset (receives addr) {#?c#}"
        by (simp only: filter_union_mset none add_0_left)
      then show ?thesis using True by (metis size_filter_mset_lesseq size_single)
    next
      case False
      then have "\<not> receives p ?c" by (simp add: receives_def cap_port_def)
      then show ?thesis using inv by (simp add: ipc_inv_def unique_recv_def)
    qed
    then show ?thesis by (simp add: unique_recv_def)
  qed
  moreover have "snd ` set (REGISTRY ?s) \<subseteq> set (keys (ports ?s))" using inv by (auto simp: ipc_inv_def port_new_def)
  ultimately show ?thesis by (simp add: ipc_inv_def)
qed

lemma port_create_inv:
  assumes "ipc_inv s {#}" and "addr \<notin> set (keys (ports s))" and "sys_port_create addr s = Some (r, s')"
  shows "ipc_inv s' {#}"
  using assms(3) add_port_inv[OF assms(1,2)] assms(1)
  by (auto simp: sys_port_create_def Let_def split: option.splits bind_splits intro: install_move)

lemma weak_cap_inv:
  assumes "ipc_inv s F" and "p \<in> set (keys (ports s))" and "\<not> rights_contain r R_RECV"
  shows "ipc_inv s (add_mset (cap_port p r) F)"
  using assms by (auto simp: ipc_inv_def refs_ok_def unique_recv_def receives_def cap_port_def)

lemma dup_no_recv: "\<not> rights_contain (dup_rights r m) R_RECV"
proof
  assume "rights_contain (dup_rights r m) R_RECV"
  then have "bit (dup_rights r m AND R_RECV) 1 = bit R_RECV 1" by (simp add: rights_contain_def)
  then show False by (simp add: dup_rights_def R_RECV_def bit_simps)
qed

lemma held_cap_port:
  assumes inv: "ipc_inv s F" and "cap_get (table s t) i = Some c" "as_port c = Some p"
  shows "p \<in> set (keys (ports s))"
proof -
  have "c \<in># cap_contents (table s t)" using capt.get_below[OF ipc_inv_table_ok[OF inv] assms(2)] by simp
  moreover have "cap_contents (table s t) \<subseteq># all_caps s"
  proof (cases "map_of (caps s) t")
    case None
    then show ?thesis by (simp add: table_def cap_contents_def cap_table_new_def)
  next
    case (Some tb)
    have "distinct (keys (caps s))" using inv by (simp add: ipc_inv_def ipc_wf_def)
    from vals_delete[OF this Some] show ?thesis using Some by (simp add: all_caps_def table_def)
  qed
  ultimately have "c \<in># all_caps s" by (meson mset_subset_eqD)
  then show ?thesis using inv assms(3)
    by (auto simp: ipc_inv_def refs_ok_def as_port_def split: CapObject.splits)
qed

lemma cap_dup_inv:
  assumes "ipc_inv s {#}" and "sys_cap_dup i m s = Some (r, s')"
  shows "ipc_inv s' {#}"
proof -
  consider "s' = s" | t c p where "current (sc s) = Some t" "cap_get (table s t) i = Some c" "as_port c = Some p"
    "rights_contain (rights c) R_DUP"
    using assms(2) by (auto simp: sys_cap_dup_def split: option.splits if_splits)
  then show ?thesis
  proof cases
    case 2
    then obtain j tb where tb: "cap_install (cap_port p (dup_rights (rights c) m)) (table s t) = Some (j, tb)"
      and s': "s' = set_table t tb s"
      using assms(2) by (auto simp: sys_cap_dup_def split: bind_splits)
    show ?thesis
      unfolding s'
      by (rule install_move[OF weak_cap_inv[OF assms(1) held_cap_port[OF assms(1) 2(2,3)] dup_no_recv] tb])
  qed (use assms(1) in simp)
qed

lemma cap_drop_inv:
  assumes "ipc_inv s {#}" and "sys_cap_drop i s = Some (r, s')"
  shows "ipc_inv s' {#}"
proof -
  consider "s' = s" | t c tb where "cap_remove i (table s t) = (Some c, tb)" "drop_all [DropCap c] (set_table t tb s) = Some s'"
    using assms(2) by (auto simp: sys_cap_drop_def Let_def split: option.splits prod.splits bind_splits)
  then show ?thesis
  proof cases
    case 2
    have "ipc_inv (set_table t tb s) (items_caps [DropCap c])" using remove_move[OF assms(1) 2(1)] by simp
    then show ?thesis using drop_all_inv[OF 2(2)] by blast
  qed (use assms(1) in simp)
qed

lemma collect_inv:
  assumes "ipc_inv s {#}" and "collect_caps P t m s = Some (Inr (xs, s'))"
  shows "ipc_inv s' (mset xs)"
proof -
  have "xs = [] \<and> s' = s \<or> (\<exists>ids tb. remove_each cap_remove ids (table s t) = (xs, tb) \<and> s' = set_table t tb s)"
    using assms(2) by (simp add: collect_caps_def Let_def split: if_splits bind_splits prod.splits) blast
  then show ?thesis using assms(1) remove_each_move[OF assms(1)] by force
qed

lemma restore_inv:
  assumes "ipc_inv s (mset xs)" and "restore_caps t xs s = Some s'"
  shows "ipc_inv s' {#}"
  using assms install_each_move[of s xs "{#}" t] by (auto simp: restore_caps_def split: bind_splits)

lemma steal_payload_inv:
  assumes inv: "ipc_inv s (mset xs)" and "steal_payload P t m xs s = Some (r, s')"
  shows "case r of Inl _ \<Rightarrow> ipc_inv s' {#} | Inr _ \<Rightarrow> ipc_inv s' (mset xs)"
proof -
  have vm: "ipc_inv (s\<lparr>vm := v\<rparr>) (mset xs)" for v by (rule ipc_inv_cong[OF inv]) simp_all
  have drop: "ipc_inv s1 {#}" if "drop_all (map DropCap xs) s = Some s1" for s1
    using drop_all_inv[OF that] inv items_caps_simps(4)[of xs "[]"] by simp
  show ?thesis
    using assms(2) inv vm drop restore_inv[OF inv] restore_inv[OF vm]
    by (auto simp: steal_payload_def split: if_splits option.splits bind_splits sum.splits)
qed

lemma post_message_inv:
  assumes inv: "ipc_inv s (mset (m_caps m))" and "post_message p m s = Some (r, s')"
  shows "ipc_inv s' {#}"
proof (cases "try_push p m s")
  case (Inl m')
  then have "m' = m" by (auto simp: try_push_def split: if_splits)
  then have "drop_all [DropMsg m] s = Some s'" using Inl assms(2) by (auto simp: post_message_def split: bind_splits)
  then show ?thesis using drop_all_inv inv by fastforce
next
  case (Inr s1)
  have "ipc_inv s1 {#}" using push_move[OF _ Inr, of "{#}"] inv by simp
  then show ?thesis using Inr assms(2) by (auto simp: post_message_def intro: ipc_inv_cong)
qed

lemma send_inv:
  assumes inv: "ipc_inv s {#}" and r: "sys_send P i ptr s = Some (r, s')"
  shows "ipc_inv s' {#}"
proof -
  consider "s' = s" | t m xs s1 r2 s2 p where "collect_caps P t m s = Some (Inr (xs, s1))"
      "steal_payload P t m xs s1 = Some (r2, s2)"
      "case r2 of Inl e \<Rightarrow> s' = s2
       | Inr pl \<Rightarrow> post_message p \<lparr>m_regs = s_regs m, m_caps = xs, m_pages = fst pl, m_len = snd pl\<rparr> s2 = Some (r, s')"
    using r by (auto simp: sys_send_def Let_def split: if_splits option.splits bind_splits sum.splits)
  then show ?thesis
  proof cases
    case 2
    note st = steal_payload_inv[OF collect_inv[OF inv 2(1)] 2(2)]
    show ?thesis
    proof (cases r2)
      case (Inl e)
      then show ?thesis using st 2(3) by simp
    next
      case (Inr pl)
      then show ?thesis using st 2(3) post_message_inv[of s2 "\<lparr>m_regs = s_regs m, m_caps = xs, m_pages = fst pl, m_len = snd pl\<rparr>" p r s'] by simp
    qed
  qed (use inv in simp)
qed


lemma install_out_inv:
  assumes "ipc_inv s (mset cs)" and "install_out P t out cs s = Some s'"
  shows "ipc_inv s' {#}"
  using assms
proof (induction cs arbitrary: s out)
  case (Cons c cs)
  obtain i tb s1 where i: "cap_install c (table s t) = Some (i, tb)"
    "user_write P (set_table t tb s) out (word_to_le 4 (word_of_int i :: u32)) = Some s1" "install_out P t (out + 4) cs s1 = Some s'"
    using Cons.prems(2) by (auto split: bind_splits)
  have "ipc_inv (set_table t tb s) (mset cs)" using install_move[OF _ i(1), of "mset cs"] Cons.prems(1) by simp
  then have "ipc_inv s1 (mset cs)" using user_write_fields[OF i(2)] by (auto intro: ipc_inv_cong)
  then show ?case using Cons.IH i(3) by blast
qed simp

lemma deliver_caps_inv:
  assumes inv: "ipc_inv s (mset (m_caps m))" and "deliver_caps P t m out s = Some (b, s')"
  shows "ipc_inv s' {#}"
proof -
  have "drop_all [DropMsg m] s = Some s' \<or> install_out P t (r_caps_out out) (m_caps m) s = Some s' \<or> m_caps m = [] \<and> s' = s"
    using assms(2) by (auto simp: deliver_caps_def split: if_splits bind_splits)
  then show ?thesis using install_out_inv[OF inv] drop_all_inv[of "[DropMsg m]" s s'] inv by auto
qed

lemma deliver_pages_fields:
  assumes "deliver_pages P t m out s = Some (r, s')"
  shows "caps s' = caps s \<and> ports s' = ports s \<and> REGISTRY s' = REGISTRY s"
  using assms free_pages_fields
  by (fastforce simp: deliver_pages_def split: if_splits option.splits bind_splits sum.splits)

lemma recv_message_parts:
  assumes "recv_message P t m ptr s = Some (r, s')"
  shows "\<exists>out b s1. deliver_caps P t m out s = Some (b, s1) \<and>
    (if \<not> b then r = E2BIG \<and> s' = s1
     else \<exists>q s2. deliver_pages P t m out s1 = Some (q, s2) \<and>
       (case q of Inl e \<Rightarrow> r = e \<and> s' = s2 | Inr out' \<Rightarrow> r = 0 \<and> user_write P s2 ptr (encode_recv out') = Some s'))"
proof -
  obtain bs where bs: "user_read P s ptr 88 = Some bs" using assms by (auto simp: recv_message_def split: bind_splits)
  define out where "out = (decode_recv bs)\<lparr>r_regs := m_regs m, r_ncaps := length (m_caps m)\<rparr>"
  have body: "do { (fits, s1) \<leftarrow> deliver_caps P t m out s;
      if \<not> fits then Some (E2BIG, s1)
      else do { (r, s2) \<leftarrow> deliver_pages P t m out s1;
        (case r of Inl e \<Rightarrow> Some (e, s2)
         | Inr out' \<Rightarrow> do { s3 \<leftarrow> user_write P s2 ptr (encode_recv out'); Some (0, s3) }) } } = Some (r, s')"
    using assms bs unfolding out_def by (simp add: recv_message_def Let_def)
  then obtain b s1 where s1: "deliver_caps P t m out s = Some (b, s1)" by (auto split: bind_splits)
  show ?thesis
  proof (cases b)
    case False
    then show ?thesis using body s1 by (intro exI[of _ out] exI[of _ b] exI[of _ s1]) simp
  next
    case True
    then obtain q s2 where s2: "deliver_pages P t m out s1 = Some (q, s2)" using body s1 by (auto split: bind_splits)
    have "case q of Inl e \<Rightarrow> r = e \<and> s' = s2 | Inr out' \<Rightarrow> r = 0 \<and> user_write P s2 ptr (encode_recv out') = Some s'"
      using body s1 s2 True by (cases q) (auto split: bind_splits)
    then show ?thesis using s1 s2 True by (intro exI[of _ out] exI[of _ b] exI[of _ s1]) simp
  qed
qed

lemma recv_message_inv:
  assumes inv: "ipc_inv s (mset (m_caps m))" and r: "recv_message P t m ptr s = Some (r, s')"
  shows "ipc_inv s' {#}"
proof -
  obtain out b s1 where s1: "deliver_caps P t m out s = Some (b, s1)"
    and rest: "if \<not> b then r = E2BIG \<and> s' = s1
     else \<exists>q s2. deliver_pages P t m out s1 = Some (q, s2) \<and>
       (case q of Inl e \<Rightarrow> r = e \<and> s' = s2 | Inr out' \<Rightarrow> r = 0 \<and> user_write P s2 ptr (encode_recv out') = Some s')"
    using recv_message_parts[OF r] by blast
  have i1: "ipc_inv s1 {#}" by (rule deliver_caps_inv[OF inv s1])
  show ?thesis
  proof (cases b)
    case False
    then show ?thesis using rest i1 by simp
  next
    case True
    then obtain q s2 where s2: "deliver_pages P t m out s1 = Some (q, s2)"
      "case q of Inl e \<Rightarrow> r = e \<and> s' = s2 | Inr out' \<Rightarrow> r = 0 \<and> user_write P s2 ptr (encode_recv out') = Some s'"
      using rest by auto
    have i2: "ipc_inv s2 {#}" using i1 deliver_pages_fields[OF s2(1)] by (auto intro: ipc_inv_cong)
    show ?thesis
    proof (cases q)
      case (Inr out')
      then show ?thesis using i2 s2(2) user_write_fields[of P s2 ptr "encode_recv out'" s'] by (auto intro: ipc_inv_cong)
    qed (use i2 s2(2) in simp)
  qed
qed

lemma recv_pass_inv:
  assumes inv: "ipc_inv s {#}" and "recv_pass P t p ptr s = Some (r, s')"
  shows "ipc_inv s' {#}"
proof (cases "port_pop p s")
  case None
  then show ?thesis using assms(2) inv by (auto simp: recv_pass_def split: bind_splits intro: ipc_inv_cong)
next
  case (Some ms)
  obtain m s1 where ms: "ms = (m, s1)" by fastforce
  have "ipc_inv s1 (mset (m_caps m))" using pop_move[OF inv] Some ms by fastforce
  then show ?thesis using Some ms assms(2) recv_message_inv by (auto simp: recv_pass_def split: bind_splits)
qed

lemma recv_inv:
  assumes inv: "ipc_inv s {#}" and "sys_recv P i ptr s = Some (r, s')"
  shows "ipc_inv s' {#}"
  using assms(2) inv recv_pass_inv[OF inv] by (auto simp: sys_recv_def split: if_splits option.splits)

lemma publish_inv:
  assumes "ipc_inv s F" and "p \<in> set (keys (ports s))"
  shows "ipc_inv (snd (publish name p s)) F"
proof (cases "map_of (REGISTRY s) name")
  case None
  then have "name \<notin> set (keys (REGISTRY s))" by (simp add: map_of_None_keys)
  then have r: "AList.update name p (REGISTRY s) = REGISTRY s @ [(name, p)]" by (rule update_new)
  let ?s = "s\<lparr>REGISTRY := AList.update name p (REGISTRY s)\<rparr>"
  have "table ?s = table s" "queue ?s = queue s" by (auto simp: table_def queue_def fun_eq_iff)
  then have "ipc_inv ?s F" using assms all_caps_cong[of ?s s] by (simp add: ipc_inv_def ipc_wf_def r)
  then show ?thesis using None by (simp add: publish_def)
qed (use assms(1) in \<open>simp add: publish_def\<close>)

lemma send_right_only: "\<not> rights_contain R_SEND R_RECV"
  by (simp add: rights_contain_def R_SEND_def R_RECV_def)

lemma name_inv:
  assumes inv: "ipc_inv s {#}" and r: "sys_name P opc np nl i s = Some (r, s')"
  shows "ipc_inv s' {#}"
proof -
  have "s' = s \<or> (\<exists>t c p name. cap_get (table s t) i = Some c \<and> as_port c = Some p \<and> s' = snd (publish name p s))
      \<or> (\<exists>t p name. current (sc s) = Some t \<and> registry_lookup name s = Some p \<and> opc = IPC_NAME_LOOKUP
           \<and> user_read P s np nl = Some name)"
    using r by (simp add: sys_name_def split: if_splits option.splits bind_splits prod.splits) (metis snd_conv)+
  then consider "s' = s" | t c p name where "cap_get (table s t) i = Some c" "as_port c = Some p" "s' = snd (publish name p s)"
    | t p name where "current (sc s) = Some t" "registry_lookup name s = Some p" "opc = IPC_NAME_LOOKUP"
      "user_read P s np nl = Some name" by blast
  then show ?thesis
  proof cases
    case (2 t c p name)
    show ?thesis unfolding 2(3) by (rule publish_inv[OF inv held_cap_port[OF inv 2(1,2)]])
  next
    case (3 t p name)
    have "p \<in> set (keys (ports s))"
      using inv 3(2) by (force simp: ipc_inv_def registry_lookup_def dest: map_of_SomeD)
    note w = weak_cap_inv[OF inv this send_right_only]
    have "s' = s \<or> (\<exists>j tb. cap_install (cap_port p R_SEND) (table s t) = Some (j, tb) \<and> s' = set_table t tb s)"
      using r 3 by (auto simp: sys_name_def IPC_NAME_LOOKUP_def IPC_NAME_PUBLISH_def split: if_splits bind_splits)
    then show ?thesis using inv install_move[OF w] by blast
  qed (use inv in simp)
qed


section \<open>Steps and reachable states\<close>

text \<open>\<open>step_kernel\<close> stands for everything else the kernel does: it may change the scheduler and the
  memory in any way, so that the system calls interleave with anything. \<open>step_spawn_caps\<close> is the table
  of a new task, empty or with the registrar capability.\<close>

inductive ipc_step :: "x86_api \<Rightarrow> ipc \<Rightarrow> ipc \<Rightarrow> bool" for P where
  step_port_create: "addr \<notin> set (keys (ports s)) \<Longrightarrow> sys_port_create addr s = Some (r, s') \<Longrightarrow> ipc_step P s s'"
| step_cap_drop: "sys_cap_drop i s = Some (r, s') \<Longrightarrow> ipc_step P s s'"
| step_cap_dup: "sys_cap_dup i msk s = Some (r, s') \<Longrightarrow> ipc_step P s s'"
| step_send: "sys_send P i ptr s = Some (r, s') \<Longrightarrow> ipc_step P s s'"
| step_recv: "sys_recv P i ptr s = Some (r', s') \<Longrightarrow> ipc_step P s s'"
| step_resume: "recv_pass P t p ptr s = Some (r', s') \<Longrightarrow> ipc_step P s s'"
| step_name: "sys_name P opc np nl i s = Some (r, s') \<Longrightarrow> ipc_step P s s'"
| step_kernel: "ipc_step P s (s\<lparr>vm := v, sc := q\<rparr>)"
| step_spawn_caps: "map_of (caps s) t = None \<Longrightarrow> set cs \<subseteq> {cap_registrar} \<Longrightarrow>
    install_each cap_install cs cap_table_new = Some (is, tb) \<Longrightarrow> ipc_step P s (set_table t tb s)"

inductive ipc_reach :: "x86_api \<Rightarrow> ipc \<Rightarrow> ipc \<Rightarrow> bool" for P s where
  ipc_refl: "ipc_reach P s s"
| ipc_trans: "ipc_reach P s s' \<Longrightarrow> ipc_step P s' s'' \<Longrightarrow> ipc_reach P s s''"

definition boot_ipc :: "vm_state \<Rightarrow> sched \<Rightarrow> ipc" where
  "boot_ipc v q = \<lparr>vm = v, sc = q, caps = [], ports = [], REGISTRY = []\<rparr>"

lemma cap_table_new_ok [simp]: "cap_table_ok cap_table_new" "cap_contents cap_table_new = {#}"
  by (simp_all add: cap_table_ok_def cap_table_new_def cap_contents_def)

lemma boot_ipc_inv: "ipc_inv (boot_ipc v q) {#}"
  using cap_table_new_ok
  by (simp add: boot_ipc_def ipc_inv_def ipc_wf_def all_caps_def refs_ok_def unique_recv_def table_def queue_def)

lemma spawn_caps_inv:
  assumes inv: "ipc_inv s {#}" and new: "map_of (caps s) t = None" and cs: "set cs \<subseteq> {cap_registrar}"
    and tb: "install_each cap_install cs cap_table_new = Some (is, tb)"
  shows "ipc_inv (set_table t tb s) {#}"
proof (rule set_table_move[where F = "mset cs"])
  have none: "\<forall>c \<in># mset cs. \<forall>p. object c \<noteq> PortObj p" using cs by (auto simp: cap_registrar_def)
  then have "\<forall>p. set_mset (filter_mset (receives p) (mset cs)) = {}" by (auto simp: receives_def)
  then have "filter_mset (receives p) (mset cs) = {#}" for p by (simp only: set_mset_eq_empty_iff)
  then have "filter_mset (receives p) (all_caps s + mset cs) = filter_mset (receives p) (all_caps s)" for p
    by (simp only: filter_union_mset add_0_right)
  then have "unique_recv (all_caps s + mset cs)" using inv by (simp add: ipc_inv_def unique_recv_def del: filter_union_mset)
  then show "ipc_inv s (mset cs)" using inv none by (auto simp: ipc_inv_def refs_ok_def)
  have t0: "table s t = cap_table_new" using new by (simp add: table_def)
  note l = capt.install_each_law[OF cap_table_new_ok(1) tb]
  show "cap_table_ok tb" using l by blast
  show "cap_contents tb + {#} \<subseteq># cap_contents (table s t) + mset cs" using l by (simp add: t0)
qed

lemma ipc_step_inv:
  assumes "ipc_step P s s'" and "ipc_inv s {#}"
  shows "ipc_inv s' {#}"
  using assms
proof cases
  case (step_kernel v q)
  then show ?thesis by (intro ipc_inv_cong[OF assms(2)]) simp_all
next
  case (step_spawn_caps t cs "is" tb)
  then show ?thesis using spawn_caps_inv[OF assms(2)] by blast
next
  case (step_port_create addr r)
  then show ?thesis using port_create_inv[OF assms(2)] by blast
next
  case (step_cap_drop i r)
  then show ?thesis using cap_drop_inv[OF assms(2)] by blast
next
  case (step_cap_dup i msk r)
  then show ?thesis using cap_dup_inv[OF assms(2)] by blast
next
  case (step_send i ptr r)
  then show ?thesis using send_inv[OF assms(2)] by blast
next
  case (step_recv i ptr r)
  then show ?thesis using recv_inv[OF assms(2)] by blast
next
  case (step_resume t p ptr r)
  then show ?thesis using recv_pass_inv[OF assms(2)] by blast
next
  case (step_name opc np nl i r)
  then show ?thesis using name_inv[OF assms(2)] by blast
qed

lemma ipc_reach_inv: "ipc_reach P (boot_ipc v q) s \<Longrightarrow> ipc_inv s {#}"
  by (induction rule: ipc_reach.induct) (simp_all add: boot_ipc_inv ipc_step_inv)


section \<open>What a successful send and a successful receive do\<close>

lemma errno_nonzero [simp]:
  "EPERM \<noteq> 0" "EFAULT \<noteq> 0" "EINVAL \<noteq> 0" "EAGAIN \<noteq> 0" "ENOMEM \<noteq> 0" "EBADF \<noteq> 0" "E2BIG \<noteq> 0" "ENOENT \<noteq> 0" "EEXIST \<noteq> 0"
  by (simp_all add: errno_defs)

lemma collect_effect:
  assumes "ipc_inv s {#}" and "collect_caps P t m s = Some (Inr (xs, s'))"
  shows "ports s' = ports s \<and> all_caps s = all_caps s' + mset xs \<and> sc s' = sc s"
proof -
  have "xs = [] \<and> s' = s \<or> (\<exists>ids tb. remove_each cap_remove ids (table s t) = (xs, tb) \<and> s' = set_table t tb s)"
    using assms(2) by (simp add: collect_caps_def Let_def split: if_splits bind_splits prod.splits) blast
  moreover have "ports s' = ports s \<and> all_caps s = all_caps s' + mset xs \<and> sc s' = sc s"
    if r: "remove_each cap_remove ids (table s t) = (xs, tb)" and s': "s' = set_table t tb s" for ids tb
  proof -
    have "cap_contents (table s t) = cap_contents tb + mset xs"
      using capt.remove_each_law[OF ipc_inv_table_ok[OF assms(1)] r] by blast
    moreover have "all_caps s' + cap_contents (table s t) = all_caps s + cap_contents tb"
      unfolding s' using assms(1) by (intro all_caps_set_table) (simp add: ipc_inv_def ipc_wf_def)
    ultimately have "all_caps s' + mset xs + cap_contents tb = all_caps s + cap_contents tb" by (simp add: add_ac)
    then show ?thesis by (simp add: s')
  qed
  ultimately show ?thesis by auto
qed

lemma steal_payload_effect:
  assumes "steal_payload P t m xs s = Some (Inr pl, s')"
  shows "caps s' = caps s \<and> ports s' = ports s \<and> REGISTRY s' = REGISTRY s \<and> sc s' = sc s"
  using assms by (auto simp: steal_payload_def split: if_splits option.splits bind_splits sum.splits)

lemma steal_payload_error: "steal_payload P t m xs s = Some (Inl e, s') \<Longrightarrow> e \<noteq> 0"
  by (auto simp: steal_payload_def split: if_splits option.splits bind_splits sum.splits)

lemma collect_error: "collect_caps P t m s = Some (Inl e) \<Longrightarrow> e \<noteq> 0"
  by (auto simp: collect_caps_def Let_def split: if_splits bind_splits prod.splits)

lemma send_success:
  assumes "sys_send P i ptr s = Some (0, s')"
  obtains t c p bs xs s1 pl s2 where "user_read P s ptr 80 = Some bs" "current (sc s) = Some t" "cap_get (table s t) i = Some c"
    "rights_contain (rights c) R_SEND" "as_port c = Some p" "collect_caps P t (decode_send bs) s = Some (Inr (xs, s1))"
    "steal_payload P t (decode_send bs) xs s1 = Some (Inr pl, s2)"
    "post_message p \<lparr>m_regs = s_regs (decode_send bs), m_caps = xs, m_pages = fst pl, m_len = snd pl\<rparr> s2 = Some (0, s')"
proof -
  have "ptr \<noteq> 0" using assms by (cases "ptr = 0") (simp_all add: sys_send_def)
  then obtain bs where bs: "user_read P s ptr 80 = Some bs" using assms by (auto simp: sys_send_def split: bind_splits)
  have "\<exists>t c p. current (sc s) = Some t \<and> cap_get (table s t) i = Some c \<and> rights_contain (rights c) R_SEND \<and> as_port c = Some p
      \<and> \<not> MAX_CAPS < s_ncaps (decode_send bs)"
    using assms bs \<open>ptr \<noteq> 0\<close> by (simp add: sys_send_def Let_def split: if_splits option.splits)
  then obtain t c p where t: "current (sc s) = Some t" "cap_get (table s t) i = Some c" "rights_contain (rights c) R_SEND"
    "as_port c = Some p" "\<not> MAX_CAPS < s_ncaps (decode_send bs)" by blast
  let ?m = "decode_send bs"
  have body: "do { r \<leftarrow> collect_caps P t ?m s;
      (case r of Inl e \<Rightarrow> Some (e, s)
       | Inr (xs, s1) \<Rightarrow> do { (r2, s2) \<leftarrow> steal_payload P t ?m xs s1;
           (case r2 of Inl e \<Rightarrow> Some (e, s2)
            | Inr (pages, len) \<Rightarrow> post_message p \<lparr>m_regs = s_regs ?m, m_caps = xs, m_pages = pages, m_len = len\<rparr> s2) }) } = Some (0, s')"
    using assms bs t \<open>ptr \<noteq> 0\<close> by (simp add: sys_send_def Let_def)
  then obtain xs s1 where xs: "collect_caps P t ?m s = Some (Inr (xs, s1))"
    using collect_error by (fastforce split: bind_splits sum.splits)
  then obtain pl s2 where pl: "steal_payload P t ?m xs s1 = Some (Inr pl, s2)"
    using body steal_payload_error by (fastforce split: bind_splits sum.splits)
  have "post_message p \<lparr>m_regs = s_regs ?m, m_caps = xs, m_pages = fst pl, m_len = snd pl\<rparr> s2 = Some (0, s')"
    using body xs pl by (simp split: prod.splits)
  then show ?thesis using that bs t xs pl by blast
qed

lemma post_success:
  assumes "post_message p m s = Some (0, s')"
  shows "length (queue s p) < MAX_IN_FLIGHT \<and> s' = s\<lparr>ports := AList.update p (queue s p @ [m]) (ports s), sc := wake_all p (sc s)\<rparr>"
  using assms by (auto simp: post_message_def try_push_def split: if_splits bind_splits)

lemma install_out_effect:
  assumes "ipc_wf s" and "install_out P t out cs s = Some s'"
  shows "ports s' = ports s \<and> REGISTRY s' = REGISTRY s \<and> sc s' = sc s \<and> all_caps s' = all_caps s + mset cs
    \<and> (\<forall>j < cap_next (table s t). cap_get (table s' t) j = cap_get (table s t) j)
    \<and> (\<forall>k < length cs. cap_get (table s' t) (cap_next (table s t) + int k) = Some (cs ! k))"
  using assms
proof (induction cs arbitrary: s out)
  case (Cons c cs)
  obtain i tb s1 where i: "cap_install c (table s t) = Some (i, tb)"
    and w: "user_write P (set_table t tb s) out (word_to_le 4 (word_of_int i :: u32)) = Some s1"
    and rest: "install_out P t (out + 4) cs s1 = Some s'"
    using Cons.prems(2) by (auto split: bind_splits)
  note f = user_write_fields[OF w]
  have ok: "cap_table_ok (table s t)" using Cons.prems(1) by (simp add: ipc_wf_def)
  note l = capt.install_law[OF ok i]
  have tabs: "table s1 t = tb" using f by (simp add: table_def set_table_def update_conv')
  note wf = Cons.prems(1)
  have "all_caps s1 = all_caps (set_table t tb s)" using f by (intro all_caps_cong) auto
  moreover have "all_caps (set_table t tb s) + cap_contents (table s t) = all_caps s + cap_contents tb"
    using wf by (intro all_caps_set_table) (simp add: ipc_wf_def)
  ultimately have ac: "all_caps s1 = add_mset c (all_caps s)" using l by simp
  have wf1: "ipc_wf s1"
  proof -
    have "ipc_wf (set_table t tb s)" using wf l by (intro ipc_wf_set_table) auto
    then show ?thesis using f by (simp add: ipc_wf_def table_def queue_def)
  qed
  note r = Cons.IH[OF wf1 rest]
  have nx: "cap_next (table s1 t) = cap_next (table s t) + 1" using tabs l by simp
  have "cap_get (table s' t) j = cap_get (table s t) j" if "j < cap_next (table s t)" for j
    using r tabs l that by simp
  moreover have "cap_get (table s' t) (cap_next (table s t) + int k) = Some ((c # cs) ! k)" if "k < length (c # cs)" for k
  proof (cases k)
    case 0
    have "cap_next (table s t) < cap_next (table s1 t)" using nx by simp
    then have "cap_get (table s' t) (cap_next (table s t)) = cap_get tb (cap_next (table s t))" using r tabs by simp
    then show ?thesis using 0 l by simp
  next
    case (Suc n)
    then show ?thesis using r nx that by (simp add: add.assoc)
  qed
  ultimately show ?case using r f ac by simp
qed simp


lemma deliver_caps_success:
  assumes "ipc_wf s" and "deliver_caps P t m out s = Some (True, s')"
  shows "ports s' = ports s \<and> REGISTRY s' = REGISTRY s \<and> all_caps s' = all_caps s + mset (m_caps m)
    \<and> (\<forall>k < length (m_caps m). cap_get (table s' t) (cap_next (table s t) + int k) = Some (m_caps m ! k))"
proof -
  have "install_out P t (r_caps_out out) (m_caps m) s = Some s' \<or> m_caps m = [] \<and> s' = s"
    using assms(2) by (auto simp: deliver_caps_def split: if_splits bind_splits)
  then show ?thesis using install_out_effect[OF assms(1)] by auto
qed

lemma deliver_pages_error: "deliver_pages P t m out s = Some (Inl e, s') \<Longrightarrow> e \<noteq> 0"
  by (auto simp: deliver_pages_def split: if_splits option.splits bind_splits sum.splits)

lemma recv_message_success:
  assumes wf: "ipc_wf s" and r: "recv_message P t m ptr s = Some (0, s')"
  shows "ports s' = ports s \<and> REGISTRY s' = REGISTRY s \<and> all_caps s' = all_caps s + mset (m_caps m)
    \<and> (\<forall>k < length (m_caps m). cap_get (table s' t) (cap_next (table s t) + int k) = Some (m_caps m ! k))"
proof -
  obtain out b s1 where s1: "deliver_caps P t m out s = Some (b, s1)"
    and rest: "if \<not> b then 0 = E2BIG \<and> s' = s1
     else \<exists>q s2. deliver_pages P t m out s1 = Some (q, s2) \<and>
       (case q of Inl e \<Rightarrow> 0 = e \<and> s' = s2 | Inr out' \<Rightarrow> (0::int) = 0 \<and> user_write P s2 ptr (encode_recv out') = Some s')"
    using recv_message_parts[OF r] by blast
  have b: "b" using rest errno_nonzero(7) by (metis (full_types))
  then obtain q s2 where s2: "deliver_pages P t m out s1 = Some (q, s2)"
      "case q of Inl e \<Rightarrow> 0 = e \<and> s' = s2 | Inr out' \<Rightarrow> (0::int) = 0 \<and> user_write P s2 ptr (encode_recv out') = Some s'"
    using rest by auto
  then obtain out' where w: "user_write P s2 ptr (encode_recv out') = Some s'"
    using deliver_pages_error[of P t m out s1 _ s2] by (cases q) auto
  have f1: "ports s1 = ports s \<and> REGISTRY s1 = REGISTRY s \<and> all_caps s1 = all_caps s + mset (m_caps m)
    \<and> (\<forall>k < length (m_caps m). cap_get (table s1 t) (cap_next (table s t) + int k) = Some (m_caps m ! k))"
    using deliver_caps_success[OF wf] s1 b by simp
  have f2: "caps s' = caps s1" "ports s' = ports s1" "REGISTRY s' = REGISTRY s1"
    using deliver_pages_fields[OF s2(1)] user_write_fields[OF w] by simp_all
  have "table s' t = table s1 t" using f2 by (simp add: table_def)
  moreover have "all_caps s' = all_caps s1" using f2 by (intro all_caps_cong)
  ultimately show ?thesis using f1 f2 by simp
qed

lemma recv_success:
  assumes "sys_recv P i ptr s = Some (Returns 0, s')" and "current (sc s) = Some t"
  obtains c p m q where "cap_get (table s t) i = Some c" "rights_contain (rights c) R_RECV" "as_port c = Some p"
    "queue s p = m # q" "recv_message P t m ptr (s\<lparr>ports := AList.update p q (ports s)\<rparr>) = Some (0, s')"
proof -
  have "\<exists>c p. cap_get (table s t) i = Some c \<and> rights_contain (rights c) R_RECV \<and> as_port c = Some p
      \<and> recv_pass P t p ptr s = Some (Returns 0, s')"
    using assms by (simp add: sys_recv_def split: if_splits option.splits)
  then obtain c p where c: "cap_get (table s t) i = Some c" "rights_contain (rights c) R_RECV" "as_port c = Some p"
    "recv_pass P t p ptr s = Some (Returns 0, s')" by blast
  moreover obtain m q where "queue s p = m # q" "recv_message P t m ptr (s\<lparr>ports := AList.update p q (ports s)\<rparr>) = Some (0, s')"
    using c(4) by (auto simp: recv_pass_def port_pop_def split: list.splits bind_splits)
  ultimately show ?thesis using that by blast
qed


section \<open>Properties\<close>

text \<open>The address space of the examples: every address below \<^term>\<open>(2::nat) ^ 47\<close> reaches the data page.\<close>

lemma flat_entry:
  assumes "1 \<le> n" "n \<le> 4" "i < 512"
  shows "entry_get (flat_ram d) (n * 4096) i = of_nat ((n + 1) * 4096 + 3)"
proof -
  have dm: "(n * 4096 + 8 * i + k) div 4096 = n" "(n * 4096 + 8 * i + k) mod 8 = k" if "k < 8" for k
  proof -
    have "8 * i + k < 4096" using assms(3) that by simp
    then show "(n * 4096 + 8 * i + k) div 4096 = n" by simp
    have "n * 4096 + 8 * i + k = k + 8 * (n * 512 + i)" by simp
    then show "(n * 4096 + 8 * i + k) mod 8 = k" using that by (metis mod_less mod_mult_self2)
  qed
  have b: "flat_ram d (n * 4096 + 8 * i + k) = (if k = 0 then 3 else if k = 1 then of_nat (16 * (n + 1)) else 0)" if "k < 8" for k
    unfolding flat_ram_def dm(1)[OF that] dm(2)[OF that] using assms(1,2) by simp
  have "mem_read (flat_ram d) (n * 4096 + 8 * i) 8 = [3, of_nat (16 * (n + 1)), 0, 0, 0, 0, 0, 0]"
  proof -
    have "mem_read (flat_ram d) (n * 4096 + 8 * i) 8
      = map (\<lambda>k. if k = 0 then 3 else if k = 1 then of_nat (16 * (n + 1)) else 0) [0..<8]"
      unfolding mem_read_def using b by (intro map_cong refl) (simp del: of_nat_mult)
    moreover have "[0..<8] = [0, 1, 2, 3, 4, 5, 6, 7]" by code_simp
    ultimately show ?thesis by simp
  qed
  moreover have "n = 1 \<or> n = 2 \<or> n = 3 \<or> n = 4" using assms(1,2) by arith
  ultimately show ?thesis by (auto simp: entry_get_def)
qed

lemma flat_translate:
  assumes "va < 2 ^ 47"
  shows "user_addr x86_impl \<lparr>pml4_phys = 4096\<rparr> (flat_ram d) va = Some (20480 + va mod 4096)"
proof -
  have idx: "pml4_idx va < 512" "pdpt_idx va < 512" "pd_idx va < 512" "pt_idx va < 512"
    by (simp_all add: pml4_idx_def pdpt_idx_def pd_idx_def pt_idx_def)
  have e: "entry_get (flat_ram d) 4096 i = 8195" "entry_get (flat_ram d) 8192 i = 12291"
    "entry_get (flat_ram d) 12288 i = 16387" "entry_get (flat_ram d) 16384 i = 20483" if "i < 512" for i
    using flat_entry[of 1 i d] flat_entry[of 2 i d] flat_entry[of 3 i d] flat_entry[of 4 i d] that by simp_all
  have p: "present x86_impl 8195" "present x86_impl 12291" "present x86_impl 16387" "present x86_impl 20483" by code_simp+
  have a: "pt_addr x86_impl 8195 = 8192" "pt_addr x86_impl 12291 = 12288" "pt_addr x86_impl 16387 = 16384" "pt_addr x86_impl 20483 = 20480"
    by code_simp+
  have r: "pml4_ref 4096 = Some 4096" "pml4_ref 8192 = Some 8192" "pml4_ref 12288 = Some 12288" "pml4_ref 16384 = Some 16384" by code_simp+
  show ?thesis
    using assms idx e p a r by (simp add: user_addr_def phys_for_virt_def PAGE_SIZE_def)
qed


definition demo_ipc :: ipc where
  "demo_ipc = boot_ipc \<lparr>frames = demo_frames, ram = flat_ram (\<lambda>_. 0), KERNEL_AS = None, MMIO_NEXT = 0\<rparr> (demo_sched\<lparr>cr3 := 4096\<rparr>)"

definition demo_port :: ipc where
  "demo_port = snd (the (sys_port_create 0x8000 demo_ipc))"

lemma demo_port_fields: "table demo_port 1 = \<lparr>cap_slots = [(1, cap_port 0x8000 7)], cap_next = 2\<rparr>"
  "queue demo_port 0x8000 = []" "keys (ports demo_port) = [0x8000]" "current (sc demo_port) = Some 1" "ports demo_port = [(0x8000, [])]"
  "vm demo_port = \<lparr>frames = demo_frames, ram = flat_ram (\<lambda>_. 0), KERNEL_AS = None, MMIO_NEXT = 0\<rparr>" "sc demo_port = demo_sched\<lparr>cr3 := 4096\<rparr>"
  by (simp_all add: demo_port_def demo_ipc_def boot_ipc_def sys_port_create_def current_def demo_sched_fields port_new_def table_def
      cap_table_new_def cap_install_def i32_succ_def set_table_def R_SEND_def R_RECV_def R_DUP_def cap_port_def queue_def Let_def keys_def)

lemma demo_port_create: "sys_port_create 0x8000 demo_ipc = Some (1, demo_port)"
  by (simp add: demo_port_def demo_ipc_def boot_ipc_def sys_port_create_def current_def demo_sched_fields port_new_def table_def
      cap_table_new_def cap_install_def i32_succ_def)

lemma demo_port_reach: "ipc_reach x86_impl demo_ipc demo_port"
  by (rule ipc_trans[OF ipc_refl step_port_create[OF _ demo_port_create]]) (simp add: demo_ipc_def boot_ipc_def)



text \<open>C14. A send that succeeds was made with a capability that carries the send right, found room in the queue
  of that capability's port, and appended one message with the registers read from the caller; the other
  queues are untouched, no capability is lost or duplicated on the way, and exactly the
  receivers parked on the port are woken.\<close>

theorem send_correct:
  assumes inv: "ipc_inv s {#}" and send: "sys_send P i ptr s = Some (0, s')"
  shows "\<exists>t c p bs msg. current (sc s) = Some t \<and> cap_get (table s t) i = Some c
    \<and> rights_contain (rights c) R_SEND \<and> object c = PortObj p \<and> user_read P s ptr 80 = Some bs
    \<and> length (queue s p) < MAX_IN_FLIGHT \<and> m_regs msg = decode_regs bs
    \<and> (\<forall>r. queue s' r = (if r = p then queue s p @ [msg] else queue s r))
    \<and> mset (state_caps s') = mset (state_caps s) \<and> sc s' = wake_all p (sc s)"
proof -
  obtain t c p bs xs s1 pl s2 where t: "user_read P s ptr 80 = Some bs" "current (sc s) = Some t" "cap_get (table s t) i = Some c"
    "rights_contain (rights c) R_SEND" "as_port c = Some p" "collect_caps P t (decode_send bs) s = Some (Inr (xs, s1))"
    "steal_payload P t (decode_send bs) xs s1 = Some (Inr pl, s2)"
    "post_message p \<lparr>m_regs = s_regs (decode_send bs), m_caps = xs, m_pages = fst pl, m_len = snd pl\<rparr> s2 = Some (0, s')"
    using send_success[OF send] by metis
  define msg where "msg = \<lparr>m_regs = s_regs (decode_send bs), m_caps = xs, m_pages = fst pl, m_len = snd pl\<rparr>"
  note c = collect_effect[OF inv t(6)]
  note e = steal_payload_effect[OF t(7)]
  have po: "length (queue s2 p) < MAX_IN_FLIGHT" "s' = s2\<lparr>ports := AList.update p (queue s2 p @ [msg]) (ports s2), sc := wake_all p (sc s2)\<rparr>"
    using post_success[OF t(8)] by (simp_all add: msg_def)
  have q2: "queue s2 r = queue s r" for r using c e by (simp add: queue_def)
  have inv2: "ipc_inv s2 (mset xs)" using steal_payload_inv[OF collect_inv[OF inv t(6)] t(7)] by simp
  have "all_caps (s2\<lparr>ports := AList.update p (queue s2 p @ [msg]) (ports s2)\<rparr>) + queue_caps (queue s2 p)
      = all_caps s2 + queue_caps (queue s2 p @ [msg])"
    using inv2 by (intro all_caps_set_queue) (simp add: ipc_inv_def ipc_wf_def)
  then have "all_caps (s2\<lparr>ports := AList.update p (queue s2 p @ [msg]) (ports s2)\<rparr>) = all_caps s2 + mset xs"
    by (simp add: msg_def add_ac)
  moreover have "all_caps s2 = all_caps s1" using e by (intro all_caps_cong) simp_all
  moreover have "all_caps s' = all_caps (s2\<lparr>ports := AList.update p (queue s2 p @ [msg]) (ports s2)\<rparr>)"
    unfolding po(2) by (rule all_caps_cong) simp_all
  ultimately have "mset (state_caps s') = mset (state_caps s)" using c by (simp add: mset_state_caps)
  moreover have "object c = PortObj p" using t(5) by (auto simp: as_port_def split: CapObject.splits)
  moreover have "queue s' r = (if r = p then queue s p @ [msg] else queue s r)" for r
    using q2 by (simp add: po(2) queue_def update_conv')
  moreover have "m_regs msg = decode_regs bs" by (simp add: msg_def decode_send_def)
  moreover have "sc s' = wake_all p (sc s)" using c e by (simp add: po(2))
  ultimately show ?thesis using t(1-4) po(1) q2 by metis
qed

definition demo_sent :: ipc where
  "demo_sent = snd (the (sys_send x86_impl 1 0x1000 demo_port))"

lemma demo_page_read:
  assumes "va mod 4096 + n \<le> 4096" and "va + n < 2 ^ 47" and "ram (vm s) = flat_ram (\<lambda>_. 0)" and "cr3 (sc s) = 4096"
  shows "user_read x86_impl s va n = Some (replicate n 0)"
proof -
  have tr: "user_addr x86_impl (active_as (sc s)) (ram (vm s)) (va + i) = Some (20480 + va mod 4096 + i)" if "i < n" for i
  proof -
    have "va mod 4096 + i < 4096" using assms(1) that by linarith
    then have "(va mod 4096 + i) mod 4096 = va mod 4096 + i" by (rule mod_less)
    then have m: "(va + i) mod 4096 = va mod 4096 + i" by (simp only: mod_add_left_eq)
    have "va + i < 2 ^ 47" using assms(2) that by linarith
    from flat_translate[OF this, of "\<lambda>_. 0"] show ?thesis by (simp only: m active_as_def assms(3,4) add.assoc)
  qed
  have "flat_ram (\<lambda>_. 0) (20480 + va mod 4096 + i) = 0" if "i < n" for i
  proof -
    have "va mod 4096 + i < 4096" using assms(1) that by linarith
    then have "(20480 + va mod 4096 + i) div 4096 = 5" by (intro div_nat_eqI) simp_all
    then show ?thesis by (simp add: flat_ram_def)
  qed
  then have "mem_read (ram (vm s)) (20480 + va mod 4096) n = replicate n 0"
    by (simp add: mem_read_def assms(3) list_eq_iff_nth_eq)
  then show ?thesis using virt_read_flat[of n x86_impl "active_as (sc s)" "ram (vm s)" va "20480 + va mod 4096"] tr
    by (simp add: user_read_def)
qed

lemma u64_at_zeros [simp]: "u64_at (replicate n 0) off = 0"
  by (simp add: u64_at_def take_replicate drop_replicate)

lemma demo_send_ok: "sys_send x86_impl 1 0x1000 demo_port = Some (0, demo_sent)"
proof -
  have rd: "user_read x86_impl demo_port 0x1000 80 = Some (replicate 80 0)"
    by (rule demo_page_read) (simp_all add: demo_port_fields)
  have "cap_get (table demo_port 1) 1 = Some (cap_port 0x8000 7)" by (simp add: demo_port_fields cap_get_def del: One_nat_def)
  moreover have "rights_contain (rights (cap_port 0x8000 7)) R_SEND" "as_port (cap_port 0x8000 7) = Some 0x8000"
    by (simp_all add: rights_contain_def R_SEND_def cap_port_def as_port_def)
  ultimately have "\<exists>s'. sys_send x86_impl 1 0x1000 demo_port = Some (0, s')"
    by (simp add: sys_send_def rd decode_send_def demo_port_fields(2,4) Let_def collect_caps_def steal_payload_def post_message_def
        try_push_def MAX_IN_FLIGHT_def del: One_nat_def)
  then show ?thesis by (auto simp: demo_sent_def)
qed

lemma demo_port_inv: "ipc_inv demo_port {#}"
  by (rule ipc_reach_inv[OF demo_port_reach[unfolded demo_ipc_def]])

theorem send_correct_witness: "\<exists>msg. queue demo_sent 0x8000 = [msg] \<and> length (m_regs msg) = 6"
proof -
  obtain t c p bs msg where "current (sc demo_port) = Some t" "cap_get (table demo_port t) 1 = Some c" "object c = PortObj p"
    "m_regs msg = decode_regs bs" "\<forall>r. queue demo_sent r = (if r = p then queue demo_port p @ [msg] else queue demo_port r)"
    using send_correct[OF demo_port_inv demo_send_ok] by blast
  moreover from this have "t = 1" using demo_port_fields(4) by simp
  moreover from calculation have "p = 0x8000"
    by (auto simp: demo_port_fields(1) cap_get_def cap_port_def simp del: One_nat_def)
  ultimately show ?thesis by (simp add: demo_port_fields(2) decode_regs_def REG_SLOTS_def)
qed



definition demo_received :: ipc where
  "demo_received = snd (the (sys_recv x86_impl 1 0x2000 demo_sent))"

text \<open>A message with nothing attached is delivered whenever the buffer can be read and written.\<close>

lemma virt_write_total:
  assumes "\<forall>i < length bs. \<forall>m'. (\<forall>x. x div 4096 \<noteq> 5 \<longrightarrow> m' x = m x) \<longrightarrow> (\<exists>a. user_addr P as m' (va + i) = Some a \<and> a div 4096 = 5)"
  shows "\<exists>m'. virt_write P as m va bs = Some m'"
  using assms
proof (induction bs arbitrary: m va)
  case (Cons b bs)
  from spec[OF Cons.prems, of 0] obtain a where a: "user_addr P as m va = Some a" "a div 4096 = 5" by auto
  have "\<exists>m'. virt_write P as (m(a := b)) (va + 1) bs = Some m'"
  proof (rule Cons.IH, intro allI impI)
    fix i m' assume i: "i < length bs" and m': "\<forall>x. x div 4096 \<noteq> 5 \<longrightarrow> m' x = (m(a := b)) x"
    have "\<forall>x. x div 4096 \<noteq> 5 \<longrightarrow> m' x = m x" using m' a(2) by auto
    then show "\<exists>a. user_addr P as m' (va + 1 + i) = Some a \<and> a div 4096 = 5"
      using spec[OF Cons.prems, of "Suc i"] i by simp
  qed
  then show ?case using a by simp
qed simp

lemma flat_ram_outside: "(\<forall>x. x div 4096 \<noteq> 5 \<longrightarrow> m x = flat_ram d x) \<Longrightarrow> m = flat_ram (\<lambda>k. m (20480 + k))"
proof (rule ext)
  fix x assume m: "\<forall>x. x div 4096 \<noteq> 5 \<longrightarrow> m x = flat_ram d x"
  show "m x = flat_ram (\<lambda>k. m (20480 + k)) x"
  proof (cases "x div 4096 = 5")
    case True
    then have "20480 + x mod 4096 = x" using div_mult_mod_eq[of x 4096] by simp
    then show ?thesis using True by (simp add: flat_ram_def)
  next
    case False
    then show ?thesis using m by (simp add: flat_ram_def)
  qed
qed

lemma demo_page_write:
  assumes "va + length bs < 2 ^ 47" and "ram (vm s) = flat_ram d" and "cr3 (sc s) = 4096"
  shows "\<exists>s'. user_write x86_impl s va bs = Some s'"
proof -
  have "\<exists>a. user_addr x86_impl (active_as (sc s)) m' (va + i) = Some a \<and> a div 4096 = 5"
    if i: "i < length bs" and m': "\<forall>x. x div 4096 \<noteq> 5 \<longrightarrow> m' x = ram (vm s) x" for i m'
  proof -
    have "m' = flat_ram (\<lambda>k. m' (20480 + k))" using m' flat_ram_outside[of m' d] assms(2) by simp
    moreover have "va + i < 2 ^ 47" using assms(1) i by linarith
    ultimately have "user_addr x86_impl (active_as (sc s)) m' (va + i) = Some (20480 + (va + i) mod 4096)"
      using flat_translate[of "va + i" "\<lambda>k. m' (20480 + k)"] assms(3) by (simp only: active_as_def)
    moreover have "(20480 + (va + i) mod 4096) div 4096 = 5" by (intro div_nat_eqI) simp_all
    ultimately show ?thesis by blast
  qed
  then show ?thesis
    using virt_write_total[of bs "ram (vm s)" x86_impl "active_as (sc s)" va] by (auto simp: user_write_def)
qed

lemma wake_all_cr3 [simp]: "cr3 (wake_all k s) = cr3 s"
proof -
  have "cr3 (foldl (\<lambda>s w. enqueue (snd w) (set_state (snd w) Ready s)) s0 ws) = cr3 s0" for s0 and ws :: "(nat \<times> nat) list"
    by (induction ws arbitrary: s0) (simp_all add: enqueue_def set_state_def)
  then show ?thesis by (simp add: wake_all_def split: prod.splits)
qed

lemma demo_sent_fields: "ram (vm demo_sent) = flat_ram (\<lambda>_. 0)" "cr3 (sc demo_sent) = 4096" "current (sc demo_sent) = Some 1"
  "table demo_sent 1 = table demo_port 1" "\<exists>m. queue demo_sent 0x8000 = [m] \<and> m_caps m = [] \<and> m_len m = 0 \<and> length (m_regs m) = 6"
proof -
  obtain t c p bs xs s1 pl s2 where t: "user_read x86_impl demo_port 0x1000 80 = Some bs" "current (sc demo_port) = Some t"
    "cap_get (table demo_port t) 1 = Some c" "as_port c = Some p" "collect_caps x86_impl t (decode_send bs) demo_port = Some (Inr (xs, s1))"
    "steal_payload x86_impl t (decode_send bs) xs s1 = Some (Inr pl, s2)"
    "post_message p \<lparr>m_regs = s_regs (decode_send bs), m_caps = xs, m_pages = fst pl, m_len = snd pl\<rparr> s2 = Some (0, demo_sent)"
    using send_success[OF demo_send_ok] by metis
  have bs: "bs = replicate 80 0" using demo_page_read[of "0x1000" 80 demo_port] t(1) by (simp add: demo_port_fields)
  have xs: "xs = []" "s1 = demo_port" using t(5) by (simp_all add: collect_caps_def decode_send_def bs)
  have pl: "pl = ([], 0)" "s2 = demo_port" using t(6) by (simp_all add: steal_payload_def decode_send_def bs xs)
  have tt: "t = 1" using t(2) demo_port_fields(4) by simp
  have p: "p = 0x8000" using t(3,4) by (auto simp: tt demo_port_fields(1) cap_get_def cap_port_def as_port_def simp del: One_nat_def)
  note e = post_success[OF t(7)]
  show "ram (vm demo_sent) = flat_ram (\<lambda>_. 0)" "cr3 (sc demo_sent) = 4096" unfolding conjunct2[OF e] pl by (simp_all add: demo_port_fields)
  have "CURRENT (wake_all p q) = CURRENT q" for q
    using wake_list_props(2) by (cases "drain (\<lambda>w. fst w = p) (WAIT_QUEUES q) 0 []") (simp add: wake_all_eq)
  then show "current (sc demo_sent) = Some 1"
    unfolding conjunct2[OF e] pl by (simp add: demo_port_fields(7) current_def demo_sched_fields)
  show "table demo_sent 1 = table demo_port 1" unfolding conjunct2[OF e] pl by (simp add: table_def)
  show "\<exists>m. queue demo_sent 0x8000 = [m] \<and> m_caps m = [] \<and> m_len m = 0 \<and> length (m_regs m) = 6"
    unfolding conjunct2[OF e] pl p xs by (simp add: demo_port_fields(2,5) queue_def update_conv' decode_send_def decode_regs_def REG_SLOTS_def)
qed


lemma demo_recv_ok: "sys_recv x86_impl 1 0x2000 demo_sent = Some (Returns 0, demo_received)"
proof -
  obtain m where m: "queue demo_sent 0x8000 = [m]" "m_caps m = []" "m_len m = 0" "length (m_regs m) = 6" using demo_sent_fields(5) by blast
  let ?s = "demo_sent\<lparr>ports := AList.update 0x8000 [] (ports demo_sent)\<rparr>"
  have rd: "user_read x86_impl ?s 0x2000 88 = Some (replicate 88 0)"
    by (rule demo_page_read) (simp_all add: demo_sent_fields)
  let ?out = "(decode_recv (replicate 88 0))\<lparr>r_regs := m_regs m, r_ncaps := 0, r_pages_va := 0, r_pages_len := 0\<rparr>"
  have "length (encode_recv ?out) = 88" using m(4) by (simp add: encode_recv_def le64_def length_concat comp_def sum_list_triv)
  then obtain s' where w: "user_write x86_impl ?s 0x2000 (encode_recv ?out) = Some s'"
    using demo_page_write[of "0x2000" "encode_recv ?out" ?s "\<lambda>_. 0"] demo_sent_fields by auto
  have "recv_message x86_impl 1 m 0x2000 ?s = Some (0, s')"
    using rd m w by (simp add: recv_message_def deliver_caps_def deliver_pages_def Let_def)
  moreover have "cap_get (table demo_sent 1) 1 = Some (cap_port 0x8000 7)"
    by (simp add: demo_sent_fields(4) demo_port_fields(1) cap_get_def del: One_nat_def)
  moreover have "rights_contain (rights (cap_port 0x8000 7)) R_RECV" "as_port (cap_port 0x8000 7) = Some 0x8000"
    by (simp_all add: rights_contain_def R_RECV_def cap_port_def as_port_def)
  ultimately have "sys_recv x86_impl 1 0x2000 demo_sent = Some (Returns 0, s')"
    using m(1) by (simp add: sys_recv_def demo_sent_fields(3) recv_pass_def port_pop_def del: One_nat_def)
  then show ?thesis by (simp add: demo_received_def)
qed


end
