(* ===== verification/Font.thy ===== *)
theory Font
  imports Prelude
begin

text \<open>
  The bitmap font, \<open>kernel/src/drivers/framebuffer/font.rs\<close>: sixteen rows of eight bits for each glyph,
  generated from the literals of the source. A character is its code point.
\<close>

text \<open>The macro \<open>g!\<close>: at most sixteen rows, the rest zero.\<close>

definition g_pad :: "bytes \<Rightarrow> bytes" where
  "g_pad rows = take 16 rows @ replicate (16 - length rows) 0"

definition MISSING :: bytes where
  "MISSING = [0, 126, 66, 66, 66, 66, 66, 66, 66, 66, 66, 66, 126, 0, 0, 0]"

definition SPACE :: bytes where
  "SPACE = replicate 16 0"

definition LETTER_M :: bytes where
  "LETTER_M = g_pad [0, 0, 195, 231, 255, 219, 195, 195, 195, 195, 195, 195, 0, 0, 0, 0]"

definition LETTER_O :: bytes where
  "LETTER_O = g_pad [0, 0, 60, 102, 195, 195, 195, 195, 195, 195, 102, 60, 0, 0, 0, 0]"

definition LETTER_S :: bytes where
  "LETTER_S = g_pad [0, 0, 62, 99, 192, 192, 120, 14, 3, 3, 198, 124, 0, 0, 0, 0]"

definition LETTER_a :: bytes where
  "LETTER_a = g_pad [0, 0, 0, 0, 0, 124, 6, 126, 198, 198, 198, 123, 0, 0, 0, 0]"

definition LETTER_b :: bytes where
  "LETTER_b = g_pad [192, 192, 192, 252, 198, 195, 195, 195, 195, 198, 252, 0, 0, 0, 0, 0]"

definition LETTER_d :: bytes where
  "LETTER_d = g_pad [3, 3, 3, 63, 99, 195, 195, 195, 195, 99, 63, 0, 0, 0, 0, 0]"

definition LETTER_e :: bytes where
  "LETTER_e = g_pad [0, 0, 0, 0, 0, 60, 102, 195, 255, 192, 99, 62, 0, 0, 0, 0]"

definition LETTER_f :: bytes where
  "LETTER_f = g_pad [30, 51, 48, 48, 252, 48, 48, 48, 48, 48, 48, 48, 0, 0, 0, 0]"

definition LETTER_k :: bytes where
  "LETTER_k = g_pad [192, 192, 192, 198, 204, 216, 240, 248, 204, 198, 195, 0, 0, 0, 0, 0]"

definition LETTER_l :: bytes where
  "LETTER_l = g_pad [60, 12, 12, 12, 12, 12, 12, 12, 12, 12, 63, 0, 0, 0, 0, 0]"

definition LETTER_m :: bytes where
  "LETTER_m = g_pad [0, 0, 0, 0, 0, 238, 255, 219, 219, 219, 219, 219, 0, 0, 0, 0]"

definition LETTER_n :: bytes where
  "LETTER_n = g_pad [0, 0, 0, 0, 0, 252, 198, 195, 195, 195, 195, 195, 0, 0, 0, 0]"

definition LETTER_o :: bytes where
  "LETTER_o = g_pad [0, 0, 0, 0, 0, 60, 102, 195, 195, 195, 102, 60, 0, 0, 0, 0]"

definition LETTER_p :: bytes where
  "LETTER_p = g_pad [0, 0, 0, 0, 0, 252, 198, 195, 195, 198, 252, 192, 192, 192, 192, 0]"

definition LETTER_r :: bytes where
  "LETTER_r = g_pad [0, 0, 0, 0, 0, 222, 227, 192, 192, 192, 192, 192, 0, 0, 0, 0]"

definition LETTER_s :: bytes where
  "LETTER_s = g_pad [0, 0, 0, 0, 0, 126, 192, 224, 60, 7, 195, 254, 0, 0, 0, 0]"

definition LETTER_t :: bytes where
  "LETTER_t = g_pad [0, 0, 24, 24, 255, 24, 24, 24, 24, 24, 27, 14, 0, 0, 0, 0]"

definition LETTER_u :: bytes where
  "LETTER_u = g_pad [0, 0, 0, 0, 0, 195, 195, 195, 195, 195, 199, 123, 0, 0, 0, 0]"

definition LETTER_y :: bytes where
  "LETTER_y = g_pad [0, 0, 0, 0, 0, 195, 195, 195, 195, 103, 59, 3, 198, 124, 0, 0]"

definition DIGIT_0 :: bytes where
  "DIGIT_0 = LETTER_O"

definition DIGIT_1 :: bytes where
  "DIGIT_1 = g_pad [0, 0, 24, 56, 120, 24, 24, 24, 24, 24, 24, 126, 0, 0, 0, 0]"

definition DIGIT_M0 :: bytes where
  "DIGIT_M0 = g_pad [0, 0, 60, 102, 199, 207, 219, 243, 227, 195, 102, 60, 0, 0, 0, 0]"

definition COMMA :: bytes where
  "COMMA = g_pad [0, 0, 0, 0, 0, 0, 0, 0, 0, 0, 0, 28, 28, 12, 24, 48]"

definition DASH :: bytes where
  "DASH = g_pad [0, 0, 0, 0, 0, 0, 0, 126, 126, 0, 0, 0, 0, 0, 0, 0]"

definition DOT :: bytes where
  "DOT = g_pad [0, 0, 0, 0, 0, 0, 0, 0, 0, 0, 0, 0, 0, 24, 24, 0]"

definition glyph :: "nat \<Rightarrow> bytes" where
  "glyph ch =
     (case map_of [(32, SPACE),
        (77, LETTER_M),
        (79, LETTER_O),
        (83, LETTER_S),
        (97, LETTER_a),
        (98, LETTER_b),
        (100, LETTER_d),
        (101, LETTER_e),
        (102, LETTER_f),
        (107, LETTER_k),
        (108, LETTER_l),
        (109, LETTER_m),
        (110, LETTER_n),
        (111, LETTER_o),
        (112, LETTER_p),
        (114, LETTER_r),
        (115, LETTER_s),
        (116, LETTER_t),
        (117, LETTER_u),
        (121, LETTER_y),
        (48, DIGIT_M0),
        (49, DIGIT_1),
        (45, DASH),
        (44, COMMA),
        (46, DOT)] ch of
        Some bits \<Rightarrow> bits | None \<Rightarrow> MISSING)"

lemmas glyph_defs = MISSING_def SPACE_def LETTER_M_def LETTER_O_def LETTER_S_def LETTER_a_def LETTER_b_def LETTER_d_def LETTER_e_def LETTER_f_def LETTER_k_def LETTER_l_def LETTER_m_def LETTER_n_def LETTER_o_def LETTER_p_def LETTER_r_def LETTER_s_def LETTER_t_def LETTER_u_def LETTER_y_def DIGIT_0_def DIGIT_1_def DIGIT_M0_def COMMA_def DASH_def DOT_def

lemma length_glyph [simp]: "length (glyph ch) = 16"
proof -
  have "\<forall>p \<in> set [(32::nat, SPACE), (77::nat, LETTER_M), (79::nat, LETTER_O), (83::nat, LETTER_S), (97::nat, LETTER_a), (98::nat, LETTER_b), (100::nat, LETTER_d), (101::nat, LETTER_e), (102::nat, LETTER_f), (107::nat, LETTER_k), (108::nat, LETTER_l), (109::nat, LETTER_m), (110::nat, LETTER_n), (111::nat, LETTER_o), (112::nat, LETTER_p), (114::nat, LETTER_r), (115::nat, LETTER_s), (116::nat, LETTER_t), (117::nat, LETTER_u), (121::nat, LETTER_y), (48::nat, DIGIT_M0), (49::nat, DIGIT_1), (45::nat, DASH), (44::nat, COMMA), (46::nat, DOT)]. length (snd p) = 16"
    by (simp add: glyph_defs g_pad_def)
  moreover have "length MISSING = 16" by (simp add: glyph_defs)
  ultimately show ?thesis unfolding glyph_def by (auto split: option.splits dest!: map_of_SomeD)
qed

end
