(* ===== verification/Display.thy ===== *)
theory Display
  imports Font Boot_Info Byte_Codec "HOL-Library.Monad_Syntax"
begin

text \<open>
  The framebuffer renderer, \<open>kernel/src/drivers/framebuffer.rs\<close>. Coordinates are \<open>u32\<close> values, written as
  natural numbers with the additions that overflow aborting. The framebuffer is a range of the
  memory that starts at its base address.
\<close>

definition u32_add :: "nat \<Rightarrow> nat \<Rightarrow> nat may_stop" where
  "u32_add a b = (if a + b < 2 ^ 32 then Some (a + b) else None)"

definition u32_saturating_add :: "nat \<Rightarrow> nat \<Rightarrow> nat" where
  "u32_saturating_add a b = min (a + b) (2 ^ 32 - 1)"

lemma u32_add_eq_Some [checked_simps]: "u32_add a b = Some c \<longleftrightarrow> c = a + b \<and> a + b < 2 ^ 32"
  by (auto simp: u32_add_def)

record DisplayInfo =
  di_width :: nat
  di_height :: nat
  di_pitch :: nat
  di_bits_per_pixel :: nat
  di_pixel_format :: nat

definition pixel_format_code :: "PixelFormat \<Rightarrow> nat" where
  "pixel_format_code f = (case f of Bgrx8888 \<Rightarrow> 0 | Rgbx8888 \<Rightarrow> 1 | UnknownFormat \<Rightarrow> 0xFFFFFFFF)"

record display =
  DISPLAY :: "Framebuffer option"
  vram :: memory

definition console_info :: "Framebuffer \<Rightarrow> DisplayInfo" where
  "console_info fb = \<lparr>di_width = fb_width fb, di_height = fb_height fb, di_pitch = fb_pitch fb,
     di_bits_per_pixel = fb_bits_per_pixel fb, di_pixel_format = pixel_format_code (fb_pixel_format fb)\<rparr>"

definition encode :: "Framebuffer \<Rightarrow> u32 \<Rightarrow> u32" where
  "encode fb rgb =
     (let r = drop_bit 16 rgb AND 0xFF; g = drop_bit 8 rgb AND 0xFF; b = rgb AND 0xFF in
      case fb_pixel_format fb of
        Bgrx8888 \<Rightarrow> push_bit 16 r OR push_bit 8 g OR b
      | Rgbx8888 \<Rightarrow> push_bit 16 b OR push_bit 8 g OR r
      | UnknownFormat \<Rightarrow> rgb)"

definition pixel_addr :: "Framebuffer \<Rightarrow> nat \<Rightarrow> nat \<Rightarrow> nat" where
  "pixel_addr fb x y = fb_base fb + (y * fb_pitch fb + x * 4)"

definition put_raw :: "Framebuffer \<Rightarrow> nat \<Rightarrow> nat \<Rightarrow> u32 \<Rightarrow> memory \<Rightarrow> memory" where
  "put_raw fb x y pixel m = mem_write m (pixel_addr fb x y) (word_to_le 4 pixel)"

fun fill_row :: "Framebuffer \<Rightarrow> u32 \<Rightarrow> nat \<Rightarrow> nat \<Rightarrow> nat \<Rightarrow> memory \<Rightarrow> memory" where
  "fill_row fb px dy dx 0 m = m"
| "fill_row fb px dy dx (Suc n) m = fill_row fb px dy (dx + 1) n (put_raw fb dx dy px m)"

fun fill_rows :: "Framebuffer \<Rightarrow> u32 \<Rightarrow> nat \<Rightarrow> nat \<Rightarrow> nat \<Rightarrow> nat \<Rightarrow> memory \<Rightarrow> memory" where
  "fill_rows fb px x n dy 0 m = m"
| "fill_rows fb px x n dy (Suc k) m = fill_rows fb px x n (dy + 1) k (fill_row fb px dy x n m)"

definition console_fill_rect :: "Framebuffer \<Rightarrow> nat \<Rightarrow> nat \<Rightarrow> nat \<Rightarrow> nat \<Rightarrow> u32 \<Rightarrow> memory \<Rightarrow> memory" where
  "console_fill_rect fb x y width height color m =
     (if fb_width fb \<le> x \<or> fb_height fb \<le> y \<or> width = 0 \<or> height = 0 then m
      else
        (let x_end = min (u32_saturating_add x width) (fb_width fb);
             y_end = min (u32_saturating_add y height) (fb_height fb) in
         fill_rows fb (encode fb color) x (x_end - x) y (y_end - y) m))"

definition console_clear :: "Framebuffer \<Rightarrow> u32 \<Rightarrow> memory \<Rightarrow> memory" where
  "console_clear fb color m = console_fill_rect fb 0 0 (fb_width fb) (fb_height fb) color m"

fun draw_cols :: "Framebuffer \<Rightarrow> u32 \<Rightarrow> nat \<Rightarrow> nat \<Rightarrow> nat \<Rightarrow> u8 \<Rightarrow> nat list \<Rightarrow> memory \<Rightarrow> memory may_stop" where
  "draw_cols fb px x y row bits [] m = Some m"
| "draw_cols fb px x y row bits (col # cols) m =
     (if bit bits (7 - col) then
        do { dx \<leftarrow> u32_add x col;
             dy \<leftarrow> u32_add y row;
             draw_cols fb px x y row bits cols
               (if dx < fb_width fb \<and> dy < fb_height fb then put_raw fb dx dy px m else m) }
      else draw_cols fb px x y row bits cols m)"

fun draw_rows :: "Framebuffer \<Rightarrow> u32 \<Rightarrow> nat \<Rightarrow> nat \<Rightarrow> nat \<Rightarrow> bytes \<Rightarrow> memory \<Rightarrow> memory may_stop" where
  "draw_rows fb px x y row [] m = Some m"
| "draw_rows fb px x y row (bits # rest) m =
     do { m1 \<leftarrow> draw_cols fb px x y row bits [0..<8] m; draw_rows fb px x y (row + 1) rest m1 }"

definition draw_char :: "Framebuffer \<Rightarrow> nat \<Rightarrow> nat \<Rightarrow> nat \<Rightarrow> u32 \<Rightarrow> memory \<Rightarrow> memory may_stop" where
  "draw_char fb x y ch color m = draw_rows fb (encode fb color) x y 0 (glyph ch) m"

fun draw_loop :: "Framebuffer \<Rightarrow> nat \<Rightarrow> nat \<Rightarrow> nat \<Rightarrow> u32 \<Rightarrow> bytes \<Rightarrow> nat \<Rightarrow> memory \<Rightarrow> (nat \<times> memory) may_stop" where
  "draw_loop fb x cx y color [] drawn m = Some (drawn, m)"
| "draw_loop fb x cx y color (b # str) drawn m =
     (if b = 0x0A then
        (let y' = u32_saturating_add y 16 in
         do { bottom \<leftarrow> u32_add y' 16;
              if fb_height fb < bottom then Some (drawn, m)
              else draw_loop fb x x y' color str drawn m })
      else
        do { right \<leftarrow> u32_add cx 8;
             if fb_width fb < right then Some (drawn, m)
             else do {
               m1 \<leftarrow> draw_char fb cx y (if 0x20 \<le> b \<and> b \<le> 0x7E then unat b else 0x20) color m;
               draw_loop fb x right y color str (drawn + 1) m1 } })"

definition draw_bytes :: "Framebuffer \<Rightarrow> nat \<Rightarrow> nat \<Rightarrow> bytes \<Rightarrow> u32 \<Rightarrow> memory \<Rightarrow> (nat \<times> memory) may_stop" where
  "draw_bytes fb x y str color m = draw_loop fb x x y color str 0 m"

definition display_init :: "Framebuffer \<Rightarrow> display \<Rightarrow> display" where
  "display_init fb s = s\<lparr>DISPLAY := Some fb\<rparr>"

definition display_info :: "display \<Rightarrow> DisplayInfo option" where
  "display_info s = map_option console_info (DISPLAY s)"

definition display_clear :: "u32 \<Rightarrow> display \<Rightarrow> int \<times> display" where
  "display_clear color s =
     (case DISPLAY s of Some fb \<Rightarrow> (0, s\<lparr>vram := console_clear fb color (vram s)\<rparr>) | None \<Rightarrow> (-1, s))"

definition display_fill_rect :: "nat \<Rightarrow> nat \<Rightarrow> nat \<Rightarrow> nat \<Rightarrow> u32 \<Rightarrow> display \<Rightarrow> int \<times> display" where
  "display_fill_rect x y width height color s =
     (case DISPLAY s of
        Some fb \<Rightarrow> (0, s\<lparr>vram := console_fill_rect fb x y width height color (vram s)\<rparr>)
      | None \<Rightarrow> (-1, s))"

definition display_draw_text :: "nat \<Rightarrow> nat \<Rightarrow> bytes \<Rightarrow> u32 \<Rightarrow> display \<Rightarrow> (int \<times> display) may_stop" where
  "display_draw_text x y bs color s =
     (case DISPLAY s of
        Some fb \<Rightarrow> do { (n, m) \<leftarrow> draw_bytes fb x y bs color (vram s); Some (int n, s\<lparr>vram := m\<rparr>) }
      | None \<Rightarrow> Some (-1, s))"

section \<open>One pixel\<close>

definition pixel :: "Framebuffer \<Rightarrow> memory \<Rightarrow> nat \<Rightarrow> nat \<Rightarrow> u32" where
  "pixel fb m x y = le_to_word (mem_read m (pixel_addr fb x y) 4)"

definition on_screen :: "Framebuffer \<Rightarrow> nat \<Rightarrow> bool" where
  "on_screen fb a \<longleftrightarrow> fb_base fb \<le> a \<and> a < fb_base fb + fb_pitch fb * fb_height fb"

definition confined :: "Framebuffer \<Rightarrow> memory \<Rightarrow> memory \<Rightarrow> bool" where
  "confined fb m m' \<longleftrightarrow> (\<forall>a. \<not> on_screen fb a \<longrightarrow> m' a = m a)"

lemma confined_refl [simp]: "confined fb m m"
  by (simp add: confined_def)

lemma confined_trans: "confined fb m m' \<Longrightarrow> confined fb m' m'' \<Longrightarrow> confined fb m m''"
  by (simp add: confined_def)

lemma row_bound:
  assumes "4 * fb_width fb \<le> fb_pitch fb" "x < fb_width fb" "y < (h::nat)"
  shows "y * fb_pitch fb + x * 4 + 4 \<le> fb_pitch fb * h"
proof -
  have "y * fb_pitch fb + x * 4 + 4 \<le> y * fb_pitch fb + fb_pitch fb" using assms(1,2) by linarith
  also have "\<dots> = fb_pitch fb * Suc y" by simp
  also have "\<dots> \<le> fb_pitch fb * h" using assms(3) by (intro mult_le_mono) simp_all
  finally show ?thesis .
qed

lemma put_raw_confined:
  assumes "4 * fb_width fb \<le> fb_pitch fb" "x < fb_width fb" "y < fb_height fb"
  shows "confined fb m (put_raw fb x y px m)"
  unfolding confined_def
proof (intro allI impI)
  fix a assume "\<not> on_screen fb a"
  then have "a < pixel_addr fb x y \<or> pixel_addr fb x y + 4 \<le> a"
    using row_bound[OF assms] by (auto simp: on_screen_def pixel_addr_def)
  then show "put_raw fb x y px m a = m a" by (auto simp: put_raw_def mem_write_outside)
qed

lemma pixel_separate:
  assumes "4 * fb_width fb \<le> fb_pitch fb" "x < fb_width fb" "x' < fb_width fb" "(x, y) \<noteq> (x', y')"
  shows "pixel_addr fb x y + 4 \<le> pixel_addr fb x' y' \<or> pixel_addr fb x' y' + 4 \<le> pixel_addr fb x y"
proof (cases "y = y'")
  case True
  then show ?thesis using assms(4) by (auto simp: pixel_addr_def)
next
  case False
  then consider "y < y'" | "y' < y" by linarith
  then show ?thesis
  proof cases
    case 1
    from row_bound[OF assms(1,2) 1] show ?thesis by (simp add: pixel_addr_def mult.commute)
  next
    case 2
    from row_bound[OF assms(1,3) 2] show ?thesis by (simp add: pixel_addr_def mult.commute)
  qed
qed

lemma pixel_put_raw:
  assumes "4 * fb_width fb \<le> fb_pitch fb" "x < fb_width fb" "x' < fb_width fb"
  shows "pixel fb (put_raw fb x y px m) x' y' = (if x' = x \<and> y' = y then px else pixel fb m x' y')"
proof (cases "x' = x \<and> y' = y")
  case True
  have "mem_read (mem_write m a (word_to_le 4 px)) a 4 = word_to_le 4 px" for a
    using mem_read_write_same[of m a "word_to_le 4 px"] by simp
  then show ?thesis using True by (simp add: pixel_def put_raw_def)
next
  case False
  then have "pixel_addr fb x y + 4 \<le> pixel_addr fb x' y' \<or> pixel_addr fb x' y' + 4 \<le> pixel_addr fb x y"
    using pixel_separate[OF assms(1,2,3)] by blast
  then have "mem_read (put_raw fb x y px m) (pixel_addr fb x' y') 4 = mem_read m (pixel_addr fb x' y') 4"
    unfolding put_raw_def by (intro mem_read_write_disjoint) auto
  then show ?thesis using False by (auto simp: pixel_def)
qed

section \<open>Filling\<close>

lemma fill_row_correct:
  assumes "4 * fb_width fb \<le> fb_pitch fb" "dx + n \<le> fb_width fb" "dy < fb_height fb"
  shows "confined fb m (fill_row fb px dy dx n m)
    \<and> (\<forall>x < fb_width fb. \<forall>y. pixel fb (fill_row fb px dy dx n m) x y
         = (if y = dy \<and> dx \<le> x \<and> x < dx + n then px else pixel fb m x y))"
  using assms(2)
proof (induction n arbitrary: dx m)
  case (Suc n)
  let ?m = "put_raw fb dx dy px m"
  have dx: "dx < fb_width fb" "dx + 1 + n \<le> fb_width fb" using Suc.prems by simp_all
  note ih = Suc.IH[OF dx(2), of ?m]
  have "confined fb m ?m" by (rule put_raw_confined[OF assms(1) dx(1) assms(3)])
  then have "confined fb m (fill_row fb px dy dx (Suc n) m)" using ih confined_trans by fastforce
  moreover have "pixel fb (fill_row fb px dy dx (Suc n) m) x y = (if y = dy \<and> dx \<le> x \<and> x < dx + Suc n then px else pixel fb m x y)"
    if "x < fb_width fb" for x y
    using ih pixel_put_raw[OF assms(1) dx(1) that, of dy px m y] that by auto
  ultimately show ?case by blast
qed auto

lemma fill_rows_correct:
  assumes "4 * fb_width fb \<le> fb_pitch fb" "x0 + n \<le> fb_width fb" "dy + k \<le> fb_height fb"
  shows "confined fb m (fill_rows fb px x0 n dy k m)
    \<and> (\<forall>x < fb_width fb. \<forall>y. pixel fb (fill_rows fb px x0 n dy k m) x y
         = (if dy \<le> y \<and> y < dy + k \<and> x0 \<le> x \<and> x < x0 + n then px else pixel fb m x y))"
  using assms(3)
proof (induction k arbitrary: dy m)
  case (Suc k)
  let ?m = "fill_row fb px dy x0 n m"
  have dy: "dy < fb_height fb" "dy + 1 + k \<le> fb_height fb" using Suc.prems by simp_all
  note ih = Suc.IH[OF dy(2), of ?m]
  note row = fill_row_correct[OF assms(1,2) dy(1), of m px]
  have "confined fb m (fill_rows fb px x0 n dy (Suc k) m)" using row ih confined_trans by fastforce
  moreover have "pixel fb (fill_rows fb px x0 n dy (Suc k) m) x y
      = (if dy \<le> y \<and> y < dy + Suc k \<and> x0 \<le> x \<and> x < x0 + n then px else pixel fb m x y)"
    if "x < fb_width fb" for x y
    using ih row that by auto
  ultimately show ?case by blast
qed auto

section \<open>Text\<close>

lemma draw_cols_confined:
  assumes "4 * fb_width fb \<le> fb_pitch fb" and "draw_cols fb px x y row bits cols m = Some m'"
  shows "confined fb m m'"
  using assms(2)
proof (induction cols arbitrary: m)
  case (Cons col cols)
  show ?case
  proof (cases "bit bits (7 - col)")
    case False
    then show ?thesis using Cons by simp
  next
    case True
    define m1 where "m1 = (if x + col < fb_width fb \<and> y + row < fb_height fb then put_raw fb (x + col) (y + row) px m else m)"
    have "draw_cols fb px x y row bits cols m1 = Some m'"
      using Cons.prems True by (auto simp: m1_def checked_simps split: bind_splits)
    moreover have "confined fb m m1" using put_raw_confined[OF assms(1)] by (simp add: m1_def)
    ultimately show ?thesis using Cons.IH confined_trans by blast
  qed
qed simp

lemma draw_rows_confined:
  assumes "4 * fb_width fb \<le> fb_pitch fb" and "draw_rows fb px x y row rows m = Some m'"
  shows "confined fb m m'"
  using assms(2)
proof (induction rows arbitrary: row m)
  case (Cons bits rows)
  then show ?case using draw_cols_confined[OF assms(1)] confined_trans by (fastforce split: bind_splits)
qed simp

lemma draw_loop_confined:
  assumes "4 * fb_width fb \<le> fb_pitch fb" and "draw_loop fb x cx y color str drawn m = Some (n, m')"
  shows "confined fb m m' \<and> n \<le> drawn + length str"
  using assms(2)
proof (induction str arbitrary: cx y drawn m)
  case (Cons b str)
  show ?case
  proof (cases "b = 0x0A")
    case True
    then have "n = drawn \<and> m' = m \<or> (\<exists>y'. draw_loop fb x x y' color str drawn m = Some (n, m'))"
      using Cons.prems by (simp add: Let_def split: bind_splits if_splits) blast
    then show ?thesis
    proof (elim disjE exE)
      fix y' assume "draw_loop fb x x y' color str drawn m = Some (n, m')"
      from Cons.IH[OF this] show ?thesis by simp
    qed simp
  next
    case False
    then have "n = drawn \<and> m' = m \<or> (\<exists>c m1. draw_char fb cx y c color m = Some m1
        \<and> draw_loop fb x (cx + 8) y color str (drawn + 1) m1 = Some (n, m'))"
      using Cons.prems by (simp add: checked_simps split: bind_splits if_splits) blast+
    then show ?thesis
    proof (elim disjE exE conjE)
      fix c m1 assume c: "draw_char fb cx y c color m = Some m1" "draw_loop fb x (cx + 8) y color str (drawn + 1) m1 = Some (n, m')"
      have "confined fb m m1" using c(1) draw_rows_confined[OF assms(1)] by (simp add: draw_char_def)
      then show ?thesis using Cons.IH[OF c(2)] confined_trans[of fb m m1 m'] by simp
    qed simp
  qed
qed simp

section \<open>Properties\<close>

definition demo_fb :: Framebuffer where
  "demo_fb = \<lparr>fb_base = 0x1000, fb_width = 4, fb_height = 3, fb_pitch = 32, fb_bits_per_pixel = 32, fb_pixel_format = Bgrx8888\<rparr>"

text \<open>C16. Filling a rectangle sets exactly the pixels of the part of it that is on the screen, whatever the
  arguments, and writes no byte outside the framebuffer.\<close>

theorem fill_rect_correct:
  assumes "4 * fb_width fb \<le> fb_pitch fb" and "fb_width fb < 2 ^ 32" and "fb_height fb < 2 ^ 32"
  shows "(\<forall>u < fb_width fb. \<forall>v < fb_height fb. pixel fb (console_fill_rect fb x y w h color m) u v
      = (if x \<le> u \<and> u < x + w \<and> y \<le> v \<and> v < y + h then encode fb color else pixel fb m u v))
    \<and> (\<forall>a. a < fb_base fb \<or> fb_base fb + fb_pitch fb * fb_height fb \<le> a \<longrightarrow> console_fill_rect fb x y w h color m a = m a)"
proof (cases "fb_width fb \<le> x \<or> fb_height fb \<le> y \<or> w = 0 \<or> h = 0")
  case True
  then show ?thesis by (auto simp: console_fill_rect_def)
next
  case False
  define xe ye where "xe = min (u32_saturating_add x w) (fb_width fb)" and "ye = min (u32_saturating_add y h) (fb_height fb)"
  have xe: "xe = min (x + w) (fb_width fb)" "ye = min (y + h) (fb_height fb)"
    using assms(2,3) by (auto simp: xe_def ye_def u32_saturating_add_def)
  have b: "x + (xe - x) \<le> fb_width fb" "y + (ye - y) \<le> fb_height fb" using False xe by auto
  have f: "console_fill_rect fb x y w h color m = fill_rows fb (encode fb color) x (xe - x) y (ye - y) m"
    using False by (simp add: console_fill_rect_def xe_def ye_def Let_def)
  note r = fill_rows_correct[OF assms(1) b, of m "encode fb color"]
  have "pixel fb (console_fill_rect fb x y w h color m) u v
      = (if x \<le> u \<and> u < x + w \<and> y \<le> v \<and> v < y + h then encode fb color else pixel fb m u v)"
    if "u < fb_width fb" "v < fb_height fb" for u v
  proof -
    have "(y \<le> v \<and> v < y + (ye - y) \<and> x \<le> u \<and> u < x + (xe - x)) \<longleftrightarrow> (x \<le> u \<and> u < x + w \<and> y \<le> v \<and> v < y + h)"
      using that xe by auto
    then show ?thesis using r that f by simp
  qed
  moreover have "confined fb m (console_fill_rect fb x y w h color m)" using r f by simp
  ultimately show ?thesis by (auto simp: confined_def on_screen_def)
qed

theorem fill_rect_correct_witness:
  "pixel demo_fb (console_fill_rect demo_fb 2 1 100 100 0x123456 (\<lambda>_. 0)) 3 2 = encode demo_fb 0x123456
   \<and> pixel demo_fb (console_fill_rect demo_fb 2 1 100 100 0x123456 (\<lambda>_. 0)) 1 2 = pixel demo_fb (\<lambda>_. 0) 1 2"
  using fill_rect_correct[of demo_fb 2 1 100 100 "0x123456" "\<lambda>_. 0"] by (simp add: demo_fb_def)

text \<open>C17. Drawing text, whatever the position and the bytes, changes no byte outside the framebuffer and
  reports at most as many characters as it was given.\<close>

theorem draw_text_confined:
  assumes "4 * fb_width fb \<le> fb_pitch fb" and "draw_bytes fb x y str color m = Some (n, m')"
  shows "n \<le> length str
    \<and> (\<forall>a. a < fb_base fb \<or> fb_base fb + fb_pitch fb * fb_height fb \<le> a \<longrightarrow> m' a = m a)"
  using draw_loop_confined[OF assms(1) assms(2)[unfolded draw_bytes_def]] by (auto simp: confined_def on_screen_def)

theorem draw_text_confined_witness:
  "\<exists>n m'. draw_bytes demo_fb 0 0 [0x61] 1 (\<lambda>_. 0) = Some (n, m') \<and> n \<le> 1 \<and> m' 0 = 0"
proof -
  have d: "draw_bytes demo_fb 0 0 [0x61] 1 (\<lambda>_. 0) = Some (0, \<lambda>_. 0)"
    by (simp add: draw_bytes_def u32_add_def demo_fb_def)
  from draw_text_confined[OF _ d] show ?thesis unfolding d by (auto simp: demo_fb_def)
qed



end
