(* ===== verification/Result_Io.thy ===== *)
theory Result_Io
  imports Prelude "HOL-Library.Monad_Syntax"
begin

text \<open>
  Operations on a state that return a \<open>Result\<close> and may abort. \<open>io_bind\<close> is the operator \<open>?\<close>: an error ends
  the operation with the state as it is at that point, so partial effects stay visible.
\<close>

type_synonym ('s, 'e, 'a) io = "'s \<Rightarrow> (('e + 'a) \<times> 's) may_stop"

definition io_ok :: "'a \<Rightarrow> ('s, 'e, 'a) io" where
  "io_ok a s = Some (Inr a, s)"

definition io_err :: "'e \<Rightarrow> ('s, 'e, 'a) io" where
  "io_err e s = Some (Inl e, s)"

definition io_bind :: "('s, 'e, 'a) io \<Rightarrow> ('a \<Rightarrow> ('s, 'e, 'b) io) \<Rightarrow> ('s, 'e, 'b) io" where
  "io_bind m f s =
     (case m s of None \<Rightarrow> None
      | Some (Inl e, s1) \<Rightarrow> Some (Inl e, s1)
      | Some (Inr a, s1) \<Rightarrow> f a s1)"

text \<open>A value that may abort the operation, and a read of the state.\<close>

definition io_check :: "'a may_stop \<Rightarrow> ('s, 'e, 'a) io" where
  "io_check r s = map_option (\<lambda>a. (Inr a, s)) r"

definition io_get :: "('s, 'e, 's) io" where
  "io_get s = Some (Inr s, s)"

definition io_modify :: "('s \<Rightarrow> 's) \<Rightarrow> ('s, 'e, unit) io" where
  "io_modify f s = Some (Inr (), f s)"

named_theorems io_simps \<open>what the elementary operations return\<close>

lemma io_ok_eq [io_simps]: "io_ok a s = Some (r, s') \<longleftrightarrow> r = Inr a \<and> s' = s"
  by (auto simp: io_ok_def)

lemma io_err_eq [io_simps]: "io_err e s = Some (r, s') \<longleftrightarrow> r = Inl e \<and> s' = s"
  by (auto simp: io_err_def)

lemma io_check_eq [io_simps]: "io_check c s = Some (r, s') \<longleftrightarrow> (\<exists>a. c = Some a \<and> r = Inr a \<and> s' = s)"
  by (auto simp: io_check_def)

lemma io_get_eq [io_simps]: "io_get s = Some (r, s') \<longleftrightarrow> r = Inr s \<and> s' = s"
  by (auto simp: io_get_def)

lemma io_modify_eq [io_simps]: "io_modify f s = Some (r, s') \<longleftrightarrow> r = Inr () \<and> s' = f s"
  by (auto simp: io_modify_def)

lemma io_bind_eq [io_simps]:
  "io_bind m f s = Some (r, s') \<longleftrightarrow>
     (\<exists>e. m s = Some (Inl e, s') \<and> r = Inl e) \<or> (\<exists>a s1. m s = Some (Inr a, s1) \<and> f a s1 = Some (r, s'))"
  by (auto simp: io_bind_def split: option.splits sum.splits)

lemma io_bind_ok [simp]: "io_bind (io_ok a) f s = f a s"
  by (simp add: io_bind_def io_ok_def)

lemma io_bind_err [simp]: "io_bind (io_err e) f s = Some (Inl e, s)"
  by (simp add: io_bind_def io_err_def)

lemma io_bind_get [simp]: "io_bind io_get f s = f s s"
  by (simp add: io_bind_def io_get_def)

lemma io_bind_modify [simp]: "io_bind (io_modify g) f s = f () (g s)"
  by (simp add: io_bind_def io_modify_def)

lemma io_bind_check [simp]: "io_bind (io_check (Some a)) f s = f a s" "io_bind (io_check None) f s = None"
  by (simp_all add: io_bind_def io_check_def)

lemma io_bind_Inr: "m s = Some (Inr a, s1) \<Longrightarrow> io_bind m f s = f a s1"
  by (simp add: io_bind_def)

lemma io_bind_cong [fundef_cong]:
  "m s = m' s' \<Longrightarrow> (\<And>a s1. m' s' = Some (Inr a, s1) \<Longrightarrow> f a s1 = f' a s1) \<Longrightarrow> io_bind m f s = io_bind m' f' s'"
  by (auto simp: io_bind_def split: option.splits sum.splits)

end
