(* ===== verification/Port_Io.thy ===== *)
theory Port_Io
  imports Prelude "HOL-Library.Monad_Syntax"
begin

text \<open>
  The port instructions the drivers use (\<open>arch/x86_64/mod.rs\<close>: \<open>inb\<close>, \<open>outb\<close>, and the 16- and 32-bit forms). The
  device behind the ports is an argument, a record of what each instruction does to the state of the
  hardware, so that every statement about a driver holds for every behaviour of the device.
\<close>

record 'h port_io =
  inb :: "u16 \<Rightarrow> 'h \<Rightarrow> u8 \<times> 'h"
  outb :: "u16 \<Rightarrow> u8 \<Rightarrow> 'h \<Rightarrow> 'h"
  inw :: "u16 \<Rightarrow> 'h \<Rightarrow> u16 \<times> 'h"
  outw :: "u16 \<Rightarrow> u16 \<Rightarrow> 'h \<Rightarrow> 'h"
  inl :: "u16 \<Rightarrow> 'h \<Rightarrow> u32 \<times> 'h"
  outl :: "u16 \<Rightarrow> u32 \<Rightarrow> 'h \<Rightarrow> 'h"

text \<open>A scripted device for examples: the bytes it will answer, and a log of what was written.\<close>

type_synonym script = "u8 list \<times> (u16 \<times> nat) list"

definition script_io :: "script port_io" where
  "script_io = \<lparr>
     inb = (\<lambda>p (bs, l). case bs of [] \<Rightarrow> (0, (bs, l)) | b # r \<Rightarrow> (b, (r, l))),
     outb = (\<lambda>p v (bs, l). (bs, l @ [(p, unat v)])),
     inw = (\<lambda>p h. (0, h)), outw = (\<lambda>p v (bs, l). (bs, l @ [(p, unat v)])),
     inl = (\<lambda>p h. (0, h)), outl = (\<lambda>p v (bs, l). (bs, l @ [(p, unat v)]))\<rparr>"

end
