(* ===== verification/Ps2.thy ===== *)
theory Ps2
  imports Port_Io
begin

text \<open>
  The keyboard driver, \<open>kernel/src/drivers/ps2.rs\<close>: the scan code decoder, the two bounded byte queues (one
  for the terminal, one for the event call) and the polling of the controller.
\<close>

definition DATA_PORT :: u16 where "DATA_PORT = 0x60"
definition STATUS_PORT :: u16 where "STATUS_PORT = 0x64"
definition STATUS_OUTPUT_FULL :: u8 where "STATUS_OUTPUT_FULL = 1"
definition STATUS_INPUT_FULL :: u8 where "STATUS_INPUT_FULL = 2"
definition STATUS_AUX_DATA :: u8 where "STATUS_AUX_DATA = 32"
definition INPUT_QUEUE :: nat where "INPUT_QUEUE = 32"

section \<open>Byte queues\<close>

record ByteQueue =
  buf :: bytes
  head :: nat
  len :: nat

definition bq_new :: ByteQueue where
  "bq_new = \<lparr>buf = replicate INPUT_QUEUE 0, head = 0, len = 0\<rparr>"

definition bq_push :: "u8 \<Rightarrow> ByteQueue \<Rightarrow> ByteQueue" where
  "bq_push b q =
     (if len q = INPUT_QUEUE then q\<lparr>buf := (buf q)[head q := b], head := (head q + 1) mod INPUT_QUEUE\<rparr>
      else (let idx = (head q + len q) mod INPUT_QUEUE in
            q\<lparr>buf := (buf q)[idx := b], len := len q + 1\<rparr>))"

definition bq_pop :: "ByteQueue \<Rightarrow> u8 option \<times> ByteQueue" where
  "bq_pop q =
     (if len q = 0 then (None, q)
      else (Some (buf q ! head q), q\<lparr>head := (head q + 1) mod INPUT_QUEUE, len := len q - 1\<rparr>))"

definition bq_peek :: "ByteQueue \<Rightarrow> u8 option" where
  "bq_peek q = (if len q = 0 then None else Some (buf q ! head q))"

section \<open>Scan codes\<close>

record Keyboard =
  kb_shift :: bool
  kb_caps :: bool
  kb_extended :: bool

definition kb_new :: Keyboard where
  "kb_new = \<lparr>kb_shift = False, kb_caps = False, kb_extended = False\<rparr>"

definition letter :: "u8 \<Rightarrow> bool \<Rightarrow> bool \<Rightarrow> u8" where
  "letter b shift caps = (if shift \<noteq> caps then b - 32 else b)"

definition shifted :: "u8 \<Rightarrow> u8 \<Rightarrow> bool \<Rightarrow> u8" where
  "shifted normal shift_byte shift = (if shift then shift_byte else normal)"

datatype key = Plain u8 | Shifted u8 u8 | Letter u8

text \<open>The match of \<open>translate_set1\<close>, in its order.\<close>

definition set1 :: "(u8 \<times> key) list" where
  "set1 = [
     (0x01, Plain 0x1B), (0x02, Shifted 0x31 0x21), (0x03, Shifted 0x32 0x40), (0x04, Shifted 0x33 0x23),
     (0x05, Shifted 0x34 0x24), (0x06, Shifted 0x35 0x25), (0x07, Shifted 0x36 0x5E), (0x08, Shifted 0x37 0x26),
     (0x09, Shifted 0x38 0x2A), (0x0A, Shifted 0x39 0x28), (0x0B, Shifted 0x30 0x29), (0x0C, Shifted 0x2D 0x5F),
     (0x0D, Shifted 0x3D 0x2B), (0x0E, Plain 0x08), (0x0F, Plain 0x09),
     (0x10, Letter 0x71), (0x11, Letter 0x77), (0x12, Letter 0x65), (0x13, Letter 0x72), (0x14, Letter 0x74),
     (0x15, Letter 0x79), (0x16, Letter 0x75), (0x17, Letter 0x69), (0x18, Letter 0x6F), (0x19, Letter 0x70),
     (0x1A, Shifted 0x5B 0x7B), (0x1B, Shifted 0x5D 0x7D), (0x1C, Plain 0x0A),
     (0x1E, Letter 0x61), (0x1F, Letter 0x73), (0x20, Letter 0x64), (0x21, Letter 0x66), (0x22, Letter 0x67),
     (0x23, Letter 0x68), (0x24, Letter 0x6A), (0x25, Letter 0x6B), (0x26, Letter 0x6C),
     (0x27, Shifted 0x3B 0x3A), (0x28, Shifted 0x27 0x22), (0x29, Shifted 0x60 0x7E), (0x2B, Shifted 0x5C 0x7C),
     (0x2C, Letter 0x7A), (0x2D, Letter 0x78), (0x2E, Letter 0x63), (0x2F, Letter 0x76), (0x30, Letter 0x62),
     (0x31, Letter 0x6E), (0x32, Letter 0x6D), (0x33, Shifted 0x2C 0x3C), (0x34, Shifted 0x2E 0x3E),
     (0x35, Shifted 0x2F 0x3F), (0x39, Plain 0x20)]"

definition key_byte :: "key \<Rightarrow> bool \<Rightarrow> bool \<Rightarrow> u8" where
  "key_byte k shift caps =
     (case k of Plain b \<Rightarrow> b | Shifted n s \<Rightarrow> shifted n s shift | Letter b \<Rightarrow> letter b shift caps)"

definition translate_set1 :: "u8 \<Rightarrow> bool \<Rightarrow> bool \<Rightarrow> u8 option" where
  "translate_set1 code shift caps = map_option (\<lambda>k. key_byte k shift caps) (map_of set1 code)"

definition kb_decode :: "u8 \<Rightarrow> Keyboard \<Rightarrow> u8 option \<times> Keyboard" where
  "kb_decode scancode k =
     (if scancode = 0xE0 then (None, k\<lparr>kb_extended := True\<rparr>)
      else if scancode = 0xE1 then (None, k)
      else
        (let released = (scancode AND 0x80 \<noteq> 0); code = scancode AND 0x7F in
         if code = 0x2A \<or> code = 0x36 then (None, k\<lparr>kb_shift := \<not> released\<rparr>)
         else if code = 0x3A \<and> \<not> released then (None, k\<lparr>kb_caps := \<not> kb_caps k\<rparr>)
         else if released then (None, k)
         else if kb_extended k then (None, k\<lparr>kb_extended := False\<rparr>)
         else (translate_set1 code (kb_shift k) (kb_caps k), k)))"

section \<open>The input state\<close>

record InputState =
  keyboard :: Keyboard
  tty :: ByteQueue
  events :: ByteQueue

definition input_new :: InputState where
  "input_new = \<lparr>keyboard = kb_new, tty = bq_new, events = bq_new\<rparr>"

definition input_push :: "u8 \<Rightarrow> InputState \<Rightarrow> InputState" where
  "input_push b i = i\<lparr>tty := bq_push b (tty i), events := bq_push b (events i)\<rparr>"

section \<open>Polling\<close>

fun flush_output :: "'h port_io \<Rightarrow> nat \<Rightarrow> 'h \<Rightarrow> 'h" where
  "flush_output D 0 h = h"
| "flush_output D (Suc n) h =
     (let (status, h1) = inb D STATUS_PORT h in
      if status AND STATUS_OUTPUT_FULL = 0 then h1
      else flush_output D n (snd (inb D DATA_PORT h1)))"

fun wait_input_empty :: "'h port_io \<Rightarrow> nat \<Rightarrow> 'h \<Rightarrow> bool \<times> 'h" where
  "wait_input_empty D 0 h = (False, h)"
| "wait_input_empty D (Suc n) h =
     (let (status, h1) = inb D STATUS_PORT h in
      if status AND STATUS_INPUT_FULL = 0 then (True, h1) else wait_input_empty D n h1)"

fun wait_output_full :: "'h port_io \<Rightarrow> nat \<Rightarrow> 'h \<Rightarrow> bool \<times> 'h" where
  "wait_output_full D 0 h = (False, h)"
| "wait_output_full D (Suc n) h =
     (let (status, h1) = inb D STATUS_PORT h in
      if status AND STATUS_OUTPUT_FULL \<noteq> 0 then (True, h1) else wait_output_full D n h1)"

definition ps2_init :: "'h port_io \<Rightarrow> 'h \<Rightarrow> 'h" where
  "ps2_init D h =
     (let h1 = flush_output D 64 h;
          (empty, h2) = wait_input_empty D 100000 h1;
          h3 = (if empty then outb D DATA_PORT 0xF4 h2 else h2);
          (full, h4) = wait_output_full D 100000 h3
      in if full then snd (inb D DATA_PORT h4) else h4)"

definition poll_input :: "'h port_io \<Rightarrow> InputState \<times> 'h \<Rightarrow> InputState \<times> 'h" where
  "poll_input D s =
     (let (input, h) = s; (status, h1) = inb D STATUS_PORT h in
      if status AND STATUS_OUTPUT_FULL = 0 then (input, h1)
      else
        (let (scancode, h2) = inb D DATA_PORT h1 in
         if status AND STATUS_AUX_DATA \<noteq> 0 then (input, h2)
         else
           (let (r, kb) = kb_decode scancode (keyboard input); input1 = input\<lparr>keyboard := kb\<rparr> in
            case r of Some b \<Rightarrow> (input_push b input1, h2) | None \<Rightarrow> (input1, h2))))"

definition poll_byte :: "'h port_io \<Rightarrow> InputState \<times> 'h \<Rightarrow> u8 option \<times> InputState \<times> 'h" where
  "poll_byte D s =
     (let (input, h) = poll_input D s; (r, q) = bq_pop (tty input) in (r, input\<lparr>tty := q\<rparr>, h))"

definition poll_event_byte :: "'h port_io \<Rightarrow> InputState \<times> 'h \<Rightarrow> u8 option \<times> InputState \<times> 'h" where
  "poll_event_byte D s =
     (let (input, h) = poll_input D s; (r, q) = bq_pop (events input); input1 = input\<lparr>events := q\<rparr> in
      case r of
        None \<Rightarrow> (None, input1, h)
      | Some b \<Rightarrow>
          (Some b,
           (if bq_peek (tty input1) = Some b then input1\<lparr>tty := snd (bq_pop (tty input1))\<rparr> else input1), h))"

text \<open>The blocking read spins until a byte arrives, so it may run for ever.\<close>

partial_function (option) read_byte_blocking :: "'h port_io \<Rightarrow> InputState \<times> 'h \<Rightarrow> (u8 \<times> InputState \<times> 'h) option" where
  "read_byte_blocking D s =
     (let (r, s1) = poll_byte D s in
      case r of Some b \<Rightarrow> Some (b, s1) | None \<Rightarrow> read_byte_blocking D s1)"

declare read_byte_blocking.simps [code]

section \<open>The queue refines a bounded list\<close>

definition bq_inv :: "ByteQueue \<Rightarrow> bool" where
  "bq_inv q \<longleftrightarrow> length (buf q) = INPUT_QUEUE \<and> head q < INPUT_QUEUE \<and> len q \<le> INPUT_QUEUE"

definition bq_list :: "ByteQueue \<Rightarrow> bytes" where
  "bq_list q = map (\<lambda>i. buf q ! ((head q + i) mod INPUT_QUEUE)) [0..<len q]"

lemma length_bq_list [simp]: "length (bq_list q) = len q"
  by (simp add: bq_list_def)

lemma nth_bq_list: "i < len q \<Longrightarrow> bq_list q ! i = buf q ! ((head q + i) mod INPUT_QUEUE)"
  by (simp add: bq_list_def)

lemma bq_new_refines: "bq_inv bq_new \<and> bq_list bq_new = []"
  by (simp add: bq_inv_def bq_new_def bq_list_def INPUT_QUEUE_def)

text \<open>Two places of the ring are the same only if their distances from the head are.\<close>

lemma ring_inj: "i < INPUT_QUEUE \<Longrightarrow> j < INPUT_QUEUE \<Longrightarrow> (h + i) mod INPUT_QUEUE = (h + j) mod INPUT_QUEUE \<longleftrightarrow> i = j"
proof (induction i j rule: linorder_wlog)
  case (le i j)
  have "(h + j) mod INPUT_QUEUE = (h + i) mod INPUT_QUEUE \<longleftrightarrow> INPUT_QUEUE dvd j - i"
    using le(1) mod_eq_dvd_iff_nat[of "h + i" "h + j" INPUT_QUEUE] by simp
  moreover have "INPUT_QUEUE dvd j - i \<longleftrightarrow> j - i = 0" using le by (auto dest: dvd_imp_le)
  ultimately show ?case using le by auto
qed auto

lemma bq_push_inv: "bq_inv q \<Longrightarrow> bq_inv (bq_push b q)"
  by (auto simp: bq_inv_def bq_push_def Let_def INPUT_QUEUE_def)

lemma bq_push_room:
  assumes "bq_inv q" and "len q < INPUT_QUEUE"
  shows "bq_list (bq_push b q) = bq_list q @ [b]"
proof (rule nth_equalityI)
  show "length (bq_list (bq_push b q)) = length (bq_list q @ [b])" using assms(2) by (simp add: bq_push_def Let_def)
  fix i assume "i < length (bq_list (bq_push b q))"
  then have i: "i \<le> len q" using assms(2) by (simp add: bq_push_def Let_def)
  have b: "i < INPUT_QUEUE" "(head q + len q) mod INPUT_QUEUE < length (buf q)" using i assms by (auto simp: bq_inv_def INPUT_QUEUE_def)
  have "bq_list (bq_push b q) ! i = (buf q)[(head q + len q) mod INPUT_QUEUE := b] ! ((head q + i) mod INPUT_QUEUE)"
    using i assms(2) by (simp add: bq_push_def Let_def bq_list_def del: upt_Suc)
  also have "\<dots> = (if i = len q then b else buf q ! ((head q + i) mod INPUT_QUEUE))"
    using ring_inj[OF assms(2) b(1), of "head q"] b(2) by (auto simp: nth_list_update)
  finally show "bq_list (bq_push b q) ! i = (bq_list q @ [b]) ! i" using i by (auto simp: nth_append nth_bq_list)
qed

lemma bq_push_full:
  assumes "bq_inv q" and "len q = INPUT_QUEUE"
  shows "bq_list (bq_push b q) = tl (bq_list q) @ [b]"
proof (rule nth_equalityI)
  show "length (bq_list (bq_push b q)) = length (tl (bq_list q) @ [b])" using assms(2) by (simp add: bq_push_def INPUT_QUEUE_def)
  fix i assume "i < length (bq_list (bq_push b q))"
  then have i: "i < INPUT_QUEUE" using assms(2) by (simp add: bq_push_def)
  have "bq_list (bq_push b q) ! i = (buf q)[head q := b] ! (((head q + 1) mod INPUT_QUEUE + i) mod INPUT_QUEUE)"
    using i assms(2) by (simp add: bq_push_def bq_list_def)
  also have "((head q + 1) mod INPUT_QUEUE + i) mod INPUT_QUEUE = (head q + Suc i) mod INPUT_QUEUE"
    by (simp add: mod_add_left_eq)
  also have "(buf q)[head q := b] ! ((head q + Suc i) mod INPUT_QUEUE)
      = (if Suc i = INPUT_QUEUE then b else buf q ! ((head q + Suc i) mod INPUT_QUEUE))"
  proof (cases "Suc i = INPUT_QUEUE")
    case True
    then show ?thesis using assms by (simp add: bq_inv_def)
  next
    case False
    then have "Suc i < INPUT_QUEUE" using i by simp
    then have "(head q + Suc i) mod INPUT_QUEUE \<noteq> (head q + 0) mod INPUT_QUEUE" using ring_inj[of "Suc i" 0 "head q"] i by simp
    then have "(head q + Suc i) mod INPUT_QUEUE \<noteq> head q" using assms(1) by (simp add: bq_inv_def)
    then show ?thesis using False by simp
  qed
  finally show "bq_list (bq_push b q) ! i = (tl (bq_list q) @ [b]) ! i"
    using i assms(2) by (auto simp: nth_append nth_tl nth_bq_list)
qed

lemma bq_pop_inv: "bq_inv q \<Longrightarrow> bq_inv (snd (bq_pop q))"
  by (auto simp: bq_inv_def bq_pop_def INPUT_QUEUE_def)

lemma bq_pop_refines:
  assumes "bq_inv q"
  shows "fst (bq_pop q) = (if bq_list q = [] then None else Some (hd (bq_list q))) \<and> bq_list (snd (bq_pop q)) = tl (bq_list q)"
proof (cases "len q")
  case 0
  then show ?thesis by (simp add: bq_pop_def bq_list_def)
next
  case (Suc n)
  have "bq_list q = buf q ! head q # map (\<lambda>i. buf q ! ((head q + Suc i) mod INPUT_QUEUE)) [0..<n]"
    using assms Suc by (simp add: bq_list_def upt_conv_Cons map_Suc_upt[symmetric] bq_inv_def comp_def del: upt_Suc)
  moreover have "bq_list (snd (bq_pop q)) = map (\<lambda>i. buf q ! ((head q + Suc i) mod INPUT_QUEUE)) [0..<n]"
    using Suc by (simp add: bq_pop_def bq_list_def mod_add_left_eq)
  ultimately show ?thesis using Suc by (simp add: bq_pop_def)
qed

text \<open>C19. Each byte queue behaves as a list bounded to its capacity: a push appends, and drops the oldest byte
  when the queue is full; a pop takes the oldest byte; both keep the representation valid.\<close>

theorem byte_queue_refines:
  assumes "bq_inv q"
  shows "bq_inv (bq_push b q) \<and> bq_inv (snd (bq_pop q))
    \<and> bq_list (bq_push b q) = (if length (bq_list q) = INPUT_QUEUE then tl (bq_list q) else bq_list q) @ [b]
    \<and> bq_pop q = (case bq_list q of [] \<Rightarrow> (None, q) | x # _ \<Rightarrow> (Some x, snd (bq_pop q)))
    \<and> bq_list (snd (bq_pop q)) = tl (bq_list q)"
proof -
  have "len q \<le> INPUT_QUEUE" using assms by (simp add: bq_inv_def)
  then have "bq_list (bq_push b q) = (if length (bq_list q) = INPUT_QUEUE then tl (bq_list q) else bq_list q) @ [b]"
    using bq_push_full[OF assms] bq_push_room[OF assms] by (cases "len q = INPUT_QUEUE") simp_all
  moreover have "bq_pop q = (case bq_list q of [] \<Rightarrow> (None, q) | x # _ \<Rightarrow> (Some x, snd (bq_pop q)))"
  proof (cases "bq_list q")
    case Nil
    then have "len q = 0" using length_bq_list[of q] by simp
    then show ?thesis using Nil by (simp add: bq_pop_def)
  next
    case (Cons x xs)
    then show ?thesis using bq_pop_refines[OF assms] by (simp add: prod_eq_iff)
  qed
  ultimately show ?thesis using bq_push_inv[OF assms] bq_pop_inv[OF assms] bq_pop_refines[OF assms] by blast
qed

theorem byte_queue_refines_witness: "bq_list (bq_push 7 bq_new) = [7]"
  using byte_queue_refines[of bq_new 7] bq_new_refines by (simp add: INPUT_QUEUE_def)

definition printable :: "u8 \<Rightarrow> bool" where
  "printable b \<longleftrightarrow> 0x20 \<le> b \<and> b \<le> 0x7E"

definition typed_byte :: "u8 \<Rightarrow> bool" where
  "typed_byte b \<longleftrightarrow> printable b \<or> b = 0x08 \<or> b = 0x09 \<or> b = 0x0A \<or> b = 0x1B"

definition ascii_key :: "key \<Rightarrow> bool" where
  "ascii_key k \<longleftrightarrow> typed_byte (key_byte k True True) \<and> typed_byte (key_byte k True False)
     \<and> typed_byte (key_byte k False True) \<and> typed_byte (key_byte k False False)"

lemma set1_ascii: "\<forall>p \<in> set set1. ascii_key (snd p)"
proof -
  have "list_all (\<lambda>p. ascii_key (snd p)) set1" by code_simp
  then show ?thesis by (simp add: list_all_iff)
qed

text \<open>C20. The decoder only ever produces printable ASCII, escape, backspace, tab or newline.\<close>

theorem decode_ascii:
  assumes "kb_decode code k = (Some b, k')"
  shows "printable b \<or> b \<in> {0x08, 0x09, 0x0A, 0x1B}"
proof -
  have t: "translate_set1 (code AND 0x7F) (kb_shift k) (kb_caps k) = Some b"
    using assms by (auto simp: kb_decode_def Let_def split: if_splits)
  then obtain key where key: "(code AND 0x7F, key) \<in> set set1" "b = key_byte key (kb_shift k) (kb_caps k)"
    by (auto simp: translate_set1_def dest: map_of_SomeD)
  from bspec[OF set1_ascii key(1)] show ?thesis
    unfolding key(2) ascii_key_def by (cases "kb_shift k"; cases "kb_caps k") (simp_all add: typed_byte_def)
qed

theorem decode_ascii_witness: "kb_decode 0x1E kb_new = (Some 0x61, kb_new) \<and> (printable 0x61 \<or> (0x61 :: u8) \<in> {0x08, 0x09, 0x0A, 0x1B})"
proof -
  have "kb_decode 0x1E kb_new = (Some 0x61, kb_new)" by code_simp
  then show ?thesis using decode_ascii by blast
qed

text \<open>C21. The release of an extended key leaves the extended flag set, so the next ordinary key press is
  swallowed: after the prefix, a release code and a press, no byte is produced for the press.\<close>

theorem release_swallows_next_key:
  assumes "r AND 0x80 \<noteq> 0" "r \<noteq> 0xE0" "r \<noteq> 0xE1" and "c AND 0x80 = 0" "c \<noteq> 0xE0" "c \<noteq> 0xE1"
    and "r AND 0x7F \<notin> {0x2A, 0x36}" "c AND 0x7F \<notin> {0x2A, 0x36, 0x3A}"
  shows "fst (kb_decode c (snd (kb_decode r (snd (kb_decode 0xE0 k))))) = None"
  using assms by (simp add: kb_decode_def)

theorem release_swallows_next_key_witness:
  "fst (kb_decode 0x1E (snd (kb_decode 0xC8 (snd (kb_decode 0xE0 kb_new))))) = None"
  by (rule release_swallows_next_key) simp_all

end
