(* ===== verification/Vfs.thy ===== *)
theory Vfs
  imports Result_Io Handle_Table Ps2
begin

text \<open>
  The virtual file system, \<open>kernel/src/fs/mod.rs\<close>: the inode trait, the mount table, path resolution, the
  descriptor table of a task, and the two console inodes. The trait is a record of operations on a state
  that holds the file systems; a path or a name is the list of the bytes of the \<open>str\<close>.
\<close>

datatype InodeKind = FileKind | DirKind

datatype FsError =
    NotFound | NotDir | NotFile | Exists | InvalidPath | IsDir | Io | NoSpace | BadFd | Unsupported

record ('i, 's) inode_api =
  ino_kind :: "'i \<Rightarrow> 's \<Rightarrow> InodeKind"
  ino_size :: "'i \<Rightarrow> 's \<Rightarrow> nat"
  ino_read_at :: "'i \<Rightarrow> nat \<Rightarrow> nat \<Rightarrow> ('s, FsError, bytes) io"
  ino_write_at :: "'i \<Rightarrow> nat \<Rightarrow> bytes \<Rightarrow> ('s, FsError, nat) io"
  ino_lookup :: "'i \<Rightarrow> bytes \<Rightarrow> ('s, FsError, 'i) io"
  ino_readdir :: "'i \<Rightarrow> ('s, FsError, (bytes \<times> InodeKind) list) io"
  ino_create :: "'i \<Rightarrow> bytes \<Rightarrow> InodeKind \<Rightarrow> ('s, FsError, 'i) io"
  ino_unlink :: "'i \<Rightarrow> bytes \<Rightarrow> ('s, FsError, unit) io"

section \<open>Mount table\<close>

text \<open>A mounted file system is represented by its root inode, which is all the trait offers.\<close>

type_synonym 'i mounts = "(bytes \<times> 'i) list"

definition slash :: u8 where "slash = 0x2F"

fun replace_mount :: "bytes \<Rightarrow> 'i \<Rightarrow> 'i mounts \<Rightarrow> 'i mounts option" where
  "replace_mount path root [] = None"
| "replace_mount path root ((p, r) # ms) =
     (if p = path then Some ((p, root) # ms) else map_option ((#) (p, r)) (replace_mount path root ms))"

definition mount :: "bytes \<Rightarrow> 'i \<Rightarrow> 'i mounts \<Rightarrow> 'i mounts" where
  "mount path root m =
     (case replace_mount path root m of
        Some m' \<Rightarrow> m'
      | None \<Rightarrow> sort_key (\<lambda>e. - int (length (fst e))) (m @ [(path, root)]))"

definition covers :: "bytes \<Rightarrow> bytes \<Rightarrow> bool" where
  "covers mp path \<longleftrightarrow> path = mp \<or>
     (take (length mp) path = mp \<and> length mp \<le> length path
      \<and> ((mp \<noteq> [] \<and> last mp = slash) \<or> (length mp < length path \<and> path ! length mp = slash)))"

fun resolve_mount :: "'i mounts \<Rightarrow> bytes \<Rightarrow> ('i \<times> bytes) option" where
  "resolve_mount [] path = None"
| "resolve_mount ((mp, root) # ms) path =
     (if path = mp then Some (root, [slash])
      else if covers mp path then
        (let rest = drop (length mp) path in Some (root, if rest = [] then [slash] else rest))
      else resolve_mount ms path)"

section \<open>Paths\<close>

text \<open>\<open>split('/')\<close> and the filter that drops the empty components.\<close>

fun split_slash :: "bytes \<Rightarrow> bytes list" where
  "split_slash [] = [[]]"
| "split_slash (b # bs) =
     (if b = slash then [] # split_slash bs
      else (case split_slash bs of c # cs \<Rightarrow> (b # c) # cs | [] \<Rightarrow> [[b]]))"

definition components :: "bytes \<Rightarrow> bytes list" where
  "components path = filter (\<lambda>c. c \<noteq> []) (split_slash path)"

fun walk :: "('i, 's) inode_api \<Rightarrow> 'i \<Rightarrow> bytes list \<Rightarrow> ('s, FsError, 'i) io" where
  "walk A node [] = io_ok node"
| "walk A node (c # cs) = io_bind (ino_lookup A node c) (\<lambda>n. walk A n cs)"

definition vfs_lookup :: "('i, 's) inode_api \<Rightarrow> 'i mounts \<Rightarrow> bytes \<Rightarrow> ('s, FsError, 'i) io" where
  "vfs_lookup A m path =
     (if path = [] \<or> hd path \<noteq> slash then io_err InvalidPath
      else (case resolve_mount m path of
          None \<Rightarrow> io_err NotFound
        | Some (root, rest) \<Rightarrow> walk A root (components rest)))"

text \<open>\<open>rfind('/')\<close>: the last index of the separator.\<close>

fun rfind :: "u8 \<Rightarrow> bytes \<Rightarrow> nat option" where
  "rfind c [] = None"
| "rfind c (b # bs) =
     (case rfind c bs of Some i \<Rightarrow> Some (i + 1) | None \<Rightarrow> if b = c then Some 0 else None)"

definition split_parent :: "bytes \<Rightarrow> (bytes \<times> bytes) option" where
  "split_parent path =
     (if path = [] \<or> hd path \<noteq> slash then None
      else (case rfind slash path of None \<Rightarrow> None
        | Some idx \<Rightarrow>
            (let name = drop (idx + 1) path in
             if name = [] then None
             else Some (if idx = 0 then [slash] else take idx path, name))))"

section \<open>Open files and descriptor tables\<close>

text \<open>An open file (an \<open>Arc<OpenFile>\<close>) is referred to by its index in the list of all that were ever opened;
  the descriptors of a task may share one.\<close>

record 'i OpenFile =
  of_inode :: 'i
  of_offset :: nat
  of_flags :: nat

definition FD_READ :: nat where "FD_READ = 1"
definition FD_WRITE :: nat where "FD_WRITE = 2"
definition FD_CREATE :: nat where "FD_CREATE = 4"

definition open_file_new :: "'i \<Rightarrow> nat \<Rightarrow> 'i OpenFile" where
  "open_file_new i flags = \<lparr>of_inode = i, of_offset = 0, of_flags = flags\<rparr>"

record FdTable =
  fd_slots :: "(int \<times> nat) list"
  fd_next :: int

definition fd_table_new :: FdTable where
  "fd_table_new = \<lparr>fd_slots = [], fd_next = 0\<rparr>"

definition fd_install :: "nat \<Rightarrow> FdTable \<Rightarrow> (int \<times> FdTable) may_stop" where
  "fd_install f t =
     (let fd = fd_next t in
      do { n \<leftarrow> i32_succ fd; Some (fd, \<lparr>fd_slots = AList.update fd f (fd_slots t), fd_next = n\<rparr>) })"

definition fd_install_at :: "int \<Rightarrow> nat \<Rightarrow> FdTable \<Rightarrow> FdTable may_stop" where
  "fd_install_at fd f t =
     (let t1 = t\<lparr>fd_slots := AList.update fd f (fd_slots t)\<rparr> in
      if fd_next t1 \<le> fd then do { n \<leftarrow> i32_succ fd; Some (t1\<lparr>fd_next := n\<rparr>) } else Some t1)"

definition fd_get :: "FdTable \<Rightarrow> int \<Rightarrow> nat option" where
  "fd_get t fd = map_of (fd_slots t) fd"

definition fd_close :: "int \<Rightarrow> FdTable \<Rightarrow> bool \<times> FdTable" where
  "fd_close fd t = (map_of (fd_slots t) fd \<noteq> None, t\<lparr>fd_slots := AList.delete fd (fd_slots t)\<rparr>)"

section \<open>The console inodes\<close>

text \<open>The serial port: writing a byte waits for the transmitter, for ever if it never gets ready.\<close>

definition can_write :: "'h port_io \<Rightarrow> u16 \<Rightarrow> 'h \<Rightarrow> bool \<times> 'h" where
  "can_write D base h = (let (b, h1) = inb D (base + 5) h in (b AND 0x20 \<noteq> 0, h1))"

partial_function (option) write_byte :: "'h port_io \<Rightarrow> u16 \<Rightarrow> u8 \<Rightarrow> 'h \<Rightarrow> 'h option" where
  "write_byte D base b h =
     (let (ready, h1) = can_write D base h in
      if ready then Some (outb D base b h1) else write_byte D base b h1)"

definition serial_init :: "'h port_io \<Rightarrow> u16 \<Rightarrow> 'h \<Rightarrow> 'h" where
  "serial_init D base h =
     foldl (\<lambda>h (off, v). outb D (base + off) v h) h
       [(1, 0x00), (3, 0x80), (0, 0x01), (1, 0x00), (3, 0x03), (2, 0xC7), (4, 0x0B)]"

fun write_all :: "'h port_io \<Rightarrow> u16 \<Rightarrow> bytes \<Rightarrow> 'h \<Rightarrow> 'h may_stop" where
  "write_all D base [] h = Some h"
| "write_all D base (b # bs) h = do { h1 \<leftarrow> write_byte D base b h; write_all D base bs h1 }"

fun write_str :: "'h port_io \<Rightarrow> u16 \<Rightarrow> bytes \<Rightarrow> 'h \<Rightarrow> 'h may_stop" where
  "write_str D base [] h = Some h"
| "write_str D base (b # bs) h =
     do { h1 \<leftarrow> (if b = 0x0A then write_byte D base 0x0D h else Some h);
          h2 \<leftarrow> write_byte D base b h1;
          write_str D base bs h2 }"

fun dec_digits :: "nat \<Rightarrow> bytes \<Rightarrow> bytes" where
  "dec_digits v acc = (if v = 0 then acc else dec_digits (v div 10) (of_nat (0x30 + v mod 10) # acc))"

declare dec_digits.simps [simp del]

definition write_dec_u32 :: "'h port_io \<Rightarrow> u16 \<Rightarrow> nat \<Rightarrow> 'h \<Rightarrow> 'h may_stop" where
  "write_dec_u32 D base v h =
     (if v = 0 then write_byte D base 0x30 h else write_all D base (dec_digits v []) h)"

definition COM1 :: u16 where "COM1 = 0x3F8"

definition tty_echo :: "'h port_io \<Rightarrow> u8 \<Rightarrow> 'h \<Rightarrow> 'h may_stop" where
  "tty_echo D b h =
     (if b = 0x0A then write_all D COM1 [0x0D, 0x0A] h
      else if b = 0x08 then write_all D COM1 [0x08, 0x20, 0x08] h
      else write_byte D COM1 b h)"

text \<open>\<open>TtyStdin::read_at\<close>: one line with backspace editing. The bytes read so far are kept in order.\<close>

partial_function (option) tty_read ::
  "'h port_io \<Rightarrow> nat \<Rightarrow> bytes \<Rightarrow> InputState \<times> 'h \<Rightarrow> (bytes \<times> InputState \<times> 'h) option" where
  "tty_read D cap got s =
     (if cap \<le> length got then Some (got, s)
      else do {
        (b, input, h) \<leftarrow> read_byte_blocking D s;
        if b = 0x0A then do { h1 \<leftarrow> tty_echo D b h; Some (got @ [b], input, h1) }
        else if b = 0x08 then
          (if got \<noteq> [] then do { h1 \<leftarrow> tty_echo D b h; tty_read D cap (butlast got) (input, h1) }
           else tty_read D cap got (input, h))
        else if (0x20 \<le> b \<and> b \<le> 0x7E) \<or> b = 0x09
        then do { h1 \<leftarrow> tty_echo D b h; tty_read D cap (got @ [b]) (input, h1) }
        else tty_read D cap got (input, h) })"

definition serial_out_byte :: "u8 \<Rightarrow> u8" where
  "serial_out_byte b = (if (0x20 \<le> b \<and> b \<le> 0x7E) \<or> b = 0x0A then b else 0x2E)"

definition serial_write_at :: "'h port_io \<Rightarrow> bytes \<Rightarrow> 'h \<Rightarrow> (nat \<times> 'h) may_stop" where
  "serial_write_at D bs h = do { h1 \<leftarrow> write_all D COM1 (map serial_out_byte bs) h; Some (length bs, h1) }"

text \<open>The two console inodes as instances of the trait; they have no directory operations.\<close>

definition tty_stdin :: "'h port_io \<Rightarrow> ('i, InputState \<times> 'h) inode_api" where
  "tty_stdin D = \<lparr>ino_kind = (\<lambda>_ _. FileKind), ino_size = (\<lambda>_ _. 0),
     ino_read_at = (\<lambda>_ _ n s. map_option (\<lambda>(r, s'). (Inr r, s')) (tty_read D n [] s)),
     ino_write_at = (\<lambda>_ _ _. io_err Unsupported),
     ino_lookup = (\<lambda>_ _. io_err NotDir), ino_readdir = (\<lambda>_. io_err NotDir),
     ino_create = (\<lambda>_ _ _. io_err NotDir), ino_unlink = (\<lambda>_ _. io_err NotDir)\<rparr>"

definition serial_stdout :: "'h port_io \<Rightarrow> ('i, InputState \<times> 'h) inode_api" where
  "serial_stdout D = \<lparr>ino_kind = (\<lambda>_ _. FileKind), ino_size = (\<lambda>_ _. 0),
     ino_read_at = (\<lambda>_ _ _. io_ok []),
     ino_write_at = (\<lambda>_ _ bs (input, h). map_option (\<lambda>(n, h'). (Inr n, (input, h'))) (serial_write_at D bs h)),
     ino_lookup = (\<lambda>_ _. io_err NotDir), ino_readdir = (\<lambda>_. io_err NotDir),
     ino_create = (\<lambda>_ _ _. io_err NotDir), ino_unlink = (\<lambda>_ _. io_err NotDir)\<rparr>"

declare write_byte.simps [code] tty_read.simps [code]

end
