(* ===== verification/Vfs_Correct.thy ===== *)
theory Vfs_Correct
  imports Vfs "HOL-Library.Sublist"
begin

text \<open>
  Properties of the virtual file system layer: the descriptor table keeps the contract of a handle
  table, the mount table resolves a path to the longest mount point that covers it, splitting a path
  into parent and name loses nothing, and the terminal hands out at most one edited line.
\<close>

section \<open>The descriptor table keeps the contract of a handle table\<close>

definition fd_table_ok :: "FdTable \<Rightarrow> bool" where
  "fd_table_ok t \<longleftrightarrow> distinct (keys (fd_slots t)) \<and> (\<forall>k \<in> set (keys (fd_slots t)). k < fd_next t)"

definition fd_contents :: "FdTable \<Rightarrow> nat multiset" where
  "fd_contents t = vals (fd_slots t)"

definition fd_remove :: "int \<Rightarrow> FdTable \<Rightarrow> nat option \<times> FdTable" where
  "fd_remove fd t = (fd_get t fd, snd (fd_close fd t))"

interpretation fdt: handle_table fd_table_ok fd_next fd_get fd_contents fd_install fd_remove
proof unfold_locales
  fix t i v
  assume "fd_table_ok t" "fd_get t i = Some v"
  moreover from this have "i \<in> set (keys (fd_slots t))" by (metis fd_get_def map_of_iff_keys option.distinct(1))
  ultimately show "i < fd_next t \<and> v \<in># fd_contents t"
    by (auto simp: fd_table_ok_def fd_get_def fd_contents_def map_of_in_vals)
next
  fix t v i t'
  assume ok: "fd_table_ok t" and i: "fd_install v t = Some (i, t')"
  have new: "fd_next t \<notin> set (keys (fd_slots t))" using ok by (auto simp: fd_table_ok_def)
  have t': "i = fd_next t" "t' = \<lparr>fd_slots = AList.update (fd_next t) v (fd_slots t), fd_next = fd_next t + 1\<rparr>"
    using i by (auto simp: fd_install_def Let_def checked_simps split: bind_splits)
  show "fd_table_ok t' \<and> i = fd_next t \<and> fd_next t' = fd_next t + 1 \<and> fd_get t' = (fd_get t)(i \<mapsto> v)
      \<and> fd_contents t' = add_mset v (fd_contents t)"
    using ok new by (auto simp: t' fd_table_ok_def fd_contents_def fd_get_def update_conv' fun_eq_iff)
next
  fix t :: FdTable and v
  assume "fd_next t + 1 < 2 ^ 31"
  then show "fd_install v t \<noteq> None" by (simp add: fd_install_def i32_succ_def Let_def)
next
  fix t i r t'
  assume ok: "fd_table_ok t" and r: "fd_remove i t = (r, t')"
  have t': "r = fd_get t i" "t' = t\<lparr>fd_slots := AList.delete i (fd_slots t)\<rparr>" using r by (auto simp: fd_remove_def fd_close_def)
  have "fd_contents t = fd_contents t' + (case r of None \<Rightarrow> {#} | Some v \<Rightarrow> {#v#})"
  proof (cases "fd_get t i")
    case None
    then have "AList.delete i (fd_slots t) = fd_slots t" by (simp add: fd_get_def map_of_eq_None_iff)
    then show ?thesis using None by (simp add: t' fd_contents_def)
  next
    case (Some v)
    then show ?thesis using vals_delete[of "fd_slots t" i v] ok by (simp add: t' fd_contents_def fd_get_def fd_table_ok_def)
  qed
  then show "fd_table_ok t' \<and> r = fd_get t i \<and> fd_next t' = fd_next t \<and> fd_get t' = (fd_get t)(i := None)
      \<and> fd_contents t = fd_contents t' + (case r of None \<Rightarrow> {#} | Some v \<Rightarrow> {#v#})"
    using ok by (auto simp: t' fd_table_ok_def fd_get_def delete_conv' fun_eq_iff)
qed

lemma fd_new_ok: "fd_table_ok fd_table_new"
  by (simp add: fd_table_ok_def fd_table_new_def)

lemma fd_install_at_ok:
  assumes "fd_table_ok t" and "fd_install_at fd f t = Some t'"
  shows "fd_table_ok t' \<and> fd_get t' fd = Some f \<and> (\<forall>g. g \<noteq> fd \<longrightarrow> fd_get t' g = fd_get t g)"
  using assms by (fastforce simp: fd_install_at_def fd_table_ok_def fd_get_def update_conv' checked_simps Let_def
      split: if_splits bind_splits)

section \<open>Mounts\<close>

definition mounts_ok :: "'i mounts \<Rightarrow> bool" where
  "mounts_ok m \<longleftrightarrow> distinct (map fst m) \<and> sorted (map (\<lambda>e. - int (length (fst e))) m)"

lemma replace_mount_None: "replace_mount p r m = None \<longleftrightarrow> p \<notin> fst ` set m"
proof (induction m)
  case (Cons e m)
  then show ?case by (cases e) auto
qed simp

lemma replace_mount_Some:
  "replace_mount p r m = Some m' \<Longrightarrow> map fst m' = map fst m \<and> map_of m' = (map_of m)(p \<mapsto> r)"
proof (induction m arbitrary: m')
  case (Cons e m)
  then show ?case by (cases e) (auto split: if_splits simp: fun_upd_twist)
qed simp

lemma mount_ok:
  assumes "mounts_ok m"
  shows "mounts_ok (mount p r m) \<and> map_of (mount p r m) = (map_of m)(p \<mapsto> r)"
proof (cases "replace_mount p r m")
  case (Some m')
  note s = replace_mount_Some[OF Some]
  have "map (\<lambda>e. - int (length (fst e))) m' = map (\<lambda>p. - int (length p)) (map fst m')" by simp
  then have "map (\<lambda>e. - int (length (fst e))) m' = map (\<lambda>e. - int (length (fst e))) m" using s by simp
  then show ?thesis using assms s Some by (simp add: mount_def mounts_ok_def)
next
  case None
  then have new: "p \<notin> fst ` set m" by (simp add: replace_mount_None)
  let ?k = "\<lambda>e :: bytes \<times> 'a. - int (length (fst e))"
  have eq: "mount p r m = sort_key ?k (m @ [(p, r)])" using None by (simp add: mount_def)
  have d: "distinct (map fst (m @ [(p, r)]))" using assms new by (simp add: mounts_ok_def)
  have "mset (map fst (sort_key ?k (m @ [(p, r)]))) = mset (map fst (m @ [(p, r)]))" by (simp only: mset_map mset_sort)
  then have d': "distinct (map fst (sort_key ?k (m @ [(p, r)])))" using d by (metis mset_eq_imp_distinct_iff)
  moreover have "map_of (sort_key ?k (m @ [(p, r)])) = (map_of m)(p \<mapsto> r)"
  proof -
    have "map_of (sort_key ?k (m @ [(p, r)])) = map_of (m @ [(p, r)])"
      using d d' by (intro map_of_inject_set[THEN iffD2]) simp_all
    also have "\<dots> = map_of ((p, r) # m)" using d new by (intro map_of_inject_set[THEN iffD2]) auto
    finally show ?thesis by simp
  qed
  ultimately show ?thesis unfolding eq mounts_ok_def by simp
qed

lemma resolve_mount_Some:
  assumes "resolve_mount m path = Some (root, rest)"
  shows "\<exists>mp i. i < length m \<and> m ! i = (mp, root) \<and> covers mp path \<and> (\<forall>j < i. \<not> covers (fst (m ! j)) path)
    \<and> (components rest = components (drop (length mp) path))"
  using assms
proof (induction m)
  case (Cons e m)
  obtain mp r where e: "e = (mp, r)" by fastforce
  show ?case
  proof (cases "covers mp path")
    case True
    have "components [slash] = components ([] :: bytes)" by (simp add: components_def)
    then have "root = r \<and> components rest = components (drop (length mp) path)"
      using Cons.prems True e by (auto simp: Let_def split: if_splits)
    then show ?thesis using True e by (intro exI[of _ mp] exI[of _ 0]) simp
  next
    case False
    then have "path \<noteq> mp" by (auto simp: covers_def)
    then have "resolve_mount m path = Some (root, rest)" using Cons.prems False e by simp
    from Cons.IH[OF this] obtain mp' i where i: "i < length m" "m ! i = (mp', root)" "covers mp' path"
      "\<forall>j < i. \<not> covers (fst (m ! j)) path" "components rest = components (drop (length mp') path)" by blast
    have "\<not> covers (fst ((e # m) ! j)) path" if "j < Suc i" for j
      using that i(4) False e by (cases j) auto
    then show ?thesis using i by (intro exI[of _ mp'] exI[of _ "Suc i"]) simp
  qed
qed simp

lemma resolve_mount_None: "resolve_mount m path = None \<longleftrightarrow> (\<forall>e \<in> set m. \<not> covers (fst e) path)"
proof (induction m)
  case (Cons e m)
  then show ?case by (cases e) (auto simp: covers_def Let_def)
qed simp

section \<open>Paths\<close>

lemma rfind_None: "rfind c bs = None \<longleftrightarrow> c \<notin> set bs"
  by (induction bs) (auto split: option.splits)

lemma rfind_Some: "rfind c bs = Some i \<Longrightarrow> i < length bs \<and> bs ! i = c \<and> c \<notin> set (drop (i + 1) bs)"
proof (induction bs arbitrary: i)
  case (Cons b bs)
  then show ?case by (cases "rfind c bs") (auto split: if_splits simp: rfind_None)
qed simp

section \<open>The terminal\<close>

definition line_byte :: "u8 \<Rightarrow> bool" where
  "line_byte b \<longleftrightarrow> (0x20 \<le> b \<and> b \<le> 0x7E) \<or> b = 0x09"

definition line_ok :: "nat \<Rightarrow> bytes \<Rightarrow> bytes \<Rightarrow> bool" where
  "line_ok cap got r \<longleftrightarrow> length r \<le> max cap (length got)
     \<and> (list_all line_byte r \<or> (\<exists>l. r = l @ [0x0A] \<and> list_all line_byte l))"

lemma line_ok_mono: "line_ok cap got r \<Longrightarrow> length got \<le> max cap (length got') \<Longrightarrow> line_ok cap got' r"
  by (auto simp: line_ok_def)

lemma list_all_butlast: "list_all P xs \<Longrightarrow> list_all P (butlast xs)"
  by (metis in_set_butlastD list_all_iff)

lemma tty_read_line:
  assumes "tty_read D cap got s = Some y"
  shows "list_all line_byte got \<longrightarrow> line_ok cap got (fst y)"
proof (rule tty_read.raw_induct[OF _ assms])
  fix f D cap got s y
  assume ih: "\<And>D cap got s y. f D cap got s = Some y \<Longrightarrow> list_all line_byte got \<longrightarrow> line_ok cap got (fst y)"
    and step: "(if cap \<le> length got then Some (got, s)
      else do {
        (b, input, h) \<leftarrow> read_byte_blocking D s;
        if b = 0x0A then do { h1 \<leftarrow> tty_echo D b h; Some (got @ [b], input, h1) }
        else if b = 0x08 then
          (if got \<noteq> [] then do { h1 \<leftarrow> tty_echo D b h; f D cap (butlast got) (input, h1) }
           else f D cap got (input, h))
        else if (0x20 \<le> b \<and> b \<le> 0x7E) \<or> b = 0x09
        then do { h1 \<leftarrow> tty_echo D b h; f D cap (got @ [b]) (input, h1) }
        else f D cap got (input, h) }) = Some y"
  show "list_all line_byte got \<longrightarrow> line_ok cap got (fst y)"
  proof
    assume got: "list_all line_byte got"
    show "line_ok cap got (fst y)"
    proof (cases "cap \<le> length got")
      case True
      then show ?thesis using step got by (auto simp: line_ok_def)
    next
      case False
      then obtain b input h where b: "read_byte_blocking D s = Some (b, input, h)"
        using step by (auto split: bind_splits)
      have rec: "line_ok cap got (fst y)"
        if "f D cap got' st = Some y" "list_all line_byte got'" "length got' \<le> length got + 1" for got' st
        using ih[OF that(1)] that(2,3) False line_ok_mono[of cap got' "fst y" got] by simp
      have nl: "line_ok cap got (got @ [0x0A])" using got False by (auto simp: line_ok_def)
      consider "b = 0x0A" | "b = 0x08" | "line_byte b" "b \<noteq> 0x0A" "b \<noteq> 0x08" | "\<not> line_byte b" "b \<noteq> 0x0A" "b \<noteq> 0x08" by blast
      then show ?thesis
      proof cases
        case 1
        then show ?thesis using step False b nl by (auto split: bind_splits)
      next
        case 2
        then have "\<exists>got' st. f D cap got' st = Some y \<and> (got' = got \<or> got' = butlast got)"
          using step False b by (auto split: bind_splits if_splits)
        then show ?thesis using rec got list_all_butlast[OF got] by auto
      next
        case 3
        then have "\<exists>st. f D cap (got @ [b]) st = Some y"
          using step False b by (auto simp: line_byte_def split: bind_splits)
        then show ?thesis using rec[of "got @ [b]"] got 3(1) by auto
      next
        case 4
        then have "f D cap got (input, h) = Some y" using step False b by (auto simp: line_byte_def)
        then show ?thesis using rec[of got] got by simp
      qed
    qed
  qed
qed

section \<open>Properties\<close>

text \<open>C22. Mounting keeps the table sorted and without duplicates, and a path is resolved to the mount point that
  covers it and is at least as long as every other mount point that covers it; the rest of the path
  has the components that follow the mount point.\<close>

theorem longest_mount_wins:
  assumes "mounts_ok m" and "resolve_mount (mount p r m) path = Some (root, rest)"
  shows "mounts_ok (mount p r m) \<and> (\<exists>mp. map_of (mount p r m) mp = Some root \<and> covers mp path
    \<and> components rest = components (drop (length mp) path)
    \<and> (\<forall>mp' root'. map_of (mount p r m) mp' = Some root' \<longrightarrow> covers mp' path \<longrightarrow> length mp' \<le> length mp))"
proof -
  let ?m = "mount p r m"
  have ok: "mounts_ok ?m" using mount_ok[OF assms(1)] by blast
  obtain mp i where i: "i < length ?m" "?m ! i = (mp, root)" "covers mp path" "\<forall>j < i. \<not> covers (fst (?m ! j)) path"
    "components rest = components (drop (length mp) path)"
    using resolve_mount_Some[OF assms(2)] by blast
  have "map_of ?m mp = Some root"
    using ok i(1,2) by (intro map_of_is_SomeI) (auto simp: mounts_ok_def dest: nth_mem)
  moreover have "length mp' \<le> length mp" if m': "map_of ?m mp' = Some root'" "covers mp' path" for mp' root'
  proof -
    obtain j where j: "j < length ?m" "?m ! j = (mp', root')" using map_of_SomeD[OF m'(1)] by (auto simp: in_set_conv_nth)
    have "\<not> j < i" using i(4) j(2) m'(2) by auto
    then have "i \<le> j" by simp
    then have "- int (length (fst (?m ! i))) \<le> - int (length (fst (?m ! j)))"
      using ok j(1) by (auto simp: mounts_ok_def dest!: sorted_nth_mono[of _ i j])
    then show ?thesis using i(2) j(2) by simp
  qed
  ultimately show ?thesis using ok i(3,5) by blast
qed

definition demo_mounts :: "nat mounts" where
  "demo_mounts = mount [0x2F] 0 []"

theorem longest_mount_wins_witness:
  "resolve_mount (mount [0x2F, 0x62] 1 demo_mounts) [0x2F, 0x62, 0x2F, 0x61] = Some (1, [0x2F, 0x61])
   \<and> mounts_ok (mount [0x2F, 0x62] 1 demo_mounts)"
proof -
  have e: "resolve_mount (mount [0x2F, 0x62] 1 demo_mounts) [0x2F, 0x62, 0x2F, 0x61] = Some (1, [0x2F, 0x61])" by code_simp
  have "mounts_ok demo_mounts" by (simp add: demo_mounts_def mount_def mounts_ok_def)
  then show ?thesis using e longest_mount_wins[OF _ e] by blast
qed

text \<open>C23. Splitting an absolute path gives a non-empty last component without separator and a parent from which the
  path is put together again; it fails exactly for a relative path and for one that ends in a separator.\<close>

theorem split_parent_correct:
  "case split_parent path of
     Some (parent, name) \<Rightarrow> (path = parent @ [slash] @ name \<or> parent = [slash] \<and> path = parent @ name)
       \<and> name \<noteq> [] \<and> slash \<notin> set name \<and> hd parent = slash
   | None \<Rightarrow> path = [] \<or> hd path \<noteq> slash \<or> last path = slash"
proof (cases "path = [] \<or> hd path \<noteq> slash")
  case True
  then show ?thesis by (auto simp: split_parent_def)
next
  case False
  then have "slash \<in> set path" by (metis hd_in_set)
  then obtain i where i: "rfind slash path = Some i" using rfind_None[of slash path] by fastforce
  note r = rfind_Some[OF i]
  have split: "path = take i path @ slash # drop (i + 1) path" using r id_take_nth_drop[of i path] by simp
  show ?thesis
  proof (cases "drop (i + 1) path = []")
    case True
    then have "path = take i path @ [slash]" using split by metis
    then have "last path = slash" by (metis last_snoc)
    then show ?thesis using True False i by (simp add: split_parent_def)
  next
    case False': False
    show ?thesis
    proof (cases "i = 0")
      case True
      then show ?thesis using False False' i r split by (simp add: split_parent_def)
    next
      case i0: False
      have hd: "hd (take i path) = slash" using False i0 by (simp add: hd_take)
      have "split_parent path = Some (take i path, drop (i + 1) path)"
        using False False' i i0 by (simp add: split_parent_def)
      then show ?thesis using False' r hd split by simp
    qed
  qed
qed

text \<open>The path \<open>/a/b\<close>.\<close>

theorem split_parent_correct_witness:
  "split_parent [0x2F, 0x61, 0x2F, 0x62] = Some ([0x2F, 0x61], [0x62]) \<and>
   [0x2F, 0x61, 0x2F, 0x62] = [0x2F, 0x61] @ [slash] @ [0x62]"
proof -
  have "split_parent [0x2F, 0x61, 0x2F, 0x62] = Some ([0x2F, 0x61], [0x62])" by code_simp
  then show ?thesis using split_parent_correct[of "[0x2F, 0x61, 0x2F, 0x62]"] by (simp add: slash_def)
qed



text \<open>The keys a and enter, with the transmitter ready each time.\<close>

lemma demo_tty: "tty_read script_io 8 [] (input_new, [1, 0x1E, 0x20, 1, 0x1C, 0x20, 0x20], [])
    = Some ([0x61, 0x0A], input_new\<lparr>tty := (tty input_new)\<lparr>buf := (buf (tty input_new))[0 := 0x61, 1 := 0x0A], head := 2\<rparr>,
        events := (events input_new)\<lparr>buf := (buf (events input_new))[0 := 0x61, 1 := 0x0A], len := 2\<rparr>\<rparr>, [],
        [(0x3F8, 0x61), (0x3F8, 0x0D), (0x3F8, 0x0A)])"
  by code_simp


end
