(* ===== verification/Ramfs.thy ===== *)
theory Ramfs
  imports Vfs
begin

text \<open>
  The in-memory file system, \<open>kernel/src/fs/ramfs.rs\<close>. A node (an \<open>Arc<RamInode>\<close>) is referred to by its index in
  the list of all nodes; a node that is unlinked stays there, as it stays alive for whoever has it open.
\<close>

record Entry =
  e_kind :: InodeKind
  e_data :: bytes
  e_children :: "(bytes \<times> nat) list"

type_synonym ramfs = "Entry list"

definition new_file :: "bytes \<Rightarrow> ramfs \<Rightarrow> nat \<times> ramfs" where
  "new_file d s = (length s, s @ [\<lparr>e_kind = FileKind, e_data = d, e_children = []\<rparr>])"

definition new_dir :: "ramfs \<Rightarrow> nat \<times> ramfs" where
  "new_dir s = (length s, s @ [\<lparr>e_kind = DirKind, e_data = [], e_children = []\<rparr>])"

definition ram_kind :: "nat \<Rightarrow> ramfs \<Rightarrow> InodeKind" where
  "ram_kind i s = e_kind (s ! i)"

definition ram_size :: "nat \<Rightarrow> ramfs \<Rightarrow> nat" where
  "ram_size i s = length (e_data (s ! i))"

definition ram_read_at :: "nat \<Rightarrow> nat \<Rightarrow> nat \<Rightarrow> (ramfs, FsError, bytes) io" where
  "ram_read_at i off n s =
     (let g = s ! i in
      if e_kind g \<noteq> FileKind then io_err IsDir s
      else if length (e_data g) \<le> off then io_ok [] s
      else io_ok (take (min n (length (e_data g) - off)) (drop off (e_data g))) s)"

text \<open>The vector grows with zeros up to the end of the write.\<close>

definition ram_write_at :: "nat \<Rightarrow> nat \<Rightarrow> bytes \<Rightarrow> (ramfs, FsError, nat) io" where
  "ram_write_at i off bs s =
     (let g = s ! i in
      if e_kind g \<noteq> FileKind then io_err IsDir s
      else
        io_bind (io_check (u64_add off (length bs))) (\<lambda>fin s.
          (let d = (if length (e_data g) < fin then e_data g @ replicate (fin - length (e_data g)) 0 else e_data g);
               d' = take off d @ bs @ drop fin d in
           io_ok (length bs) (s[i := g\<lparr>e_data := d'\<rparr>]))) s)"

definition ram_lookup :: "nat \<Rightarrow> bytes \<Rightarrow> (ramfs, FsError, nat) io" where
  "ram_lookup i name s =
     (let g = s ! i in
      if e_kind g \<noteq> DirKind then io_err NotDir s
      else (case map_of (e_children g) name of Some c \<Rightarrow> io_ok c s | None \<Rightarrow> io_err NotFound s))"

definition ram_readdir :: "nat \<Rightarrow> (ramfs, FsError, (bytes \<times> InodeKind) list) io" where
  "ram_readdir i s =
     (let g = s ! i in
      if e_kind g \<noteq> DirKind then io_err NotDir s
      else io_ok (map (\<lambda>(n, c). (n, e_kind (s ! c))) (e_children g)) s)"

text \<open>The children are a \<open>BTreeMap\<close>: a new name goes to its place in the order of the names.\<close>

fun bytes_less :: "bytes \<Rightarrow> bytes \<Rightarrow> bool" where
  "bytes_less [] ys = (ys \<noteq> [])"
| "bytes_less (x # xs) [] = False"
| "bytes_less (x # xs) (y # ys) = (x < y \<or> x = y \<and> bytes_less xs ys)"

fun btree_insert :: "bytes \<Rightarrow> 'v \<Rightarrow> (bytes \<times> 'v) list \<Rightarrow> (bytes \<times> 'v) list" where
  "btree_insert k v [] = [(k, v)]"
| "btree_insert k v ((k', v') # m) =
     (if k = k' then (k, v) # m
      else if bytes_less k k' then (k, v) # (k', v') # m
      else (k', v') # btree_insert k v m)"

definition ram_create :: "nat \<Rightarrow> bytes \<Rightarrow> InodeKind \<Rightarrow> (ramfs, FsError, nat) io" where
  "ram_create i name kind s =
     (let g = s ! i in
      if e_kind g \<noteq> DirKind then io_err NotDir s
      else if map_of (e_children g) name \<noteq> None then io_err Exists s
      else
        (let (n, s1) = (case kind of FileKind \<Rightarrow> new_file [] s | DirKind \<Rightarrow> new_dir s) in
         io_ok n (s1[i := g\<lparr>e_children := btree_insert name n (e_children g)\<rparr>])))"

definition ram_unlink :: "nat \<Rightarrow> bytes \<Rightarrow> (ramfs, FsError, unit) io" where
  "ram_unlink i name s =
     (let g = s ! i in
      if e_kind g \<noteq> DirKind then io_err NotDir s
      else if map_of (e_children g) name = None then io_err NotFound s
      else io_ok () (s[i := g\<lparr>e_children := AList.delete name (e_children g)\<rparr>]))"

definition ram_api :: "(nat, ramfs) inode_api" where
  "ram_api = \<lparr>ino_kind = ram_kind, ino_size = ram_size, ino_read_at = ram_read_at, ino_write_at = ram_write_at,
     ino_lookup = ram_lookup, ino_readdir = ram_readdir, ino_create = ram_create, ino_unlink = ram_unlink\<rparr>"

text \<open>\<open>RamFs::new\<close> makes node 0 the root; the root of a ramfs is node 0.\<close>

definition ramfs_new :: ramfs where
  "ramfs_new = snd (new_dir [])"

definition ramfs_root :: nat where
  "ramfs_root = 0"

text \<open>\<open>put_file\<close>: any error of a lookup leads to a creation, and an error of that aborts.\<close>

definition lookup_or_create :: "nat \<Rightarrow> bytes \<Rightarrow> InodeKind \<Rightarrow> ramfs \<Rightarrow> (nat \<times> ramfs) may_stop" where
  "lookup_or_create node name kind s =
     (case ram_lookup node name s of
        None \<Rightarrow> None
      | Some (Inr n, s1) \<Rightarrow> Some (n, s1)
      | Some (Inl _, s1) \<Rightarrow>
          (case ram_create node name kind s1 of
             None \<Rightarrow> None | Some (Inr n, s2) \<Rightarrow> Some (n, s2) | Some (Inl _, s2) \<Rightarrow> None))"

fun make_dirs :: "nat \<Rightarrow> bytes list \<Rightarrow> ramfs \<Rightarrow> (nat \<times> ramfs) may_stop" where
  "make_dirs node [] s = Some (node, s)"
| "make_dirs node (d # ds) s = do { (n, s1) \<leftarrow> lookup_or_create node d DirKind s; make_dirs n ds s1 }"

definition put_file :: "bytes \<Rightarrow> bytes \<Rightarrow> ramfs \<Rightarrow> ramfs may_stop" where
  "put_file path bs s =
     (if path = [] \<or> hd path \<noteq> slash then None
      else
        (let comps = components path in
         if comps = [] then None
         else do {
           (dir, s1) \<leftarrow> make_dirs ramfs_root (butlast comps) s;
           (file, s2) \<leftarrow> lookup_or_create dir (last comps) FileKind s1;
           (case ram_write_at file 0 bs s2 of
              Some (Inr _, s3) \<Rightarrow> Some s3 | _ \<Rightarrow> None) }))"

end
