(* ===== verification/File_Contract.thy ===== *)
theory File_Contract
  imports Result_Io
begin

text \<open>
  The contract of a regular file, as a client of the inode trait relies on it: a file has a content,
  a read returns the part of it that was asked for, and a write overwrites or extends it, filling a
  gap with zeros.
\<close>

definition overwrite :: "nat \<Rightarrow> bytes \<Rightarrow> bytes \<Rightarrow> bytes" where
  "overwrite off bs d =
     (let e = (if length d < off + length bs then d @ replicate (off + length bs - length d) 0 else d) in
      take off e @ bs @ drop (off + length bs) e)"

lemma length_overwrite: "length (overwrite off bs d) = max (length d) (off + length bs)"
  by (auto simp: overwrite_def Let_def)

lemma overwrite_read: "take (length bs) (drop off (overwrite off bs d)) = bs"
  by (auto simp: overwrite_def Let_def)

lemma overwrite_before:
  "k < off \<Longrightarrow> overwrite off bs d ! k = (if k < length d then d ! k else 0)"
  by (auto simp: overwrite_def Let_def nth_append)

lemma overwrite_after:
  assumes "off + length bs \<le> k" and "k < length d"
  shows "overwrite off bs d ! k = d ! k"
proof -
  have "\<not> length d < off + length bs" using assms by simp
  then have "overwrite off bs d = take off d @ bs @ drop (off + length bs) d" by (simp add: overwrite_def)
  moreover have "off \<le> length d" using assms by simp
  ultimately show ?thesis using assms by (auto simp: nth_append)
qed

lemma overwrite_within: "k < length bs \<Longrightarrow> overwrite off bs d ! (off + k) = bs ! k"
  by (auto simp: overwrite_def Let_def nth_append)

lemma overwrite_twice:
  "take (length bs + length cs) (drop off (overwrite (off + length bs) cs (overwrite off bs d))) = bs @ cs"
proof (rule nth_equalityI)
  let ?d = "overwrite (off + length bs) cs (overwrite off bs d)"
  show "length (take (length bs + length cs) (drop off ?d)) = length (bs @ cs)" by (simp add: length_overwrite)
  fix k assume "k < length (take (length bs + length cs) (drop off ?d))"
  then have k: "k < length bs + length cs" "off + k < length ?d" by auto
  show "take (length bs + length cs) (drop off ?d) ! k = (bs @ cs) ! k"
  proof (cases "k < length bs")
    case True
    then show ?thesis using k by (simp add: overwrite_before overwrite_within length_overwrite nth_append less_max_iff_disj)
  next
    case False
    then obtain j where j: "k = length bs + j" by (metis le_Suc_ex not_less)
    have "?d ! (off + length bs + j) = cs ! j" using j k by (intro overwrite_within) simp
    then show ?thesis using k j by (simp add: nth_append add.assoc)
  qed
qed

locale regular_file =
  fixes valid :: "'s \<Rightarrow> bool"
    and content :: "'s \<Rightarrow> bytes"
    and fread :: "nat \<Rightarrow> nat \<Rightarrow> ('s, 'e, bytes) io"
    and fwrite :: "nat \<Rightarrow> bytes \<Rightarrow> ('s, 'e, nat) io"
  assumes read_law: "valid s \<Longrightarrow> fread off n s = Some (Inr (take n (drop off (content s))), s)"
    and write_law: "valid s \<Longrightarrow> fwrite off bs s = Some (Inr n, s') \<Longrightarrow>
      valid s' \<and> n = length bs \<and> content s' = overwrite off bs (content s)"
begin

lemma read_back:
  assumes "valid s" and "fwrite off bs s = Some (Inr n, s')"
  shows "fread off n s' = Some (Inr bs, s')"
  using read_law write_law[OF assms] overwrite_read by simp

text \<open>Two writes one after the other are one write of the concatenation.\<close>

lemma fwrite_append:
  assumes "valid s" and "fwrite off bs s = Some (Inr n, s1)" and "fwrite (off + n) cs s1 = Some (Inr m, s2)"
  shows "fread off (n + m) s2 = Some (Inr (bs @ cs), s2)"
proof -
  note w1 = write_law[OF assms(1,2)]
  have v1: "valid s1" using w1 by blast
  note w2 = write_law[OF v1 assms(3)]
  show ?thesis using w1 w2 read_law[of s2 off "n + m"] overwrite_twice by simp
qed

end

end
