(* ===== verification/Ramfs_Correct.thy ===== *)
theory Ramfs_Correct
  imports Ramfs File_Contract Vfs_Correct
begin

text \<open>
  Correctness of the in-memory file system: its nodes are regular files in the sense of \<open>File_Contract\<close>, its
  directories are maps from names to nodes, and a file that \<open>put_file\<close> seeds is found again by the path walk of
  the VFS.
\<close>

definition ram_file :: "nat \<Rightarrow> ramfs \<Rightarrow> bool" where
  "ram_file i s \<longleftrightarrow> i < length s \<and> e_kind (s ! i) = FileKind"

lemma ram_write_at_ok:
  assumes "ram_file i s" and "ram_write_at i off bs s = Some (r, s')"
  shows "r = Inr (length bs)"
    and "s' = s[i := (s ! i)\<lparr>e_data := overwrite off bs (e_data (s ! i))\<rparr>]"
  using assms
  by (auto simp: ram_write_at_def ram_file_def overwrite_def Let_def io_simps u64_add_def split: if_splits)

interpretation ramf: regular_file "ram_file i" "\<lambda>s. e_data (s ! i)" "ram_read_at i" "ram_write_at i"
proof unfold_locales
  fix s off n
  assume "ram_file i s"
  then show "ram_read_at i off n s = Some (Inr (take n (drop off (e_data (s ! i)))), s)"
    by (simp add: ram_read_at_def ram_file_def Let_def io_ok_def min_def)
next
  fix s off bs n s'
  assume f: "ram_file i s" and w: "ram_write_at i off bs s = Some (Inr n, s')"
  show "ram_file i s' \<and> n = length bs \<and> e_data (s' ! i) = overwrite off bs (e_data (s ! i))"
    using ram_write_at_ok[OF f w] f by (simp add: ram_file_def)
qed

subsection \<open>Directories\<close>

lemma map_of_btree_insert: "map_of (btree_insert k v m) = (map_of m)(k \<mapsto> v)"
  by (induction k v m rule: btree_insert.induct) auto

definition dir_map :: "nat \<Rightarrow> ramfs \<Rightarrow> (bytes \<rightharpoonup> nat)" where
  "dir_map i s = map_of (e_children (s ! i))"

definition ram_dir :: "nat \<Rightarrow> ramfs \<Rightarrow> bool" where
  "ram_dir i s \<longleftrightarrow> i < length s \<and> e_kind (s ! i) = DirKind"

text \<open>Every child of a node is a node.\<close>

definition ram_wf :: "ramfs \<Rightarrow> bool" where
  "ram_wf s \<longleftrightarrow> ramfs_root < length s \<and> (\<forall>i < length s. \<forall>c \<in> ran (dir_map i s). c < length s)"

lemma ram_lookup_eq:
  "ram_dir i s \<Longrightarrow> ram_lookup i name s = (case dir_map i s name of Some c \<Rightarrow> Some (Inr c, s) | None \<Rightarrow> Some (Inl NotFound, s))"
  by (simp add: ram_lookup_def ram_dir_def dir_map_def Let_def io_ok_def io_err_def split: option.splits)

lemma ram_lookup_Inr:
  "ram_lookup i name s = Some (Inr c, s') \<longleftrightarrow> e_kind (s ! i) = DirKind \<and> dir_map i s name = Some c \<and> s' = s"
  by (auto simp: ram_lookup_def dir_map_def Let_def io_ok_def io_err_def split: option.splits)

definition fresh_entry :: "InodeKind \<Rightarrow> Entry" where
  "fresh_entry kind = \<lparr>e_kind = kind, e_data = [], e_children = []\<rparr>"

lemma ram_create_Inr:
  "ram_create i name kind s = Some (Inr n, s') \<longleftrightarrow>
     e_kind (s ! i) = DirKind \<and> dir_map i s name = None \<and> n = length s \<and>
     s' = (s @ [fresh_entry kind])[i := (s ! i)\<lparr>e_children := btree_insert name n (e_children (s ! i))\<rparr>]"
  by (auto simp: ram_create_def dir_map_def Let_def io_ok_def io_err_def new_file_def new_dir_def fresh_entry_def
      split: InodeKind.splits)

lemma ram_create_ok:
  assumes "i < length s" and "ram_create i name kind s = Some (Inr n, s')"
  shows "length s' = Suc (length s)" and "n = length s" and "s' ! n = fresh_entry kind"
    and "dir_map i s' = (dir_map i s)(name \<mapsto> n)"
    and "e_kind (s' ! i) = e_kind (s ! i)"
    and "\<And>j. j \<noteq> i \<Longrightarrow> j < length s \<Longrightarrow> s' ! j = s ! j"
  using assms unfolding ram_create_Inr by (auto simp: dir_map_def nth_append map_of_btree_insert)

text \<open>\<open>grows s s'\<close>: nothing that was there is gone.\<close>

definition grows :: "ramfs \<Rightarrow> ramfs \<Rightarrow> bool" where
  "grows s s' \<longleftrightarrow> length s \<le> length s' \<and>
     (\<forall>i < length s. e_kind (s' ! i) = e_kind (s ! i) \<and> dir_map i s \<subseteq>\<^sub>m dir_map i s')"

lemma grows_refl: "grows s s"
  by (simp add: grows_def)

lemma grows_trans: "grows s t \<Longrightarrow> grows t u \<Longrightarrow> grows s u"
  by (auto simp: grows_def intro: map_le_trans)

lemma ram_create_grows:
  assumes "i < length s" and "ram_create i name kind s = Some (Inr n, s')"
  shows "grows s s'"
proof -
  note c = ram_create_ok[OF assms]
  have "dir_map i s name = None" using assms unfolding ram_create_Inr by simp
  then have "dir_map i s \<subseteq>\<^sub>m dir_map i s'" using c(4) by (auto simp: map_le_def)
  moreover have "dir_map j s' = dir_map j s" if "j \<noteq> i" "j < length s" for j
    using c(6)[OF that] by (simp add: dir_map_def)
  ultimately show ?thesis unfolding grows_def using c(1,5,6) by (metis le_Suc_eq map_le_refl order_refl)
qed

lemma ram_create_wf:
  assumes "ram_wf s" and "i < length s" and "ram_create i name kind s = Some (Inr n, s')"
  shows "ram_wf s'"
proof -
  note c = ram_create_ok[OF assms(2,3)]
  have "x < length s'" if "j < length s'" "x \<in> ran (dir_map j s')" for j x
  proof -
    have "j = n \<or> j = i \<or> (j \<noteq> i \<and> j < length s)" using that(1) c(1,2) by linarith
    then show ?thesis
    proof (elim disjE conjE)
      assume "j = n"
      then show ?thesis using that(2) c(3) by (simp add: dir_map_def fresh_entry_def)
    next
      assume "j = i"
      then have "x = n \<or> x \<in> ran (dir_map i s)" using that(2) c(4) by (auto simp: ran_def split: if_splits)
      then show ?thesis using assms(1,2) c(1,2) unfolding ram_wf_def by (metis less_SucI lessI)
    next
      assume j: "j \<noteq> i" "j < length s"
      then have "x \<in> ran (dir_map j s)" using that(2) c(6) by (simp add: dir_map_def)
      then show ?thesis using assms(1) j(2) c(1) unfolding ram_wf_def by (metis less_SucI)
    qed
  qed
  then show ?thesis using assms(1) c(1) unfolding ram_wf_def by auto
qed

lemma lookup_or_create_ok:
  assumes "ram_wf s" and "i < length s" and "lookup_or_create i name kind s = Some (n, s')"
  shows "ram_wf s'" and "grows s s'" and "n < length s'" and "e_kind (s' ! i) = DirKind"
    and "dir_map i s' name = Some n"
proof -
  have cases: "ram_lookup i name s = Some (Inr n, s') \<or> ram_create i name kind s = Some (Inr n, s')"
    using assms(3) by (auto simp: lookup_or_create_def ram_lookup_def Let_def io_ok_def io_err_def
        split: option.splits sum.splits if_splits)
  have found: "ram_wf s' \<and> grows s s' \<and> n < length s' \<and> e_kind (s' ! i) = DirKind \<and> dir_map i s' name = Some n"
    if "ram_lookup i name s = Some (Inr n, s')"
    using that assms(1,2) unfolding ram_lookup_Inr ram_wf_def by (auto simp: grows_refl ran_def)
  have made: "ram_wf s' \<and> grows s s' \<and> n < length s' \<and> e_kind (s' ! i) = DirKind \<and> dir_map i s' name = Some n"
    if c: "ram_create i name kind s = Some (Inr n, s')"
  proof -
    have "e_kind (s ! i) = DirKind" using c unfolding ram_create_Inr by simp
    then show ?thesis
      using ram_create_ok[OF assms(2) c] ram_create_wf[OF assms(1,2) c] ram_create_grows[OF assms(2) c] by simp
  qed
  from cases found made
  show "ram_wf s'" "grows s s'" "n < length s'" "e_kind (s' ! i) = DirKind" "dir_map i s' name = Some n"
    by blast+
qed

lemma walk_grows:
  assumes "grows s s'" and "ram_wf s" and "i < length s" and "walk ram_api i cs s = Some (Inr n, s)"
  shows "walk ram_api i cs s' = Some (Inr n, s')"
  using assms(3,4)
proof (induction cs arbitrary: i)
  case Nil
  then show ?case by (simp add: io_ok_def)
next
  case (Cons c cs)
  obtain m where m: "e_kind (s ! i) = DirKind" "dir_map i s c = Some m" "walk ram_api m cs s = Some (Inr n, s)"
    using Cons.prems(2) by (auto simp: io_bind_eq ram_api_def ram_lookup_Inr)
  have "m < length s" using assms(2) Cons.prems(1) m(2) unfolding ram_wf_def by (auto simp: ran_def)
  note IH = Cons.IH[OF this m(3)]
  have "ram_lookup i c s' = Some (Inr m, s')"
    unfolding ram_lookup_Inr using assms(1) Cons.prems(1) m(1,2) by (auto simp: grows_def map_le_def dom_def)
  then show ?case using IH by (simp add: io_bind_eq ram_api_def)
qed

lemma walk_app:
  "walk A i (cs @ ds) s = io_bind (walk A i cs) (\<lambda>n. walk A n ds) s"
  by (induction cs arbitrary: i s) (auto simp: io_bind_def io_ok_def split: option.splits sum.splits)

lemma make_dirs_ok:
  assumes "ram_wf s" and "i < length s" and "make_dirs i ds s = Some (n, s')"
  shows "ram_wf s' \<and> grows s s' \<and> n < length s' \<and> walk ram_api i ds s' = Some (Inr n, s')"
  using assms
proof (induction ds arbitrary: i s)
  case Nil
  then show ?case by (simp add: grows_refl io_ok_def)
next
  case (Cons d ds)
  obtain m s1 where m: "lookup_or_create i d DirKind s = Some (m, s1)" "make_dirs m ds s1 = Some (n, s')"
    using Cons.prems(3) by (auto split: bind_splits)
  note l = lookup_or_create_ok[OF Cons.prems(1,2) m(1)]
  note IH = Cons.IH[OF l(1,3) m(2)]
  have "i < length s1" using l(2) Cons.prems(2) by (simp add: grows_def)
  then have "ram_lookup i d s' = Some (Inr m, s')"
    unfolding ram_lookup_Inr using IH l(4,5) by (auto simp: grows_def map_le_def dom_def)
  then show ?case using IH l(2) grows_trans by (auto simp: io_bind_eq ram_api_def)
qed

lemma ram_write_at_wf:
  assumes "ram_file i s" and "ram_write_at i off bs s = Some (Inr n, s')" and "ram_wf s"
  shows "ram_wf s'" and "grows s s'"
proof -
  note w = ram_write_at_ok(2)[OF assms(1,2)]
  have "dir_map j s' = dir_map j s \<and> e_kind (s' ! j) = e_kind (s ! j)" for j
    using w by (cases "j = i"; cases "i < length s") (simp_all add: dir_map_def list_update_beyond)
  then show "ram_wf s'" "grows s s'" using w assms(3) by (simp_all add: ram_wf_def grows_def)
qed

lemma put_file_correct_facts:
  assumes "ram_wf s" and "put_file path bs s = Some s'"
  shows "\<exists>n. walk ram_api ramfs_root (components path) s' = Some (Inr n, s') \<and> ram_file n s' \<and>
      ram_read_at n 0 (length bs) s' = Some (Inr bs, s')"
    and "ram_wf s'"
    and "walk ram_api ramfs_root cs s = Some (Inr k, s) \<Longrightarrow> walk ram_api ramfs_root cs s' = Some (Inr k, s')"
proof -
  let ?c = "components path"
  have root: "ramfs_root < length s" using assms(1) by (simp add: ram_wf_def)
  have ne: "?c \<noteq> []" using assms(2) by (auto simp: put_file_def Let_def split: if_splits)
  obtain d s1 where d: "make_dirs ramfs_root (butlast ?c) s = Some (d, s1)"
    using assms(2) by (auto simp: put_file_def Let_def split: if_splits bind_splits)
  obtain f s2 where f: "lookup_or_create d (last ?c) FileKind s1 = Some (f, s2)"
    using assms(2) d by (auto simp: put_file_def Let_def split: if_splits bind_splits)
  obtain k where k: "ram_write_at f 0 bs s2 = Some (Inr k, s')"
    using assms(2) d f by (auto simp: put_file_def Let_def split: if_splits option.splits sum.splits)
  note D = make_dirs_ok[OF assms(1) root d]
  have Dw: "ram_wf s1" and Dl: "d < length s1" using D by simp_all
  note F = lookup_or_create_ok[OF Dw Dl f]
  have isf: "ram_file f s2" using k F(3) by (auto simp: ram_write_at_def ram_file_def Let_def io_err_def split: if_splits)
  note W = ram_write_at_wf[OF isf k F(1)] and L = ramf.write_law[OF isf k]
  have g: "grows s s'" and g1: "grows s1 s'" using D F(2) W(2) grows_trans by blast+
  show "ram_wf s'" by (rule W(1))
  have "walk ram_api ramfs_root (butlast ?c) s' = Some (Inr d, s')"
    by (rule walk_grows[OF g1 Dw]) (use D root in \<open>auto simp: grows_def\<close>)
  moreover have "ram_lookup d (last ?c) s' = Some (Inr f, s')"
    unfolding ram_lookup_Inr using W(2) F(2,4,5) Dl by (auto simp: grows_def map_le_def dom_def)
  ultimately have "walk ram_api ramfs_root (butlast ?c @ [last ?c]) s' = Some (Inr f, s')"
    by (simp add: walk_app io_bind_def ram_api_def io_ok_def)
  then have "walk ram_api ramfs_root ?c s' = Some (Inr f, s')" using ne by simp
  then show "\<exists>n. walk ram_api ramfs_root ?c s' = Some (Inr n, s') \<and> ram_file n s' \<and>
      ram_read_at n 0 (length bs) s' = Some (Inr bs, s')"
    using L ramf.read_back[OF isf k] by auto
  show "walk ram_api ramfs_root cs s' = Some (Inr k, s')" if "walk ram_api ramfs_root cs s = Some (Inr k, s)" for k
    by (rule walk_grows[OF g assms(1) root that])
qed

text \<open>
  C25. A seeded file is found again: when \<open>put_file\<close> returns, the path walk of the VFS from the root of the
  ramfs reaches a regular file by the same path, reading as many bytes as were seeded returns them, the nodes
  are well formed, and every path that led somewhere before still leads to the same node.
\<close>

theorem put_file_correct:
  assumes "ram_wf s" and "put_file path bs s = Some s'"
  shows "(\<exists>n. walk ram_api ramfs_root (components path) s' = Some (Inr n, s') \<and> ram_file n s' \<and>
      ram_read_at n 0 (length bs) s' = Some (Inr bs, s')) \<and>
    ram_wf s' \<and>
    (\<forall>cs k. (walk ram_api ramfs_root cs s = Some (Inr k, s)) \<longrightarrow> walk ram_api ramfs_root cs s' = Some (Inr k, s'))"
  using put_file_correct_facts(1,2)[OF assms] put_file_correct_facts(3)[OF assms] by blast

theorem put_file_correct_witness:
  "ram_wf ramfs_new \<and>
   (\<exists>s'. put_file [47, 97, 47, 98] [1, 2] ramfs_new = Some s' \<and>
      (\<exists>n. walk ram_api ramfs_root (components [47, 97, 47, 98]) s' = Some (Inr n, s') \<and> ram_file n s' \<and>
         ram_read_at n 0 2 s' = Some (Inr [1, 2], s')))"
proof -
  have wf: "ram_wf ramfs_new"
    by (simp add: ram_wf_def ramfs_new_def ramfs_root_def new_dir_def dir_map_def)
  have "put_file [47, 97, 47, 98] [1, 2] ramfs_new \<noteq> None" by code_simp
  then obtain s' where s': "put_file [47, 97, 47, 98] [1, 2] ramfs_new = Some s'" by blast
  show ?thesis using wf s' put_file_correct[OF wf s'] by (simp add: numeral_2_eq_2)
qed

lemma ram_dir_is_map_facts:
  assumes "ram_dir i s"
  shows "ram_lookup i name s =
      Some (case dir_map i s name of Some c \<Rightarrow> Inr c | None \<Rightarrow> Inl NotFound, s)"
    and "dir_map i s name \<noteq> None \<Longrightarrow> ram_create i name kind s = Some (Inl Exists, s)"
    and "dir_map i s name = None \<Longrightarrow> \<exists>s'. ram_create i name kind s = Some (Inr (length s), s') \<and>
      dir_map i s' = (dir_map i s)(name \<mapsto> length s) \<and> s' ! length s = fresh_entry kind \<and> ram_dir i s' \<and>
      (\<forall>j < length s. j \<noteq> i \<longrightarrow> s' ! j = s ! j)"
    and "dir_map i s name = None \<Longrightarrow> ram_unlink i name s = Some (Inl NotFound, s)"
    and "dir_map i s name \<noteq> None \<Longrightarrow> \<exists>s'. ram_unlink i name s = Some (Inr (), s') \<and>
      dir_map i s' = (dir_map i s)(name := None) \<and> length s' = length s \<and> ram_dir i s' \<and> (\<forall>j. j \<noteq> i \<longrightarrow> s' ! j = s ! j)"
proof -
  have k: "i < length s" "e_kind (s ! i) = DirKind" using assms by (simp_all add: ram_dir_def)
  show "ram_lookup i name s = Some (case dir_map i s name of Some c \<Rightarrow> Inr c | None \<Rightarrow> Inl NotFound, s)"
    using ram_lookup_eq[OF assms] by (simp split: option.splits)
  show "ram_create i name kind s = Some (Inl Exists, s)" if "dir_map i s name \<noteq> None"
    using that k by (auto simp: ram_create_def dir_map_def Let_def io_err_def)
  show "\<exists>s'. ram_create i name kind s = Some (Inr (length s), s') \<and>
      dir_map i s' = (dir_map i s)(name \<mapsto> length s) \<and> s' ! length s = fresh_entry kind \<and> ram_dir i s' \<and>
      (\<forall>j < length s. j \<noteq> i \<longrightarrow> s' ! j = s ! j)" if "dir_map i s name = None"
  proof -
    have "\<exists>s'. ram_create i name kind s = Some (Inr (length s), s')" using that k by (simp add: ram_create_Inr)
    then obtain s' where c: "ram_create i name kind s = Some (Inr (length s), s')" by blast
    show ?thesis using c ram_create_ok[OF k(1) c] k by (auto simp: ram_dir_def)
  qed
  show "ram_unlink i name s = Some (Inl NotFound, s)" if "dir_map i s name = None"
    using that k by (simp add: ram_unlink_def dir_map_def Let_def io_err_def)
  show "\<exists>s'. ram_unlink i name s = Some (Inr (), s') \<and>
      dir_map i s' = (dir_map i s)(name := None) \<and> length s' = length s \<and> ram_dir i s' \<and> (\<forall>j. j \<noteq> i \<longrightarrow> s' ! j = s ! j)"
    if "dir_map i s name \<noteq> None"
    using that k by (auto simp: ram_unlink_def dir_map_def Let_def io_ok_def delete_conv ram_dir_def)
qed

text \<open>
  C26. The directories of the ramfs are maps. On a directory, \<open>lookup\<close> reads the map and reports a missing name as
  not found; \<open>create\<close> of a name that is there is refused and changes nothing, and otherwise binds exactly that
  name to a new empty node of the kind asked for; \<open>unlink\<close> removes exactly that name and leaves the node alive.
\<close>

theorem ram_dir_is_map:
  assumes "ram_dir i s"
  shows "ram_lookup i name s =
      Some (case dir_map i s name of Some c \<Rightarrow> Inr c | None \<Rightarrow> Inl NotFound, s) \<and>
    ((dir_map i s name \<noteq> None) \<longrightarrow> ram_create i name kind s = Some (Inl Exists, s)) \<and>
    ((dir_map i s name = None) \<longrightarrow> (\<exists>s'. ram_create i name kind s = Some (Inr (length s), s') \<and>
      dir_map i s' = (dir_map i s)(name \<mapsto> length s) \<and> s' ! length s = fresh_entry kind \<and> ram_dir i s' \<and>
      (\<forall>j < length s. j \<noteq> i \<longrightarrow> s' ! j = s ! j))) \<and>
    ((dir_map i s name = None) \<longrightarrow> ram_unlink i name s = Some (Inl NotFound, s)) \<and>
    ((dir_map i s name \<noteq> None) \<longrightarrow> (\<exists>s'. ram_unlink i name s = Some (Inr (), s') \<and>
      dir_map i s' = (dir_map i s)(name := None) \<and> length s' = length s \<and> ram_dir i s' \<and> (\<forall>j. j \<noteq> i \<longrightarrow> s' ! j = s ! j)))"
  by (blast intro: ram_dir_is_map_facts[OF assms])

theorem ram_dir_is_map_witness:
  "ram_dir 0 ramfs_new \<and> dir_map 0 ramfs_new [97] = None \<and>
   ram_lookup 0 [97] ramfs_new = Some (Inl NotFound, ramfs_new)"
proof -
  have d: "ram_dir 0 ramfs_new" and n: "dir_map 0 ramfs_new [97] = None"
    by (simp_all add: ram_dir_def ramfs_new_def new_dir_def dir_map_def)
  show ?thesis using d n ram_dir_is_map[OF d, of "[97]"] by simp
qed

lemma ram_write_then_read_facts:
  assumes "ram_file i s" and "ram_write_at i off bs s = Some (Inr n, s1)"
  shows "ram_read_at i off n s1 = Some (Inr bs, s1)" and "n = length bs"
    and "ram_write_at i (off + n) cs s1 = Some (Inr m, s2) \<Longrightarrow>
      ram_read_at i off (n + m) s2 = Some (Inr (bs @ cs), s2)"
    and "k < ram_size i s1 \<Longrightarrow> k < off \<or> off + n \<le> k \<Longrightarrow>
      e_data (s1 ! i) ! k = (if k < ram_size i s then e_data (s ! i) ! k else 0)"
proof -
  note w = ramf.write_law[OF assms]
  show "ram_read_at i off n s1 = Some (Inr bs, s1)" by (rule ramf.read_back[OF assms])
  show "n = length bs" using w by simp
  show "ram_read_at i off (n + m) s2 = Some (Inr (bs @ cs), s2)" if "ram_write_at i (off + n) cs s1 = Some (Inr m, s2)"
    by (rule ramf.fwrite_append[OF assms that])
  show "e_data (s1 ! i) ! k = (if k < ram_size i s then e_data (s ! i) ! k else 0)"
    if "k < ram_size i s1" "k < off \<or> off + n \<le> k"
    using that w overwrite_before[of k off bs] overwrite_after[of off bs k]
    by (auto simp: ram_size_def length_overwrite less_max_iff_disj)
qed

text \<open>
  C27. A ramfs file holds what is written to it: reading back a write returns its bytes, two adjacent writes read as
  their concatenation, and every byte outside the written range is unchanged, with zeros in a gap.
\<close>

theorem ram_write_then_read:
  assumes "ram_file i s" and "ram_write_at i off bs s = Some (Inr n, s1)"
  shows "ram_read_at i off n s1 = Some (Inr bs, s1) \<and>
    n = length bs \<and>
    (\<forall>cs m s2. (ram_write_at i (off + n) cs s1 = Some (Inr m, s2)) \<longrightarrow> ram_read_at i off (n + m) s2 = Some (Inr (bs @ cs), s2)) \<and>
    (\<forall>k. (k < ram_size i s1) \<longrightarrow> (k < off \<or> off + n \<le> k) \<longrightarrow> e_data (s1 ! i) ! k = (if k < ram_size i s then e_data (s ! i) ! k else 0))"
  by (blast intro: ram_write_then_read_facts[OF assms])

theorem ram_write_then_read_witness:
  "ram_file 0 [fresh_entry FileKind] \<and>
   (\<exists>s1. ram_write_at 0 2 [7, 8] [fresh_entry FileKind] = Some (Inr 2, s1) \<and> ram_read_at 0 2 2 s1 = Some (Inr [7, 8], s1))"
proof -
  have f: "ram_file 0 [fresh_entry FileKind]" by (simp add: ram_file_def fresh_entry_def)
  have "map_option fst (ram_write_at 0 2 [7, 8] [fresh_entry FileKind]) = Some (Inr 2)" by code_simp
  then obtain s1 where w: "ram_write_at 0 2 [7, 8] [fresh_entry FileKind] = Some (Inr 2, s1)" by auto
  show ?thesis using f w ram_write_then_read[OF f w] by blast
qed

end
