(* ===== verification/Pond_Layout.thy ===== *)
theory Pond_Layout
  imports User_Mem Vfs
begin

text \<open>
  The on-disk format of PondFS, \<open>kernel/src/fs/pondfs/layout.rs\<close>: the raw structures, their little-endian byte
  images (the sources cast the block buffers to \<open>repr(C)\<close> structures), and the directory entries.
\<close>

definition POND_MAGIC :: bytes where "POND_MAGIC = [0x50, 0x4F, 0x4E, 0x44]"
definition POND_VERSION :: nat where "POND_VERSION = 1"
definition BLOCK_SIZE :: nat where "BLOCK_SIZE = 4096"
definition INODE_SIZE :: nat where "INODE_SIZE = 128"
definition INODES_PER_BLOCK :: nat where "INODES_PER_BLOCK = BLOCK_SIZE div INODE_SIZE"
definition DIRECT_BLOCKS :: nat where "DIRECT_BLOCKS = 12"
definition INODE_KIND_UNUSED :: nat where "INODE_KIND_UNUSED = 0"
definition INODE_KIND_FILE :: nat where "INODE_KIND_FILE = 1"
definition INODE_KIND_DIR :: nat where "INODE_KIND_DIR = 2"
definition ROOT_INO :: nat where "ROOT_INO = 1"

record Superblock =
  sb_magic :: bytes
  sb_version :: nat
  total_blocks :: nat
  inode_count :: nat
  bitmap_start :: nat
  bitmap_blocks :: nat
  inode_table_start :: nat
  inode_table_blocks :: nat
  data_start :: nat

record RawInode =
  ri_kind :: nat
  ri_pad0 :: nat
  link_count :: nat
  ri_size :: nat
  ri_mtime :: nat
  ri_pad1 :: nat
  direct :: "nat list"

record DirEntryHeader =
  de_inode :: nat
  name_len :: nat
  de_kind :: nat

text \<open>The size of the header with the padding of its last field to the alignment of the first.\<close>

definition DIR_ENTRY_HEADER_SIZE :: nat where "DIR_ENTRY_HEADER_SIZE = 16"

definition align4 :: "nat \<Rightarrow> nat" where
  "align4 x = (x + 3) div 4 * 4"

section \<open>Byte images\<close>

fun nat_to_le :: "nat \<Rightarrow> nat \<Rightarrow> bytes" where
  "nat_to_le 0 x = []"
| "nat_to_le (Suc n) x = of_nat (x mod 256) # nat_to_le n (x div 256)"

fun le_to_nat :: "bytes \<Rightarrow> nat" where
  "le_to_nat [] = 0"
| "le_to_nat (b # bs) = unat b + 256 * le_to_nat bs"

definition field :: "nat \<Rightarrow> nat \<Rightarrow> bytes \<Rightarrow> nat" where
  "field off n bs = le_to_nat (take n (drop off bs))"

definition decode_superblock :: "bytes \<Rightarrow> Superblock" where
  "decode_superblock bs =
     \<lparr>sb_magic = take 4 bs, sb_version = field 4 4 bs, total_blocks = field 8 8 bs, inode_count = field 16 8 bs,
      bitmap_start = field 24 8 bs, bitmap_blocks = field 32 8 bs, inode_table_start = field 40 8 bs,
      inode_table_blocks = field 48 8 bs, data_start = field 56 8 bs\<rparr>"

definition encode_superblock :: "Superblock \<Rightarrow> bytes" where
  "encode_superblock sb =
     sb_magic sb @ nat_to_le 4 (sb_version sb) @ nat_to_le 8 (total_blocks sb) @ nat_to_le 8 (inode_count sb) @
     nat_to_le 8 (bitmap_start sb) @ nat_to_le 8 (bitmap_blocks sb) @ nat_to_le 8 (inode_table_start sb) @
     nat_to_le 8 (inode_table_blocks sb) @ nat_to_le 8 (data_start sb)"

definition decode_inode :: "bytes \<Rightarrow> RawInode" where
  "decode_inode bs =
     \<lparr>ri_kind = field 0 2 bs, ri_pad0 = field 2 2 bs, link_count = field 4 4 bs, ri_size = field 8 8 bs,
      ri_mtime = field 16 8 bs, ri_pad1 = field 24 8 bs,
      direct = map (\<lambda>i. field (32 + 8 * i) 8 bs) [0..<DIRECT_BLOCKS]\<rparr>"

definition encode_inode :: "RawInode \<Rightarrow> bytes" where
  "encode_inode r =
     nat_to_le 2 (ri_kind r) @ nat_to_le 2 (ri_pad0 r) @ nat_to_le 4 (link_count r) @ nat_to_le 8 (ri_size r) @
     nat_to_le 8 (ri_mtime r) @ nat_to_le 8 (ri_pad1 r) @ concat (map (nat_to_le 8) (direct r))"

definition decode_header :: "bytes \<Rightarrow> DirEntryHeader" where
  "decode_header bs = \<lparr>de_inode = field 0 8 bs, name_len = field 8 2 bs, de_kind = field 10 2 bs\<rparr>"

text \<open>The four bytes of padding are whatever they are in the source value; they are taken as zeros and never read.\<close>

definition encode_header :: "DirEntryHeader \<Rightarrow> bytes" where
  "encode_header h = nat_to_le 8 (de_inode h) @ nat_to_le 2 (name_len h) @ nat_to_le 2 (de_kind h) @ [0, 0, 0, 0]"

section \<open>Round trips\<close>

lemma length_nat_to_le [simp]: "length (nat_to_le n x) = n"
  by (induction n arbitrary: x) auto

lemma le_to_nat_to_le [simp]: "le_to_nat (nat_to_le n x) = x mod 256 ^ n"
proof (induction n arbitrary: x)
  case 0
  then show ?case by simp
next
  case (Suc n)
  have "unat (of_nat (x mod 256) :: u8) = x mod 256"
    by (simp add: unat_of_nat take_bit_eq_mod)
  then show ?case using Suc by (simp add: mod_mult2_eq)
qed

lemma le_to_nat_bound: "le_to_nat bs < 256 ^ length bs"
proof (induction bs)
  case Nil
  then show ?case by simp
next
  case (Cons b bs)
  have "unat b < 256" using unsigned_less[of b, where ?'a = nat] by simp
  then have "unat b + 256 * le_to_nat bs < 256 * (le_to_nat bs + 1)" by simp
  also have "\<dots> \<le> 256 * 256 ^ length bs" using Cons by (intro mult_le_mono2) simp
  finally show ?case by simp
qed

lemma field_skip: "length a \<le> off \<Longrightarrow> field off n (a @ b) = field (off - length a) n b"
  by (simp add: field_def)

lemma field_here: "length a = n \<Longrightarrow> field 0 n (a @ b) = le_to_nat a"
  by (simp add: field_def)

lemma field_last: "length a = n \<Longrightarrow> field 0 n a = le_to_nat a"
  by (simp add: field_def)

lemmas field_simps_bytes = field_skip field_here field_last

lemma nth_concat_uniform:
  "i < length xs \<Longrightarrow> field (8 * i) 8 (concat (map (nat_to_le 8) xs)) = xs ! i mod 256 ^ 8"
proof (induction xs arbitrary: i)
  case Nil
  then show ?case by simp
next
  case (Cons x xs)
  then show ?case by (cases i) (simp_all add: field_simps_bytes)
qed

definition superblock_bounded :: "Superblock \<Rightarrow> bool" where
  "superblock_bounded sb \<longleftrightarrow> length (sb_magic sb) = 4 \<and> sb_version sb < 2 ^ 32 \<and> total_blocks sb < 2 ^ 64 \<and>
     inode_count sb < 2 ^ 64 \<and> bitmap_start sb < 2 ^ 64 \<and> bitmap_blocks sb < 2 ^ 64 \<and> inode_table_start sb < 2 ^ 64 \<and>
     inode_table_blocks sb < 2 ^ 64 \<and> data_start sb < 2 ^ 64"

definition inode_bounded :: "RawInode \<Rightarrow> bool" where
  "inode_bounded r \<longleftrightarrow> ri_kind r < 2 ^ 16 \<and> ri_pad0 r < 2 ^ 16 \<and> link_count r < 2 ^ 32 \<and> ri_size r < 2 ^ 64 \<and>
     ri_mtime r < 2 ^ 64 \<and> ri_pad1 r < 2 ^ 64 \<and> length (direct r) = DIRECT_BLOCKS \<and> (\<forall>b \<in> set (direct r). b < 2 ^ 64)"

lemma superblock_roundtrip:
  "superblock_bounded sb \<Longrightarrow> decode_superblock (encode_superblock sb @ rest) = sb"
  by (simp add: superblock_bounded_def decode_superblock_def encode_superblock_def field_simps_bytes)

lemma length_encode_inode: "length (direct r) = DIRECT_BLOCKS \<Longrightarrow> length (encode_inode r) = INODE_SIZE"
  by (simp add: encode_inode_def INODE_SIZE_def DIRECT_BLOCKS_def length_concat sum_list_triv comp_def)

lemma inode_roundtrip:
  assumes "inode_bounded r"
  shows "decode_inode (encode_inode r) = r"
proof -
  have "map (\<lambda>i. field (32 + 8 * i) 8 (encode_inode r)) [0..<DIRECT_BLOCKS] = direct r"
    using assms by (intro nth_equalityI)
      (auto simp: inode_bounded_def encode_inode_def field_simps_bytes nth_concat_uniform)
  then show ?thesis using assms
    by (simp add: inode_bounded_def decode_inode_def encode_inode_def field_simps_bytes)
qed

lemma header_roundtrip:
  "de_inode h < 2 ^ 64 \<Longrightarrow> name_len h < 2 ^ 16 \<Longrightarrow> de_kind h < 2 ^ 16 \<Longrightarrow> decode_header (encode_header h @ rest) = h"
  by (simp add: decode_header_def encode_header_def field_simps_bytes)

lemma length_encode_header [simp]: "length (encode_header h) = DIR_ENTRY_HEADER_SIZE"
  by (simp add: encode_header_def DIR_ENTRY_HEADER_SIZE_def)

end
