(* ===== verification/Block_Dev.thy ===== *)
theory Block_Dev
  imports Result_Io Byte_Codec
begin

text \<open>
  The block device interface, \<open>kernel/src/drivers/block.rs\<close>: the trait as a record of operations on a device
  state, and the list of registered devices. What a disk is relied on for is the predicate \<open>disk_laws\<close>: a read
  returns the bytes of the image at its address and a write replaces them. A disk held in memory satisfies it.
\<close>

datatype BlockError = OutOfRange | BadLength | BlkIo | BlkUnsupported

record 'd block_dev =
  block_size :: nat
  block_count :: nat
  read_blocks :: "nat \<Rightarrow> nat \<Rightarrow> ('d, BlockError, bytes) io"
  write_blocks :: "nat \<Rightarrow> bytes \<Rightarrow> ('d, BlockError, unit) io"

definition block_register :: "'v \<Rightarrow> 'v list \<Rightarrow> 'v list" where
  "block_register dev devices = devices @ [dev]"

definition block_first :: "'v list \<Rightarrow> 'v option" where
  "block_first devices = (case devices of [] \<Rightarrow> None | dev # _ \<Rightarrow> Some dev)"

section \<open>What a disk promises\<close>

definition disk_laws :: "'d block_dev \<Rightarrow> ('d \<Rightarrow> memory) \<Rightarrow> bool" where
  "disk_laws D img \<longleftrightarrow>
     0 < block_size D \<and> block_size D dvd 4096 \<and>
     (\<forall>lba n d bs d'. read_blocks D lba n d = Some (Inr bs, d') \<longrightarrow>
        bs = mem_read (img d) (lba * block_size D) n \<and> img d' = img d) \<and>
     (\<forall>lba bs d u d'. write_blocks D lba bs d = Some (Inr u, d') \<longrightarrow>
        img d' = mem_write (img d) (lba * block_size D) bs)"

definition ram_disk :: "memory block_dev" where
  "ram_disk = \<lparr>block_size = 512, block_count = 2 ^ 40,
     read_blocks = (\<lambda>lba n. \<lambda>m. io_ok (mem_read m (lba * 512) n) m),
     write_blocks = (\<lambda>lba bs. \<lambda>m. io_ok () (mem_write m (lba * 512) bs))\<rparr>"

lemma ram_disk_laws: "disk_laws ram_disk (\<lambda>m. m)"
  by (auto simp: disk_laws_def ram_disk_def io_ok_def dvd_def)

end
