(* ===== verification/Pondfs.thy ===== *)
theory Pondfs
  imports Pond_Layout Block_Dev
begin

text \<open>
  The PondFS driver, \<open>kernel/src/fs/pondfs/mod.rs\<close>. The file system is a record with the state of its device; an
  \<open>Arc<InodeState>\<close> is an index into the list of all inode states, so two handles of one inode share their
  \<open>RawInode\<close> as they do in the sources. An operation that changes a locked \<open>RawInode\<close> in place runs on the pair of
  the file system and that inode, so what it has changed before an error stays.
\<close>

section \<open>Blocks\<close>

definition io_map_err :: "('e \<Rightarrow> 'f) \<Rightarrow> ('s, 'e, 'a) io \<Rightarrow> ('s, 'f, 'a) io" where
  "io_map_err f m s = map_option (\<lambda>(r, s'). (case r of Inl e \<Rightarrow> Inl (f e) | Inr a \<Rightarrow> Inr a, s')) (m s)"

definition lbas_per_block :: "'d block_dev \<Rightarrow> nat may_stop" where
  "lbas_per_block D = (if block_size D = 0 then None else Some (BLOCK_SIZE div block_size D))"

definition read_block :: "'d block_dev \<Rightarrow> nat \<Rightarrow> ('d, FsError, bytes) io" where
  "read_block D blk =
     io_bind (io_check (Option.bind (lbas_per_block D) (u64_mul blk)))
       (\<lambda>lba. io_map_err (\<lambda>_. Io) (read_blocks D lba BLOCK_SIZE))"

definition write_block :: "'d block_dev \<Rightarrow> nat \<Rightarrow> bytes \<Rightarrow> ('d, FsError, unit) io" where
  "write_block D blk bs =
     io_bind (io_check (Option.bind (lbas_per_block D) (u64_mul blk)))
       (\<lambda>lba. io_map_err (\<lambda>_. Io) (write_blocks D lba bs))"

section \<open>State\<close>

record InodeState =
  st_ino :: nat
  st_raw :: RawInode

record 'd FsInner =
  fs_dev :: 'd
  fs_sb :: Superblock
  fs_bitmap :: bytes
  inode_cache :: "nat \<rightharpoonup> nat"
  fs_states :: "InodeState list"

text \<open>An operation of the device, run on the file system; and one that reads the file system, run on the pair.\<close>

definition on_dev :: "('d, 'e, 'a) io \<Rightarrow> ('d FsInner, 'e, 'a) io" where
  "on_dev m fs = map_option (\<lambda>(r, d'). (r, fs\<lparr>fs_dev := d'\<rparr>)) (m (fs_dev fs))"

definition on_fs :: "('f, 'e, 'a) io \<Rightarrow> ('f \<times> 'r, 'e, 'a) io" where
  "on_fs m p = map_option (\<lambda>(r, fs'). (r, (fs', snd p))) (m (fst p))"

section \<open>Inodes\<close>

definition load_inode :: "'d block_dev \<Rightarrow> nat \<Rightarrow> ('d FsInner, FsError, nat) io" where
  "load_inode D ino fs =
     (let sb = fs_sb fs in
      if ino = 0 \<or> inode_count sb \<le> ino then io_err NotFound fs
      else
        io_bind (io_check (u64_add (inode_table_start sb) (ino div INODES_PER_BLOCK))) (\<lambda>blk.
        io_bind (on_dev (read_block D blk)) (\<lambda>blkbuf fs1.
          (let raw = decode_inode (take INODE_SIZE (drop (ino mod INODES_PER_BLOCK * INODE_SIZE) blkbuf)) in
           io_ok (length (fs_states fs1)) (fs1\<lparr>fs_states := fs_states fs1 @ [\<lparr>st_ino = ino, st_raw = raw\<rparr>]\<rparr>)))) fs)"

text \<open>\<open>patch off bs blkbuf\<close>: the bytes of the buffer from \<open>off\<close> on are replaced.\<close>

definition patch :: "nat \<Rightarrow> bytes \<Rightarrow> bytes \<Rightarrow> bytes" where
  "patch off bs blkbuf = take off blkbuf @ bs @ drop (off + length bs) blkbuf"

definition write_inode :: "'d block_dev \<Rightarrow> nat \<Rightarrow> RawInode \<Rightarrow> ('d FsInner, FsError, unit) io" where
  "write_inode D ino raw fs =
     io_bind (io_check (u64_add (inode_table_start (fs_sb fs)) (ino div INODES_PER_BLOCK))) (\<lambda>blk.
     io_bind (on_dev (read_block D blk)) (\<lambda>blkbuf.
       on_dev (write_block D blk (patch (ino mod INODES_PER_BLOCK * INODE_SIZE) (encode_inode raw) blkbuf)))) fs"

text \<open>\<open>get_or_load\<close> takes the lock of the file system, a spin lock: when the caller holds it already
  (\<open>held\<close>), the call never returns.\<close>

definition get_or_load :: "'d block_dev \<Rightarrow> bool \<Rightarrow> nat \<Rightarrow> ('d FsInner, FsError, nat) io" where
  "get_or_load D held ino fs =
     (if held then None
      else
        (case inode_cache fs ino of
           Some i \<Rightarrow> io_ok i fs
         | None \<Rightarrow> io_bind (load_inode D ino) (\<lambda>i fs1. io_ok i (fs1\<lparr>inode_cache := (inode_cache fs1)(ino \<mapsto> i)\<rparr>)) fs))"

section \<open>Mounting\<close>

text \<open>The loop over the blocks of the bitmap.\<close>

fun read_bitmap :: "'d block_dev \<Rightarrow> nat \<Rightarrow> nat \<Rightarrow> nat \<Rightarrow> ('d, FsError, bytes) io" where
  "read_bitmap D start i 0 = io_ok []"
| "read_bitmap D start i (Suc n) =
     io_bind (io_check (u64_add start i)) (\<lambda>blk.
     io_bind (read_block D blk) (\<lambda>blkbuf.
     io_bind (read_bitmap D start (i + 1) n) (\<lambda>rest. io_ok (blkbuf @ rest))))"

definition pond_mount :: "'d block_dev \<Rightarrow> ('d, FsError, nat \<times> 'd FsInner) io" where
  "pond_mount D =
     io_bind (read_block D 0) (\<lambda>sb_buf.
       (let sb = decode_superblock sb_buf in
        if sb_magic sb \<noteq> POND_MAGIC then io_err Io
        else if sb_version sb \<noteq> POND_VERSION then io_err Io
        else
          io_bind (io_check (u64_mul (bitmap_blocks sb) BLOCK_SIZE)) (\<lambda>_.
          io_bind (read_bitmap D (bitmap_start sb) 0 (bitmap_blocks sb)) (\<lambda>bitmap d.
            (case load_inode D ROOT_INO
                    \<lparr>fs_dev = d, fs_sb = sb, fs_bitmap = bitmap, inode_cache = Map.empty, fs_states = []\<rparr> of
               None \<Rightarrow> None
             | Some (Inl e, fs) \<Rightarrow> Some (Inl e, fs_dev fs)
             | Some (Inr root, fs) \<Rightarrow> io_ok (root, fs\<lparr>inode_cache := (inode_cache fs)(ROOT_INO \<mapsto> root)\<rparr>) (fs_dev fs))))))"

section \<open>Block bitmap\<close>

text \<open>The search for a clear bit aborts when the index leaves the bitmap.\<close>

fun find_clear :: "bytes \<Rightarrow> nat \<Rightarrow> nat \<Rightarrow> nat option may_stop" where
  "find_clear bm i 0 = Some None"
| "find_clear bm i (Suc n) =
     (if length bm \<le> i div 8 then None
      else if bm ! (i div 8) AND push_bit (i mod 8) 1 = 0 then Some (Some i)
      else find_clear bm (i + 1) n)"

definition flush_bitmap_byte :: "'d block_dev \<Rightarrow> nat \<Rightarrow> ('d FsInner, FsError, unit) io" where
  "flush_bitmap_byte D byte fs =
     io_bind (io_check (u64_add (bitmap_start (fs_sb fs)) (byte div BLOCK_SIZE))) (\<lambda>blk.
     io_bind (on_dev (read_block D blk)) (\<lambda>blkbuf.
       on_dev (write_block D blk (blkbuf[byte mod BLOCK_SIZE := fs_bitmap fs ! byte])))) fs"

definition alloc_data_block :: "'d block_dev \<Rightarrow> ('d FsInner, FsError, nat) io" where
  "alloc_data_block D fs =
     (let sb = fs_sb fs in
      io_bind (io_check (Option.bind (u64_sub (total_blocks sb) (data_start sb)) (find_clear (fs_bitmap fs) 0))) (\<lambda>r.
        (case r of
           None \<Rightarrow> io_err NoSpace
         | Some i \<Rightarrow>
             io_bind (io_modify (\<lambda>fs. fs\<lparr>fs_bitmap := (fs_bitmap fs)[i div 8 := fs_bitmap fs ! (i div 8) OR push_bit (i mod 8) 1]\<rparr>)) (\<lambda>_.
             io_bind (flush_bitmap_byte D (i div 8)) (\<lambda>_.
               io_check (u64_add (data_start sb) i))))) fs)"

definition free_data_block :: "'d block_dev \<Rightarrow> nat \<Rightarrow> ('d FsInner, FsError, unit) io" where
  "free_data_block D blk fs =
     (let sb = fs_sb fs; i = blk - data_start sb in
      if blk < data_start sb \<or> total_blocks sb \<le> blk then io_err Io fs
      else if length (fs_bitmap fs) \<le> i div 8 then None
      else
        flush_bitmap_byte D (i div 8)
          (fs\<lparr>fs_bitmap := (fs_bitmap fs)[i div 8 := fs_bitmap fs ! (i div 8) AND NOT (push_bit (i mod 8) 1)]\<rparr>))"

fun find_unused :: "bytes \<Rightarrow> nat \<Rightarrow> nat \<Rightarrow> nat \<Rightarrow> nat option" where
  "find_unused blkbuf blk_off i 0 = None"
| "find_unused blkbuf blk_off i (Suc n) =
     (let ino = blk_off * INODES_PER_BLOCK + i in
      if ino \<noteq> 0 \<and> ri_kind (decode_inode (take INODE_SIZE (drop (i * INODE_SIZE) blkbuf))) = INODE_KIND_UNUSED
      then Some ino else find_unused blkbuf blk_off (i + 1) n)"

fun scan_inodes :: "'d block_dev \<Rightarrow> nat \<Rightarrow> nat \<Rightarrow> nat \<Rightarrow> ('d, FsError, nat) io" where
  "scan_inodes D start blk_off 0 = io_err NoSpace"
| "scan_inodes D start blk_off (Suc n) =
     io_bind (io_check (u64_add start blk_off)) (\<lambda>blk.
     io_bind (read_block D blk) (\<lambda>blkbuf.
       (case find_unused blkbuf blk_off 0 INODES_PER_BLOCK of
          Some ino \<Rightarrow> io_ok ino
        | None \<Rightarrow> scan_inodes D start (blk_off + 1) n)))"

definition alloc_inode :: "'d block_dev \<Rightarrow> ('d FsInner, FsError, nat) io" where
  "alloc_inode D fs = on_dev (scan_inodes D (inode_table_start (fs_sb fs)) 0 (inode_table_blocks (fs_sb fs))) fs"

section \<open>File data\<close>

definition direct_at :: "RawInode \<Rightarrow> nat \<Rightarrow> nat may_stop" where
  "direct_at raw i = (if i < length (direct raw) then Some (direct raw ! i) else None)"

text \<open>The loop of \<open>read_file_at\<close>, with the bytes read so far.\<close>

function read_loop :: "'d block_dev \<Rightarrow> RawInode \<Rightarrow> nat \<Rightarrow> nat \<Rightarrow> bytes \<Rightarrow> ('d, FsError, bytes) io" where
  "read_loop D raw cursor fin got d =
     (if fin \<le> cursor then io_ok got d
      else if DIRECT_BLOCKS \<le> cursor div BLOCK_SIZE then io_err Unsupported d
      else
        io_bind (io_check (direct_at raw (cursor div BLOCK_SIZE))) (\<lambda>blk d.
          if blk = 0 then io_err Io d
          else
            io_bind (read_block D blk) (\<lambda>blk_buf d1.
              (let in_blk = cursor mod BLOCK_SIZE;
                   n = min (BLOCK_SIZE - in_blk) (fin - cursor) in
               read_loop D raw (cursor + n) fin (got @ take n (drop in_blk blk_buf)) d1)) d) d)"
  by pat_completeness auto
termination
  by (relation "measure (\<lambda>(D, raw, cursor, fin, got, d). fin - cursor)") (auto simp: BLOCK_SIZE_def)

definition read_file_at :: "'d block_dev \<Rightarrow> RawInode \<Rightarrow> nat \<Rightarrow> nat \<Rightarrow> ('d, FsError, bytes) io" where
  "read_file_at D raw off n =
     (if ri_size raw \<le> off then io_ok []
      else io_bind (io_check (u64_add off n)) (\<lambda>fin. read_loop D raw off (min (ri_size raw) fin) []))"

fun alloc_missing :: "'d block_dev \<Rightarrow> nat \<Rightarrow> nat \<Rightarrow> ('d FsInner \<times> RawInode, FsError, unit) io" where
  "alloc_missing D i 0 = io_ok ()"
| "alloc_missing D i (Suc n) =
     io_bind (\<lambda>p. io_check (direct_at (snd p) i) p) (\<lambda>blk.
       if blk = 0 then
         io_bind (on_fs (alloc_data_block D)) (\<lambda>nb.
         io_bind (on_fs (on_dev (write_block D nb (replicate BLOCK_SIZE 0)))) (\<lambda>_.
         io_bind (io_modify (\<lambda>(fs, raw). (fs, raw\<lparr>direct := (direct raw)[i := nb]\<rparr>))) (\<lambda>_.
           alloc_missing D (i + 1) n)))
       else alloc_missing D (i + 1) n)"

function write_loop :: "'d block_dev \<Rightarrow> RawInode \<Rightarrow> nat \<Rightarrow> bytes \<Rightarrow> ('d, FsError, unit) io" where
  "write_loop D raw cursor src d =
     (if src = [] then io_ok () d
      else
        io_bind (io_check (direct_at raw (cursor div BLOCK_SIZE))) (\<lambda>blk.
        io_bind (read_block D blk) (\<lambda>blk_buf d1.
          (let in_blk = cursor mod BLOCK_SIZE;
               n = min (BLOCK_SIZE - in_blk) (length src) in
           io_bind (write_block D blk (patch in_blk (take n src) blk_buf)) (\<lambda>_ d2.
             write_loop D raw (cursor + n) (drop n src) d2) d1))) d)"
  by pat_completeness auto
termination
  by (relation "measure (\<lambda>(D, raw, cursor, src, d). length src)") (auto simp: BLOCK_SIZE_def)

definition write_file_at :: "'d block_dev \<Rightarrow> nat \<Rightarrow> bytes \<Rightarrow> ('d FsInner \<times> RawInode, FsError, nat) io" where
  "write_file_at D off bs =
     io_bind (io_check (u64_add off (length bs))) (\<lambda>fin.
       if DIRECT_BLOCKS < div_ceil fin BLOCK_SIZE then io_err Unsupported
       else
         io_bind (alloc_missing D 0 (div_ceil fin BLOCK_SIZE)) (\<lambda>_.
         io_bind (\<lambda>p. on_fs (on_dev (write_loop D (snd p) off bs)) p) (\<lambda>_.
         io_bind (io_modify (\<lambda>(fs, raw). (fs, if ri_size raw < fin then raw\<lparr>ri_size := fin\<rparr> else raw))) (\<lambda>_.
           io_ok (length bs)))))"

section \<open>Directories\<close>

type_synonym entry = "bytes \<times> InodeKind \<times> nat"

definition kind_of_code :: "nat \<Rightarrow> InodeKind option" where
  "kind_of_code k = (if k = INODE_KIND_FILE then Some FileKind else if k = INODE_KIND_DIR then Some DirKind else None)"

definition code_of_kind :: "InodeKind \<Rightarrow> nat" where
  "code_of_kind k = (case k of FileKind \<Rightarrow> INODE_KIND_FILE | DirKind \<Rightarrow> INODE_KIND_DIR)"

function parse_entries :: "bytes \<Rightarrow> nat \<Rightarrow> FsError + entry list" where
  "parse_entries bs i =
     (if length bs < i + DIR_ENTRY_HEADER_SIZE then Inr []
      else
        (let hdr = decode_header (drop i bs);
             name_start = i + DIR_ENTRY_HEADER_SIZE;
             name_end = name_start + name_len hdr in
         if name_len hdr = 0 then Inr []
         else if length bs < name_end then Inl Io
         else
           (let name = take (name_len hdr) (drop name_start bs) in
            if \<not> utf8_valid name then Inl Io
            else
              (case kind_of_code (de_kind hdr) of
                 None \<Rightarrow> Inl Io
               | Some kind \<Rightarrow>
                   (case parse_entries bs (align4 name_end) of
                      Inl e \<Rightarrow> Inl e | Inr es \<Rightarrow> Inr ((name, kind, de_inode hdr) # es))))))"
  by pat_completeness auto
termination
  by (relation "measure (\<lambda>(bs, i). length bs - i)") (auto simp: DIR_ENTRY_HEADER_SIZE_def align4_def)

definition dir_read_entries :: "'d block_dev \<Rightarrow> RawInode \<Rightarrow> ('d, FsError, entry list) io" where
  "dir_read_entries D raw =
     io_bind (read_file_at D raw 0 (ri_size raw)) (\<lambda>bs.
       (case parse_entries bs 0 of Inl e \<Rightarrow> io_err e | Inr es \<Rightarrow> io_ok es))"

definition encode_entry :: "entry \<Rightarrow> bytes" where
  "encode_entry e =
     (case e of (name, kind, ino) \<Rightarrow>
        (let body = encode_header \<lparr>de_inode = ino, name_len = length name mod 2 ^ 16, de_kind = code_of_kind kind\<rparr> @ name in
         body @ replicate (align4 (length body) - length body) 0))"

definition serialize_entries :: "entry list \<Rightarrow> bytes" where
  "serialize_entries es = concat (map encode_entry es)"

fun free_excess :: "'d block_dev \<Rightarrow> nat \<Rightarrow> nat \<Rightarrow> ('d FsInner \<times> RawInode, FsError, unit) io" where
  "free_excess D i 0 = io_ok ()"
| "free_excess D i (Suc n) =
     io_bind (\<lambda>p. io_check (direct_at (snd p) i) p) (\<lambda>blk.
       if blk \<noteq> 0 then
         io_bind (on_fs (free_data_block D blk)) (\<lambda>_.
         io_bind (io_modify (\<lambda>(fs, raw). (fs, raw\<lparr>direct := (direct raw)[i := 0]\<rparr>))) (\<lambda>_.
           free_excess D (i + 1) n))
       else free_excess D (i + 1) n)"

definition dir_write_entries :: "'d block_dev \<Rightarrow> entry list \<Rightarrow> ('d FsInner \<times> RawInode, FsError, unit) io" where
  "dir_write_entries D es p =
     (let bs = serialize_entries es;
          old_blocks = div_ceil (ri_size (snd p)) BLOCK_SIZE;
          new_blocks = div_ceil (length bs) BLOCK_SIZE in
      io_bind (free_excess D new_blocks (min old_blocks DIRECT_BLOCKS - new_blocks)) (\<lambda>_.
      io_bind (io_modify (\<lambda>(fs, raw). (fs, raw\<lparr>ri_size := 0\<rparr>))) (\<lambda>_.
      io_bind (write_file_at D 0 bs) (\<lambda>_.
        io_modify (\<lambda>(fs, raw). (fs, raw\<lparr>ri_size := length bs\<rparr>))))) p)"

section \<open>The inode operations\<close>

definition raw_of :: "nat \<Rightarrow> 'd FsInner \<Rightarrow> RawInode" where
  "raw_of i fs = st_raw (fs_states fs ! i)"

text \<open>\<open>with_raw\<close> runs an operation with the \<open>RawInode\<close> of a state locked; what it changes there is kept.\<close>

definition with_raw :: "nat \<Rightarrow> ('d FsInner \<times> RawInode, FsError, 'a) io \<Rightarrow> ('d FsInner, FsError, 'a) io" where
  "with_raw i m fs =
     map_option (\<lambda>(r, fs', raw'). (r, fs'\<lparr>fs_states := (fs_states fs')[i := (fs_states fs' ! i)\<lparr>st_raw := raw'\<rparr>]\<rparr>))
       (m (fs, raw_of i fs))"

definition pond_kind :: "nat \<Rightarrow> 'd FsInner \<Rightarrow> InodeKind" where
  "pond_kind i fs = (if ri_kind (raw_of i fs) = INODE_KIND_DIR then DirKind else FileKind)"

definition pond_size :: "nat \<Rightarrow> 'd FsInner \<Rightarrow> nat" where
  "pond_size i fs = ri_size (raw_of i fs)"

definition pond_read_at :: "'d block_dev \<Rightarrow> nat \<Rightarrow> nat \<Rightarrow> nat \<Rightarrow> ('d FsInner, FsError, bytes) io" where
  "pond_read_at D i off n fs =
     (if ri_kind (raw_of i fs) \<noteq> INODE_KIND_FILE then io_err IsDir fs
      else on_dev (read_file_at D (raw_of i fs) off n) fs)"

definition pond_write_at :: "'d block_dev \<Rightarrow> nat \<Rightarrow> nat \<Rightarrow> bytes \<Rightarrow> ('d FsInner, FsError, nat) io" where
  "pond_write_at D i off bs fs =
     (if ri_kind (raw_of i fs) \<noteq> INODE_KIND_FILE then io_err IsDir fs
      else
        with_raw i
          (io_bind (write_file_at D off bs) (\<lambda>n.
           io_bind (\<lambda>p. on_fs (write_inode D (st_ino (fs_states fs ! i)) (snd p)) p) (\<lambda>_. io_ok n))) fs)"

definition find_entry :: "bytes \<Rightarrow> entry list \<Rightarrow> entry option" where
  "find_entry name es = find (\<lambda>e. fst e = name) es"

definition pond_lookup :: "'d block_dev \<Rightarrow> nat \<Rightarrow> bytes \<Rightarrow> ('d FsInner, FsError, nat) io" where
  "pond_lookup D i name fs =
     (if ri_kind (raw_of i fs) \<noteq> INODE_KIND_DIR then io_err NotDir fs
      else
        io_bind (on_dev (dir_read_entries D (raw_of i fs))) (\<lambda>es.
          (case find_entry name es of
             Some (_, _, ino) \<Rightarrow> get_or_load D False ino
           | None \<Rightarrow> io_err NotFound)) fs)"

definition pond_readdir :: "'d block_dev \<Rightarrow> nat \<Rightarrow> ('d FsInner, FsError, (bytes \<times> InodeKind) list) io" where
  "pond_readdir D i fs =
     (if ri_kind (raw_of i fs) \<noteq> INODE_KIND_DIR then io_err NotDir fs
      else
        io_bind (on_dev (dir_read_entries D (raw_of i fs))) (\<lambda>es. io_ok (map (\<lambda>(n, k, _). (n, k)) es)) fs)"

definition new_raw :: "InodeKind \<Rightarrow> RawInode" where
  "new_raw kind =
     \<lparr>ri_kind = code_of_kind kind, ri_pad0 = 0, link_count = 1, ri_size = 0, ri_mtime = 0, ri_pad1 = 0,
      direct = replicate DIRECT_BLOCKS 0\<rparr>"

text \<open>The new inode state enters the cache.\<close>

definition cache_state :: "nat \<Rightarrow> RawInode \<Rightarrow> ('d FsInner, FsError, nat) io" where
  "cache_state ino raw fs =
     io_ok (length (fs_states fs))
       (fs\<lparr>fs_states := fs_states fs @ [\<lparr>st_ino = ino, st_raw = raw\<rparr>],
           inode_cache := (inode_cache fs)(ino \<mapsto> length (fs_states fs))\<rparr>)"

definition create_locked :: "'d block_dev \<Rightarrow> nat \<Rightarrow> bytes \<Rightarrow> InodeKind \<Rightarrow> ('d FsInner \<times> RawInode, FsError, nat) io" where
  "create_locked D parent_ino name kind p =
     (if ri_kind (snd p) \<noteq> INODE_KIND_DIR then io_err NotDir p
      else
        io_bind (on_fs (on_dev (dir_read_entries D (snd p)))) (\<lambda>es.
          if find_entry name es \<noteq> None then io_err Exists
          else
            io_bind (on_fs (alloc_inode D)) (\<lambda>new_ino.
            io_bind (on_fs (write_inode D new_ino (new_raw kind))) (\<lambda>_.
            io_bind (dir_write_entries D (es @ [(name, kind, new_ino)])) (\<lambda>_.
            io_bind (\<lambda>p. on_fs (write_inode D parent_ino (snd p)) p) (\<lambda>_.
              on_fs (cache_state new_ino (new_raw kind))))))) p)"

definition pond_create :: "'d block_dev \<Rightarrow> nat \<Rightarrow> bytes \<Rightarrow> InodeKind \<Rightarrow> ('d FsInner, FsError, nat) io" where
  "pond_create D i name kind fs = with_raw i (create_locked D (st_ino (fs_states fs ! i)) name kind) fs"

text \<open>
  \<open>unlink\<close> holds the lock of the file system when it calls \<open>get_or_load\<close>.
\<close>

definition remove_entry :: "bytes \<Rightarrow> entry list \<Rightarrow> entry list" where
  "remove_entry name es = takeWhile (\<lambda>e. fst e \<noteq> name) es @ tl (dropWhile (\<lambda>e. fst e \<noteq> name) es)"

definition unlink_inode :: "'d block_dev \<Rightarrow> nat \<Rightarrow> ('d FsInner, FsError, unit) io" where
  "unlink_inode D ino =
     io_bind (get_or_load D True ino) (\<lambda>j.
     io_bind (with_raw j
       (io_bind (free_excess D 0 DIRECT_BLOCKS) (\<lambda>_.
          io_modify (\<lambda>(fs, raw). (fs, raw\<lparr>ri_kind := INODE_KIND_UNUSED, ri_size := 0, link_count := 0\<rparr>))))) (\<lambda>_.
     io_bind (\<lambda>fs. write_inode D ino (raw_of j fs) fs) (\<lambda>_.
       io_modify (\<lambda>fs. fs\<lparr>inode_cache := (inode_cache fs)(ino := None)\<rparr>))))"

definition unlink_locked :: "'d block_dev \<Rightarrow> nat \<Rightarrow> bytes \<Rightarrow> ('d FsInner \<times> RawInode, FsError, unit) io" where
  "unlink_locked D parent_ino name p =
     (if ri_kind (snd p) \<noteq> INODE_KIND_DIR then io_err NotDir p
      else
        io_bind (on_fs (on_dev (dir_read_entries D (snd p)))) (\<lambda>es.
          (case find_entry name es of
             None \<Rightarrow> io_err NotFound
           | Some (_, _, ino) \<Rightarrow>
               io_bind (on_fs (unlink_inode D ino)) (\<lambda>_.
               io_bind (dir_write_entries D (remove_entry name es)) (\<lambda>_.
                 (\<lambda>p. on_fs (write_inode D parent_ino (snd p)) p))))) p)"

definition pond_unlink :: "'d block_dev \<Rightarrow> nat \<Rightarrow> bytes \<Rightarrow> ('d FsInner, FsError, unit) io" where
  "pond_unlink D i name fs = with_raw i (unlink_locked D (st_ino (fs_states fs ! i)) name) fs"

definition pond_api :: "'d block_dev \<Rightarrow> (nat, 'd FsInner) inode_api" where
  "pond_api D = \<lparr>ino_kind = pond_kind, ino_size = pond_size, ino_read_at = pond_read_at D, ino_write_at = pond_write_at D,
     ino_lookup = pond_lookup D, ino_readdir = pond_readdir D, ino_create = pond_create D, ino_unlink = pond_unlink D\<rparr>"

end
