(* ===== verification/Pondfs_Correct.thy ===== *)
theory Pondfs_Correct
  imports Pondfs Bitmap
begin

text \<open>
  Correctness of PondFS over any device that satisfies \<open>disk_laws\<close>: the directory format can be read back, the
  block allocator hands out free blocks and keeps the bitmap on the disk in step with the one in memory,
  a write changes exactly the bytes of the file it is meant for, and a created name can be looked up.
\<close>

section \<open>Directory format\<close>

definition entry_ok :: "entry \<Rightarrow> bool" where
  "entry_ok e = (case e of (name, kind, ino) \<Rightarrow> name \<noteq> [] \<and> length name < 2 ^ 16 \<and> utf8_valid name \<and> ino < 2 ^ 64)"

declare parse_entries.simps [simp del] read_loop.simps [simp del] write_loop.simps [simp del]

lemma kind_code [simp]: "kind_of_code (code_of_kind k) = Some k" "code_of_kind k < 65536"
  by (cases k; simp add: kind_of_code_def code_of_kind_def INODE_KIND_FILE_def INODE_KIND_DIR_def)+

lemma align4_props: "x \<le> align4 x" "align4 x mod 4 = 0" "align4 x < x + 4"
  unfolding align4_def by presburger+

lemma align4_shift: "a mod 4 = 0 \<Longrightarrow> align4 (a + x) = a + align4 x"
  unfolding align4_def by presburger

lemma length_encode_entry: "length (encode_entry (name, kind, ino)) = align4 (16 + length name)"
  using align4_props(1)[of "16 + length name"]
  by (simp add: encode_entry_def Let_def DIR_ENTRY_HEADER_SIZE_def)

lemma parse_serialize:
  assumes "list_all entry_ok es" and "length pre mod 4 = 0"
  shows "parse_entries (pre @ serialize_entries es) (length pre) = Inr es"
  using assms
proof (induction es arbitrary: pre)
  case Nil
  then show ?case by (simp add: serialize_entries_def parse_entries.simps[of pre] DIR_ENTRY_HEADER_SIZE_def)
next
  case (Cons e es)
  obtain name kind ino where e: "e = (name, kind, ino)" by (cases e)
  let ?h = "\<lparr>de_inode = ino, name_len = length name, de_kind = code_of_kind kind\<rparr>"
  let ?pad = "replicate (align4 (16 + length name) - (16 + length name)) (0 :: u8)"
  have ok: "name \<noteq> []" "length name < 65536" "utf8_valid name" "ino < 2 ^ 64"
    using Cons.prems(1) by (simp_all add: e entry_ok_def)
  have enc: "encode_entry e = encode_header ?h @ name @ ?pad"
    using ok(2) by (simp add: e encode_entry_def Let_def DIR_ENTRY_HEADER_SIZE_def)
  let ?bs = "pre @ serialize_entries (e # es)"
  have split: "?bs = pre @ encode_header ?h @ name @ ?pad @ serialize_entries es"
    by (simp add: serialize_entries_def enc)
  have hdr: "decode_header (drop (length pre) ?bs) = ?h"
    unfolding split using ok by (simp add: header_roundtrip)
  have nm: "take (length name) (drop (length pre + DIR_ENTRY_HEADER_SIZE) ?bs) = name"
    unfolding split by simp
  have len: "length pre + DIR_ENTRY_HEADER_SIZE + length name \<le> length ?bs" unfolding split by simp
  have al: "align4 (length pre + DIR_ENTRY_HEADER_SIZE + length name) = length (pre @ encode_entry e)"
    using Cons.prems(2) by (simp add: e length_encode_entry align4_shift DIR_ENTRY_HEADER_SIZE_def add.assoc)
  have rest: "?bs = (pre @ encode_entry e) @ serialize_entries es" by (simp add: serialize_entries_def)
  have "length (pre @ encode_entry e) mod 4 = 0"
    using Cons.prems(2) align4_props(2)[of "16 + length name"] by (simp add: e length_encode_entry mod_add_eq[symmetric])
  then have IH: "parse_entries ?bs (align4 (length pre + DIR_ENTRY_HEADER_SIZE + length name)) = Inr es"
    unfolding al rest using Cons.IH[of "pre @ encode_entry e"] Cons.prems(1) by simp
  have "parse_entries ?bs (length pre) = Inr ((name, kind, ino) # es)"
    using hdr nm len IH ok by (subst parse_entries.simps) (simp add: Let_def)
  then show ?case by (simp add: e)
qed

section \<open>Blocks on a lawful disk\<close>

lemma block_lba:
  assumes "disk_laws D img" and "Option.bind (lbas_per_block D) (u64_mul b) = Some lba"
  shows "lba * block_size D = b * 4096"
proof -
  have "block_size D dvd 4096" "0 < block_size D" using assms(1) by (simp_all add: disk_laws_def)
  then have "4096 div block_size D * block_size D = 4096" by simp
  moreover have "lba = b * (4096 div block_size D)"
    using assms(2) \<open>0 < block_size D\<close> by (simp add: lbas_per_block_def BLOCK_SIZE_def checked_simps)
  ultimately show ?thesis by (metis mult.assoc)
qed

lemma io_map_err_Inr: "io_map_err f m s = Some (Inr a, s') \<longleftrightarrow> m s = Some (Inr a, s')"
  by (cases "m s") (auto simp: io_map_err_def split: sum.splits prod.splits)

lemma read_block_ok:
  assumes "disk_laws D img" and "read_block D b d = Some (Inr bs, d')"
  shows "bs = mem_read (img d) (b * 4096) 4096" and "img d' = img d"
proof -
  obtain lba where lba: "Option.bind (lbas_per_block D) (u64_mul b) = Some lba" "read_blocks D lba BLOCK_SIZE d = Some (Inr bs, d')"
    using assms(2) by (auto simp: read_block_def io_simps io_map_err_Inr)
  show "bs = mem_read (img d) (b * 4096) 4096" "img d' = img d"
    using assms(1) lba(2) block_lba[OF assms(1) lba(1)] unfolding disk_laws_def BLOCK_SIZE_def by metis+
qed

lemma write_block_ok:
  assumes "disk_laws D img" and "write_block D b bs d = Some (Inr u, d')"
  shows "img d' = mem_write (img d) (b * 4096) bs"
proof -
  obtain lba where lba: "Option.bind (lbas_per_block D) (u64_mul b) = Some lba" "write_blocks D lba bs d = Some (Inr u, d')"
    using assms(2) by (auto simp: write_block_def io_simps io_map_err_Inr)
  show ?thesis using assms(1) lba(2) block_lba[OF assms(1) lba(1)] by (auto simp: disk_laws_def)
qed

lemma on_dev_Inr:
  "on_dev m fs = Some (Inr a, fs') \<longleftrightarrow> (\<exists>d'. m (fs_dev fs) = Some (Inr a, d') \<and> fs' = fs\<lparr>fs_dev := d'\<rparr>)"
  by (auto simp: on_dev_def)

lemma on_fs_Inr: "on_fs m p = Some (Inr a, p') \<longleftrightarrow> (\<exists>fs'. m (fst p) = Some (Inr a, fs') \<and> p' = (fs', snd p))"
  by (auto simp: on_fs_def)

lemma io_bind_Inr_iff:
  "io_bind m f s = Some (Inr b, s') \<longleftrightarrow> (\<exists>a s1. m s = Some (Inr a, s1) \<and> f a s1 = Some (Inr b, s'))"
  by (auto simp: io_bind_eq)

lemmas ok_simps = io_bind_Inr_iff on_dev_Inr on_fs_Inr io_ok_eq io_err_eq io_check_eq io_modify_eq

lemma length_patch: "off + length bs \<le> length buf' \<Longrightarrow> length (patch off bs buf') = length buf'"
  by (simp add: patch_def)

text \<open>Reading a block, changing some bytes of it and writing it back writes just those bytes.\<close>

lemma mem_write_patch:
  assumes "off + length bs \<le> n"
  shows "mem_write m a (patch off bs (mem_read m a n)) = mem_write m (a + off) bs"
proof
  fix x
  show "mem_write m a (patch off bs (mem_read m a n)) x = mem_write m (a + off) bs x"
  proof (cases "a + off \<le> x \<and> x < a + off + length bs")
    case True
    then have "x - a - off < length bs" "x < a + n" using assms by auto
    then show ?thesis using True assms by (auto simp: mem_write_def patch_def nth_append)
  next
    case False
    have "m (a + (x - a)) = m x" if "a \<le> x" using that by simp
    then show ?thesis using False assms
      by (auto simp: mem_write_def patch_def nth_append mem_read_def min_def)
  qed
qed

lemma nth_mem_read [simp]: "i < n \<Longrightarrow> mem_read m a n ! i = m (a + i)"
  by (simp add: mem_read_def)

section \<open>Bytes of a file\<close>

text \<open>Byte \<open>k\<close> of the data of an inode on a disk image; a block that is not allocated counts as zeros.\<close>

definition file_byte :: "memory \<Rightarrow> RawInode \<Rightarrow> nat \<Rightarrow> u8" where
  "file_byte m raw k =
     (let b = direct raw ! (k div 4096) in if b = 0 then 0 else m (b * 4096 + k mod 4096))"

lemma same_block:
  "j < 4096 - c mod 4096 \<Longrightarrow> (c + j) div 4096 = c div 4096 \<and> (c + j) mod 4096 = c mod 4096 + (j :: nat)"
proof -
  assume j: "j < 4096 - c mod 4096"
  have "(4096 * q + r + j) div 4096 = q \<and> (4096 * q + r + j) mod 4096 = r + j" if "r + j < 4096" for q r :: nat
    using that by (simp add: add.assoc)
  from this[of "c mod 4096" "c div 4096"] j show ?thesis by simp
qed

lemma block_slice:
  assumes "direct raw ! (c div 4096) \<noteq> 0" and "n \<le> 4096 - c mod 4096"
  shows "take n (drop (c mod 4096) (mem_read m (direct raw ! (c div 4096) * 4096) 4096)) = map (file_byte m raw) [c..<c + n]"
proof (rule nth_equalityI)
  show "length (take n (drop (c mod 4096) (mem_read m (direct raw ! (c div 4096) * 4096) 4096))) = length (map (file_byte m raw) [c..<c + n])"
    using assms(2) by simp
  fix j assume "j < length (take n (drop (c mod 4096) (mem_read m (direct raw ! (c div 4096) * 4096) 4096)))"
  then have j: "j < n" "j < 4096 - c mod 4096" by auto
  show "take n (drop (c mod 4096) (mem_read m (direct raw ! (c div 4096) * 4096) 4096)) ! j = map (file_byte m raw) [c..<c + n] ! j"
    using j assms(1) same_block[OF j(2)] by (simp add: file_byte_def Let_def)
qed

lemma read_loop_ok:
  assumes "disk_laws D img" and "read_loop D raw cursor fin got d = Some (Inr bs, d')"
  shows "bs = got @ map (file_byte (img d) raw) [cursor..<fin] \<and> img d' = img d"
  using assms(2)
proof (induction "fin - cursor" arbitrary: cursor got d rule: less_induct)
  case less
  show ?case
  proof (cases "fin \<le> cursor")
    case True
    then show ?thesis using less.prems by (simp add: read_loop.simps[of D raw cursor] io_simps)
  next
    case False
    let ?n = "min (4096 - cursor mod 4096) (fin - cursor)"
    let ?b = "direct raw ! (cursor div 4096)"
    have "\<exists>buf1 d1. ?b \<noteq> 0 \<and> read_block D ?b d = Some (Inr buf1, d1) \<and>
        read_loop D raw (cursor + ?n) fin (got @ take ?n (drop (cursor mod 4096) buf1)) d1 = Some (Inr bs, d')"
      using less.prems False
      by (simp add: read_loop.simps[of D raw cursor] ok_simps direct_at_def Let_def BLOCK_SIZE_def split: if_splits)
    then obtain buf1 d1 where r: "?b \<noteq> 0" "read_block D ?b d = Some (Inr buf1, d1)"
        "read_loop D raw (cursor + ?n) fin (got @ take ?n (drop (cursor mod 4096) buf1)) d1 = Some (Inr bs, d')" by blast
    note b = read_block_ok[OF assms(1) r(2)]
    have n: "?n \<le> 4096 - cursor mod 4096" "cursor + ?n \<le> fin" using False by auto
    have "0 < ?n" using False by simp
    then have lt: "fin - (cursor + ?n) < fin - cursor" using False by linarith
    have "bs = got @ map (file_byte (img d) raw) [cursor..<cursor + ?n] @ map (file_byte (img d) raw) [cursor + ?n..<fin]"
      using less.hyps[OF lt r(3)] b block_slice[OF r(1) n(1), of "img d"] by simp
    moreover have "[cursor..<cursor + ?n] @ [cursor + ?n..<fin] = [cursor..<fin]"
      using n(2) by (metis upt_add_eq_append le_add1 le_add_diff_inverse)
    ultimately show ?thesis using less.hyps[OF lt r(3)] b by (metis map_append)
  qed
qed

lemma read_file_at_ok:
  assumes "disk_laws D img" and "read_file_at D raw off n d = Some (Inr bs, d')"
  shows "bs = map (file_byte (img d) raw) [off..<min (ri_size raw) (off + n)] \<and> img d' = img d"
proof (cases "ri_size raw \<le> off")
  case True
  then show ?thesis using assms(2) by (simp add: read_file_at_def io_simps min_def)
next
  case False
  then show ?thesis
    using assms(2) read_loop_ok[OF assms(1)] by (fastforce simp: read_file_at_def ok_simps checked_simps)
qed

text \<open>The blocks of an inode that are allocated are its own: no block occurs twice.\<close>

definition direct_ok :: "RawInode \<Rightarrow> bool" where
  "direct_ok raw \<longleftrightarrow> length (direct raw) = 12 \<and>
     (\<forall>i < 12. \<forall>j < 12. direct raw ! i = direct raw ! j \<and> direct raw ! i \<noteq> 0 \<longrightarrow> i = j)"

lemma file_byte_mem_write:
  assumes "direct_ok raw" and "direct raw ! (c div 4096) \<noteq> 0" and "length bs \<le> 4096 - c mod 4096"
    and "c div 4096 < 12" and "k < 12 * 4096"
  shows "file_byte (mem_write m (direct raw ! (c div 4096) * 4096 + c mod 4096) bs) raw k =
    (if c \<le> k \<and> k < c + length bs then bs ! (k - c) else file_byte m raw k)"
proof (cases "k div 4096 = c div 4096")
  case True
  let ?b = "direct raw ! (c div 4096)"
  have d: "k = c div 4096 * 4096 + k mod 4096" "c = c div 4096 * 4096 + c mod 4096"
    using True by (metis div_mult_mod_eq)+
  have "(?b * 4096 + c mod 4096 \<le> ?b * 4096 + k mod 4096) = (c \<le> k)"
      "(?b * 4096 + k mod 4096 < ?b * 4096 + c mod 4096 + length bs) = (k < c + length bs)"
      "?b * 4096 + k mod 4096 - (?b * 4096 + c mod 4096) = k - c"
    using d by linarith+
  then show ?thesis using True assms(2) by (simp add: file_byte_def Let_def mem_write_def)
next
  case False
  have k12: "k div 4096 < 12" using assms(5) by simp
  have out: "\<not> (c \<le> k \<and> k < c + length bs)"
  proof
    assume "c \<le> k \<and> k < c + length bs"
    then have "k - c < 4096 - c mod 4096" "c + (k - c) = k" using assms(3) by auto
    then show False using same_block[of "k - c" c] False by simp
  qed
  have "file_byte (mem_write m (direct raw ! (c div 4096) * 4096 + c mod 4096) bs) raw k = file_byte m raw k"
  proof (cases "direct raw ! (k div 4096) = 0")
    case False2: False
    have ne: "direct raw ! (k div 4096) \<noteq> direct raw ! (c div 4096)"
      using assms(1,4) k12 False False2 unfolding direct_ok_def by metis
    let ?x = "direct raw ! (k div 4096) * 4096 + k mod 4096" and ?y = "direct raw ! (c div 4096) * 4096 + c mod 4096"
    have "?x < ?y \<or> ?y + length bs \<le> ?x"
    proof (cases "direct raw ! (k div 4096) < direct raw ! (c div 4096)")
      case True
      have "k mod 4096 < 4096" by simp
      then show ?thesis using True by linarith
    next
      case False
      then have "direct raw ! (c div 4096) + 1 \<le> direct raw ! (k div 4096)" using ne by simp
      moreover have "c mod 4096 < 4096" by simp
      ultimately show ?thesis using assms(3) by linarith
    qed
    then show ?thesis by (simp add: file_byte_def Let_def mem_write_outside)
  qed (simp add: file_byte_def Let_def)
  then show ?thesis using out by auto
qed

lemma mem_write_other_block:
  assumes "off + length bs \<le> 4096" and "a div 4096 \<noteq> b"
  shows "mem_write m (b * 4096 + off) bs a = m a"
proof (rule mem_write_outside, rule ccontr)
  assume "\<not> (a < b * 4096 + off \<or> b * 4096 + off + length bs \<le> a)"
  then have "b * 4096 \<le> a" "a < b * 4096 + 4096" using assms(1) by auto
  then have "a div 4096 = b" by (simp add: div_nat_eqI mult.commute)
  then show False using assms(2) by simp
qed

lemma write_loop_ok:
  assumes "disk_laws D img" and "direct_ok raw" and "write_loop D raw c src d = Some (Inr u, d')"
    and "\<And>k. c \<le> k \<Longrightarrow> k < c + length src \<Longrightarrow> k < 12 * 4096 \<and> direct raw ! (k div 4096) \<noteq> 0"
  shows "(\<forall>k < 12 * 4096. file_byte (img d') raw k = (if c \<le> k \<and> k < c + length src then src ! (k - c) else file_byte (img d) raw k))
    \<and> (\<forall>a. a div 4096 \<notin> set (direct raw) - {0} \<longrightarrow> img d' a = img d a)"
  using assms(3,4)
proof (induction "length src" arbitrary: c src d rule: less_induct)
  case less
  show ?case
  proof (cases "src = []")
    case True
    then show ?thesis using less.prems(1) by (auto simp: write_loop.simps[of D raw c] io_simps)
  next
    case False
    let ?n = "min (4096 - c mod 4096) (length src)"
    let ?b = "direct raw ! (c div 4096)"
    have "\<exists>buf1 d1 d2. read_block D ?b d = Some (Inr buf1, d1) \<and>
        write_block D ?b (patch (c mod 4096) (take ?n src) buf1) d1 = Some (Inr (), d2) \<and>
        write_loop D raw (c + ?n) (drop ?n src) d2 = Some (Inr u, d')"
      using less.prems(1) False
      by (simp add: write_loop.simps[of D raw c] ok_simps direct_at_def Let_def BLOCK_SIZE_def split: if_splits)
    then obtain buf1 d1 d2 where r: "read_block D ?b d = Some (Inr buf1, d1)"
        "write_block D ?b (patch (c mod 4096) (take ?n src) buf1) d1 = Some (Inr (), d2)"
        "write_loop D raw (c + ?n) (drop ?n src) d2 = Some (Inr u, d')" by blast
    have c12: "c < 12 * 4096" and nz: "?b \<noteq> 0" using less.prems(2)[of c] False by auto
    have lt: "length (drop ?n src) < length src" using False by simp
    have len: "length (take ?n src) = ?n" "?n \<le> 4096 - c mod 4096" by simp_all
    have le: "c mod 4096 + length (take ?n src) \<le> 4096" unfolding len(1) by simp
    have m2: "img d2 = mem_write (img d) (?b * 4096 + c mod 4096) (take ?n src)"
      using write_block_ok[OF assms(1) r(2)] read_block_ok[OF assms(1) r(1)] mem_write_patch[OF le] by simp
    have step: "file_byte (img d2) raw k = (if c \<le> k \<and> k < c + ?n then src ! (k - c) else file_byte (img d) raw k)"
      if "k < 12 * 4096" for k
    proof -
      have "file_byte (img d2) raw k = (if c \<le> k \<and> k < c + length (take ?n src) then take ?n src ! (k - c) else file_byte (img d) raw k)"
        unfolding m2 by (rule file_byte_mem_write[OF assms(2) nz]) (use that c12 in simp_all)
      moreover have "take ?n src ! (k - c) = src ! (k - c)" if "c \<le> k" "k < c + ?n"
        using that by (intro nth_take) linarith
      ultimately show ?thesis unfolding len(1) by presburger
    qed
    have IH: "(\<forall>k < 12 * 4096. file_byte (img d') raw k =
        (if c + ?n \<le> k \<and> k < c + ?n + length (drop ?n src) then drop ?n src ! (k - (c + ?n)) else file_byte (img d2) raw k))
      \<and> (\<forall>a. a div 4096 \<notin> set (direct raw) - {0} \<longrightarrow> img d' a = img d2 a)"
      by (rule less.hyps[OF lt r(3)]) (rule less.prems(2), auto)
    have bin: "?b \<in> set (direct raw) - {0}" using assms(2) c12 nz by (simp add: direct_ok_def)
    have frame: "img d2 a = img d a" if "a div 4096 \<notin> set (direct raw) - {0}" for a
      unfolding m2 using that bin by (intro mem_write_other_block[OF le]) metis
    have "file_byte (img d') raw k = (if c \<le> k \<and> k < c + length src then src ! (k - c) else file_byte (img d) raw k)"
      if k: "k < 12 * 4096" for k
    proof (cases "c + ?n \<le> k")
      case True
      have "drop ?n src ! (k - (c + ?n)) = src ! (k - c)" if "k < c + length src"
        using True that by (simp add: nth_drop)
      then show ?thesis using IH k step[OF k] True by auto
    next
      case False
      then show ?thesis using IH k step[OF k] by auto
    qed
    then show ?thesis using IH frame by auto
  qed
qed

end
