(* ===== verification/Pondfs_Alloc.thy ===== *)
theory Pondfs_Alloc
  imports Pondfs_Correct
begin

text \<open>
  The block allocator of PondFS and the file writes that use it. The layout puts the bitmap, the inode table and
  the data blocks one after the other; the bitmap in memory and the one on the disk agree between operations;
  the blocks of an inode are marked used.
\<close>

definition geo_ok :: "Superblock \<Rightarrow> bool" where
  "geo_ok sb \<longleftrightarrow> 0 < bitmap_start sb \<and> bitmap_start sb + bitmap_blocks sb \<le> inode_table_start sb \<and>
     inode_table_start sb + inode_table_blocks sb \<le> data_start sb \<and>
     total_blocks sb < 2 ^ 64 \<and> inode_table_blocks sb * 32 \<le> 2 ^ 64"

definition synced :: "('d \<Rightarrow> memory) \<Rightarrow> 'd FsInner \<Rightarrow> bool" where
  "synced img fs \<longleftrightarrow> (\<forall>j < length (fs_bitmap fs). img (fs_dev fs) (bitmap_start (fs_sb fs) * 4096 + j) = fs_bitmap fs ! j)"

definition fs_ok :: "('d \<Rightarrow> memory) \<Rightarrow> 'd FsInner \<Rightarrow> bool" where
  "fs_ok img fs \<longleftrightarrow> geo_ok (fs_sb fs) \<and> length (fs_bitmap fs) = bitmap_blocks (fs_sb fs) * 4096 \<and> synced img fs"

definition used :: "'d FsInner \<Rightarrow> nat \<Rightarrow> bool" where
  "used fs b \<longleftrightarrow> data_start (fs_sb fs) \<le> b \<and> b < total_blocks (fs_sb fs) \<and> bit_at (fs_bitmap fs) (b - data_start (fs_sb fs))"

definition inode_ok :: "'d FsInner \<Rightarrow> RawInode \<Rightarrow> bool" where
  "inode_ok fs raw \<longleftrightarrow> direct_ok raw \<and> (\<forall>b \<in> set (direct raw). b \<noteq> 0 \<longrightarrow> used fs b)"

section \<open>Bitmap\<close>

lemma find_clear_ok:
  "find_clear bm i n = Some r \<Longrightarrow>
   (case r of
      Some j \<Rightarrow> i \<le> j \<and> j < i + n \<and> j div 8 < length bm \<and> \<not> bit_at bm j \<and> (\<forall>k. i \<le> k \<and> k < j \<longrightarrow> bit_at bm k)
    | None \<Rightarrow> (\<forall>k. i \<le> k \<and> k < i + n \<longrightarrow> bit_at bm k))"
proof (induction bm i n rule: find_clear.induct)
  case (1 bm i)
  then show ?case by auto
next
  case (2 bm i n)
  have len: "i div 8 < length bm" using 2(2) by (auto split: if_splits)
  have b: "(bm ! (i div 8) AND push_bit (i mod 8) 1 = 0) = (\<not> bit_at bm i)"
    unfolding bit_at_def by (rule mask_test_bit) simp
  show ?case
  proof (cases "bit_at bm i")
    case False
    then have "r = Some i" using 2(2) b len by simp
    then show ?thesis using False len by auto
  next
    case True
    then have "find_clear bm (i + 1) n = Some r" using 2(2) b len by simp
    note IH = 2(1)[OF _ _ this]
    have split: "i \<le> k \<longleftrightarrow> k = i \<or> i + 1 \<le> k" for k by auto
    show ?thesis using IH b True len by (cases r) (auto simp: split)
  qed
qed

lemma mem_write_single: "mem_write m a [v] = m(a := v)"
  by (auto simp: mem_write_def fun_eq_iff)

lemma list_update_patch: "i < length xs \<Longrightarrow> xs[i := v] = patch i [v] xs"
  by (simp add: patch_def upd_conv_take_nth_drop)

lemma flush_ok:
  assumes "disk_laws D img" and "flush_bitmap_byte D byte fs = Some (Inr u, fs')"
  shows "\<exists>d'. fs' = fs\<lparr>fs_dev := d'\<rparr> \<and>
    img d' = (img (fs_dev fs))(bitmap_start (fs_sb fs) * 4096 + byte := fs_bitmap fs ! byte)"
proof -
  let ?blk = "bitmap_start (fs_sb fs) + byte div 4096"
  obtain buf1 d1 where r: "read_block D ?blk (fs_dev fs) = Some (Inr buf1, d1)"
      and "on_dev (write_block D ?blk (buf1[byte mod 4096 := fs_bitmap fs ! byte])) (fs\<lparr>fs_dev := d1\<rparr>) = Some (Inr u, fs')"
    using assms(2) by (auto simp: flush_bitmap_byte_def ok_simps checked_simps BLOCK_SIZE_def)
  then obtain d' where w: "write_block D ?blk (buf1[byte mod 4096 := fs_bitmap fs ! byte]) d1 = Some (Inr u, d')"
      and fs': "fs' = fs\<lparr>fs_dev := d'\<rparr>" by (auto simp: on_dev_Inr)
  have buf1: "buf1 = mem_read (img (fs_dev fs)) (?blk * 4096) 4096" "img d1 = img (fs_dev fs)"
    using read_block_ok[OF assms(1) r] by auto
  have "img d' = mem_write (img d1) (?blk * 4096) (patch (byte mod 4096) [fs_bitmap fs ! byte] buf1)"
    using write_block_ok[OF assms(1) w] buf1(1) by (simp add: list_update_patch)
  also have "\<dots> = mem_write (img (fs_dev fs)) (?blk * 4096 + byte mod 4096) [fs_bitmap fs ! byte]"
    using buf1 by (simp add: mem_write_patch Suc_le_eq)
  finally have "img d' = mem_write (img (fs_dev fs)) (?blk * 4096 + byte mod 4096) [fs_bitmap fs ! byte]" .
  moreover have "?blk * 4096 + byte mod 4096 = bitmap_start (fs_sb fs) * 4096 + byte" by (simp add: algebra_simps)
  ultimately have "img d' = (img (fs_dev fs))(bitmap_start (fs_sb fs) * 4096 + byte := fs_bitmap fs ! byte)"
    by (simp only: mem_write_single)
  then show ?thesis using fs' by blast
qed

text \<open>A byte of the bitmap that is changed in memory and flushed is changed on the disk alike.\<close>

lemma synced_update:
  assumes "fs_ok img fs" and "byte < length (fs_bitmap fs)"
    and "img d' = (img (fs_dev fs))(bitmap_start (fs_sb fs) * 4096 + byte := v)"
  shows "fs_ok img (fs\<lparr>fs_bitmap := (fs_bitmap fs)[byte := v], fs_dev := d'\<rparr>)"
  using assms by (auto simp: fs_ok_def synced_def nth_list_update)

lemma alloc_data_block_ok:
  assumes "disk_laws D img" and "fs_ok img fs" and "alloc_data_block D fs = Some (Inr nb, fs')"
  shows "\<exists>i d'. nb = data_start (fs_sb fs) + i \<and> nb < total_blocks (fs_sb fs) \<and> \<not> bit_at (fs_bitmap fs) i \<and>
    (\<forall>k < i. bit_at (fs_bitmap fs) k) \<and> i div 8 < length (fs_bitmap fs) \<and>
    fs' = fs\<lparr>fs_bitmap := set_bit_at (fs_bitmap fs) i, fs_dev := d'\<rparr> \<and> fs_ok img fs' \<and>
    img d' = (img (fs_dev fs))(bitmap_start (fs_sb fs) * 4096 + i div 8 := set_bit_at (fs_bitmap fs) i ! (i div 8))"
proof -
  let ?sb = "fs_sb fs" and ?bm = "fs_bitmap fs"
  have "\<exists>i fs1. data_start ?sb \<le> total_blocks ?sb \<and> find_clear ?bm 0 (total_blocks ?sb - data_start ?sb) = Some (Some i) \<and>
      flush_bitmap_byte D (i div 8) (fs\<lparr>fs_bitmap := set_bit_at ?bm i\<rparr>) = Some (Inr (), fs1) \<and>
      nb = data_start ?sb + i \<and> fs' = fs1"
    using assms(3) by (auto simp: alloc_data_block_def Let_def ok_simps checked_simps set_bit_at_def bind_eq_Some_conv
        split: option.splits)
  then obtain i where i: "data_start ?sb \<le> total_blocks ?sb"
      "find_clear ?bm 0 (total_blocks ?sb - data_start ?sb) = Some (Some i)"
      "flush_bitmap_byte D (i div 8) (fs\<lparr>fs_bitmap := set_bit_at ?bm i\<rparr>) = Some (Inr (), fs')" "nb = data_start ?sb + i"
    by blast
  note f = find_clear_ok[OF i(2), simplified]
  obtain d' where d': "fs' = fs\<lparr>fs_bitmap := set_bit_at ?bm i, fs_dev := d'\<rparr>"
      "img d' = (img (fs_dev fs))(bitmap_start ?sb * 4096 + i div 8 := set_bit_at ?bm i ! (i div 8))"
    using flush_ok[OF assms(1) i(3)] by auto
  have "fs_ok img fs'"
    using synced_update[OF assms(2), of "i div 8" d' "set_bit_at ?bm i ! (i div 8)"] f d'
    by (simp add: set_bit_at_def)
  then show ?thesis using f i d' by (intro exI[of _ i] exI[of _ d']) auto
qed

section \<open>What an operation on one inode leaves alone\<close>

text \<open>Blocks that belong neither to the bitmap nor to the inode at hand, and are not free.\<close>

definition protected :: "'d FsInner \<Rightarrow> RawInode \<Rightarrow> nat \<Rightarrow> bool" where
  "protected fs raw b \<longleftrightarrow>
     (b < data_start (fs_sb fs) \<and> \<not> (bitmap_start (fs_sb fs) \<le> b \<and> b < bitmap_start (fs_sb fs) + bitmap_blocks (fs_sb fs)))
     \<or> (used fs b \<and> b \<notin> set (direct raw))"

definition ext :: "('d \<Rightarrow> memory) \<Rightarrow> 'd FsInner \<times> RawInode \<Rightarrow> 'd FsInner \<times> RawInode \<Rightarrow> bool" where
  "ext img p q \<longleftrightarrow>
     (case p of (fs, raw) \<Rightarrow> case q of (fs', raw') \<Rightarrow>
        fs_sb fs' = fs_sb fs \<and> fs_states fs' = fs_states fs \<and> inode_cache fs' = inode_cache fs \<and>
        fs_ok img fs' \<and> inode_ok fs' raw' \<and>
        (\<forall>b. protected fs raw b \<longrightarrow> protected fs' raw' b \<and>
           (\<forall>a. a div 4096 = b \<longrightarrow> img (fs_dev fs') a = img (fs_dev fs) a)))"

lemma ext_refl: "fs_ok img fs \<Longrightarrow> inode_ok fs raw \<Longrightarrow> ext img (fs, raw) (fs, raw)"
  by (simp add: ext_def)

lemma ext_trans: "ext img p q \<Longrightarrow> ext img q r \<Longrightarrow> ext img p r"
  unfolding ext_def by (cases p; cases q; cases r) (clarsimp; metis)

definition file_same :: "('d \<Rightarrow> memory) \<Rightarrow> 'd FsInner \<times> RawInode \<Rightarrow> 'd FsInner \<times> RawInode \<Rightarrow> bool" where
  "file_same img p q \<longleftrightarrow>
     (\<forall>k < 12 * 4096. file_byte (img (fs_dev (fst q))) (snd q) k = file_byte (img (fs_dev (fst p))) (snd p) k)"

lemma file_same_refl: "file_same img p p"
  by (simp add: file_same_def)

lemma file_same_trans: "file_same img p q \<Longrightarrow> file_same img q r \<Longrightarrow> file_same img p r"
  by (simp add: file_same_def)

lemma geo_bounds:
  assumes "geo_ok sb"
  shows "0 < data_start sb" and "j < bitmap_blocks sb * 4096 \<Longrightarrow> bitmap_start sb \<le> (bitmap_start sb * 4096 + j) div 4096"
    and "j < bitmap_blocks sb * 4096 \<Longrightarrow> (bitmap_start sb * 4096 + j) div 4096 < bitmap_start sb + bitmap_blocks sb"
    and "bitmap_start sb + bitmap_blocks sb \<le> data_start sb"
proof -
  show "0 < data_start sb" "bitmap_start sb + bitmap_blocks sb \<le> data_start sb" using assms by (auto simp: geo_ok_def)
  have d: "(bitmap_start sb * 4096 + j) div 4096 = bitmap_start sb + j div 4096" by simp
  show "bitmap_start sb \<le> (bitmap_start sb * 4096 + j) div 4096" unfolding d by simp
  assume "j < bitmap_blocks sb * 4096"
  then have "j div 4096 < bitmap_blocks sb" by (simp add: less_mult_imp_div_less)
  then show "(bitmap_start sb * 4096 + j) div 4096 < bitmap_start sb + bitmap_blocks sb" unfolding d by simp
qed

text \<open>A fresh block that is zeroed and given to the inode for a hole changes no byte of it.\<close>

lemma fresh_block_ok:
  assumes laws: "disk_laws D img" and ok: "fs_ok img fs" and ino: "inode_ok fs raw" and hole: "direct raw ! i = 0" "i < 12"
    and a: "alloc_data_block D fs = Some (Inr nb, fs1)"
    and w: "write_block D nb (replicate 4096 0) (fs_dev fs1) = Some (Inr u, d2)"
  defines "q \<equiv> (fs1\<lparr>fs_dev := d2\<rparr>, raw\<lparr>direct := (direct raw)[i := nb]\<rparr>)"
  shows "ext img (fs, raw) q" and "file_same img (fs, raw) q" and "nb \<noteq> 0"
proof -
  let ?sb = "fs_sb fs" and ?bm = "fs_bitmap fs"
  obtain j d1 where j: "nb = data_start ?sb + j" "nb < total_blocks ?sb" "\<not> bit_at ?bm j" "j div 8 < length ?bm"
      and fs1: "fs1 = fs\<lparr>fs_bitmap := set_bit_at ?bm j, fs_dev := d1\<rparr>" "fs_ok img fs1"
      and m1: "img d1 = (img (fs_dev fs))(bitmap_start ?sb * 4096 + j div 8 := set_bit_at ?bm j ! (j div 8))"
    using alloc_data_block_ok[OF laws ok a] by blast
  have geo: "geo_ok ?sb" and len: "length ?bm = bitmap_blocks ?sb * 4096" using ok by (simp_all add: fs_ok_def)
  note g = geo_bounds[OF geo]
  have dir: "direct_ok raw" using ino by (simp add: inode_ok_def)
  have j8: "j < 8 * length ?bm" using j(4) by (simp add: div_less_iff_less_mult mult.commute)
  have fresh: "\<not> used fs nb" using j by (simp add: used_def)
  then have notin: "nb \<notin> set (direct raw)" using ino g(1) j(1) by (auto simp: inode_ok_def)
  show nz: "nb \<noteq> 0" using j(1) g(1) by simp
  have used: "used (fs1\<lparr>fs_dev := d2\<rparr>) b \<longleftrightarrow> used fs b \<or> b = nb" for b
    using j j8 by (auto simp: used_def fs1(1))
  have m2: "img d2 = mem_write (img d1) (nb * 4096) (replicate 4096 0)"
    using write_block_ok[OF laws w] by (simp add: fs1(1))
  have other: "img d2 x = img (fs_dev fs) x"
    if "x div 4096 \<noteq> nb" "\<not> (bitmap_start ?sb \<le> x div 4096 \<and> x div 4096 < bitmap_start ?sb + bitmap_blocks ?sb)" for x
    using that mem_write_other_block[of 0 "replicate 4096 0" x nb "img d1"] g(2)[of "j div 8"] g(3)[of "j div 8"] j(4) len
    by (auto simp: m2 m1)
  have zero: "img d2 x = 0" if "x div 4096 = nb" for x
  proof -
    have "x = nb * 4096 + x mod 4096" using that by (metis div_mult_mod_eq)
    then show ?thesis using mem_write_inside[of "x mod 4096" "replicate 4096 0" "img d1" "nb * 4096"] by (simp add: m2)
  qed
  have "synced img (fs1\<lparr>fs_dev := d2\<rparr>)"
  proof -
    have "img d2 (bitmap_start ?sb * 4096 + k) = img d1 (bitmap_start ?sb * 4096 + k)" if "k < length ?bm" for k
      using mem_write_other_block[of 0 "replicate 4096 0" "bitmap_start ?sb * 4096 + k" nb "img d1"] g(3)[of k] g(4) that len j(1)
      by (simp add: m2)
    then show ?thesis using fs1 by (simp add: fs_ok_def synced_def)
  qed
  then have ok2: "fs_ok img (fs1\<lparr>fs_dev := d2\<rparr>)" using fs1 by (simp add: fs_ok_def)
  have dir2: "direct_ok (raw\<lparr>direct := (direct raw)[i := nb]\<rparr>)"
    using dir notin hole(2) by (auto simp: direct_ok_def nth_list_update in_set_conv_nth)
  have "inode_ok (fs1\<lparr>fs_dev := d2\<rparr>) (raw\<lparr>direct := (direct raw)[i := nb]\<rparr>)"
    using dir2 ino used set_update_subset_insert[of "direct raw" i nb] by (auto simp: inode_ok_def)
  moreover have "protected (fs1\<lparr>fs_dev := d2\<rparr>) (raw\<lparr>direct := (direct raw)[i := nb]\<rparr>) b" if "protected fs raw b" for b
    using that used fresh set_update_subset_insert[of "direct raw" i nb] by (auto simp: protected_def fs1(1))
  moreover have "img d2 x = img (fs_dev fs) x" if "protected fs raw (x div 4096)" for x
    using that fresh g(4) j(1) by (intro other) (auto simp: protected_def used_def)
  ultimately show "ext img (fs, raw) q" using ok2 by (auto simp: ext_def q_def fs1(1))
  have "file_byte (img d2) (raw\<lparr>direct := (direct raw)[i := nb]\<rparr>) k = file_byte (img (fs_dev fs)) raw k" if "k < 12 * 4096" for k
  proof (cases "k div 4096 = i")
    case True
    have "img d2 (nb * 4096 + k mod 4096) = 0" by (rule zero) simp
    then show ?thesis using True hole dir nz by (simp add: file_byte_def Let_def direct_ok_def)
  next
    case False
    let ?b = "direct raw ! (k div 4096)"
    have "k div 4096 < length (direct raw)" using that dir by (simp add: direct_ok_def)
    then have bin: "?b \<in> set (direct raw)" by simp
    have "img d2 (?b * 4096 + k mod 4096) = img (fs_dev fs) (?b * 4096 + k mod 4096)" if "?b \<noteq> 0"
      using that bin ino fresh g(4) by (intro other) (auto simp: inode_ok_def used_def)
    then show ?thesis using False by (simp add: file_byte_def Let_def)
  qed
  then show "file_same img (fs, raw) q" by (simp add: file_same_def q_def)
qed

section \<open>Writing a file\<close>

lemma alloc_missing_ok:
  assumes laws: "disk_laws D img"
  shows "fs_ok img fs \<Longrightarrow> inode_ok fs raw \<Longrightarrow> i + n \<le> 12 \<Longrightarrow> alloc_missing D i n (fs, raw) = Some (Inr u, (fs', raw')) \<Longrightarrow>
    ext img (fs, raw) (fs', raw') \<and> file_same img (fs, raw) (fs', raw') \<and>
    (\<forall>j. i \<le> j \<and> j < i + n \<longrightarrow> direct raw' ! j \<noteq> 0) \<and>
    (\<forall>j. direct raw ! j \<noteq> 0 \<longrightarrow> direct raw' ! j = direct raw ! j) \<and> raw'\<lparr>direct := direct raw\<rparr> = raw"
proof (induction n arbitrary: i fs raw)
  case 0
  then show ?case by (auto simp: io_simps ext_refl file_same_refl)
next
  case (Suc n)
  have i12: "i < 12" "length (direct raw) = 12" using Suc.prems(2,3) by (auto simp: inode_ok_def direct_ok_def)
  then have at: "direct_at raw i = Some (direct raw ! i)" by (simp add: direct_at_def)
  show ?case
  proof (cases "direct raw ! i = 0")
    case False
    then have run: "alloc_missing D (i + 1) n (fs, raw) = Some (Inr u, (fs', raw'))"
      using Suc.prems(4) at by (simp add: io_bind_def io_check_def)
    have le: "i + 1 + n \<le> 12" using Suc.prems(3) by simp
    note IH = Suc.IH[OF Suc.prems(1,2) le run]
    have "direct raw' ! j \<noteq> 0" if "i \<le> j \<and> j < i + Suc n" for j
      using that IH False by (cases "j = i") auto
    then show ?thesis using IH by blast
  next
    case True
    have "\<exists>nb fs1 d2. alloc_data_block D fs = Some (Inr nb, fs1) \<and>
        write_block D nb (replicate 4096 0) (fs_dev fs1) = Some (Inr (), d2) \<and>
        alloc_missing D (i + 1) n (fs1\<lparr>fs_dev := d2\<rparr>, raw\<lparr>direct := (direct raw)[i := nb]\<rparr>) = Some (Inr u, (fs', raw'))"
      using Suc.prems(4) at True by (auto simp: ok_simps BLOCK_SIZE_def)
    then obtain nb fs1 d2 where r: "alloc_data_block D fs = Some (Inr nb, fs1)"
        "write_block D nb (replicate 4096 0) (fs_dev fs1) = Some (Inr (), d2)"
        "alloc_missing D (i + 1) n (fs1\<lparr>fs_dev := d2\<rparr>, raw\<lparr>direct := (direct raw)[i := nb]\<rparr>) = Some (Inr u, (fs', raw'))"
      by blast
    note f = fresh_block_ok[OF laws Suc.prems(1,2) True i12(1) r(1,2)]
    have ok2: "fs_ok img (fs1\<lparr>fs_dev := d2\<rparr>)" "inode_ok (fs1\<lparr>fs_dev := d2\<rparr>) (raw\<lparr>direct := (direct raw)[i := nb]\<rparr>)"
      using f(1) by (simp_all add: ext_def)
    have le: "i + 1 + n \<le> 12" using Suc.prems(3) by simp
    note IH = Suc.IH[OF ok2 le r(3)]
    have keep: "direct raw' ! j = direct raw ! j" if "direct raw ! j \<noteq> 0" for j
    proof -
      have "(direct raw)[i := nb] ! j = direct raw ! j" using that True by (metis nth_list_update_neq)
      then show ?thesis using IH that by auto
    qed
    have i': "direct raw' ! i \<noteq> 0" using IH f(3) i12 by auto
    have "direct raw' ! j \<noteq> 0" if "i \<le> j \<and> j < i + Suc n" for j
      using that IH i' by (cases "j = i") auto
    moreover have "raw'\<lparr>direct := direct raw\<rparr> = raw" using IH by (cases raw; cases raw') simp
    ultimately show ?thesis using IH f keep ext_trans file_same_trans by blast
  qed
qed

text \<open>The loop that copies the bytes changes the blocks of the inode only.\<close>

lemma write_loop_ext:
  assumes laws: "disk_laws D img" and ok: "fs_ok img fs" and ino: "inode_ok fs raw"
    and frame: "\<And>a. a div 4096 \<notin> set (direct raw) - {0} \<Longrightarrow> img d' a = img (fs_dev fs) a"
  shows "ext img (fs, raw) (fs\<lparr>fs_dev := d'\<rparr>, raw)"
proof -
  have geo: "geo_ok (fs_sb fs)" and len: "length (fs_bitmap fs) = bitmap_blocks (fs_sb fs) * 4096"
    using ok by (simp_all add: fs_ok_def)
  note g = geo_bounds[OF geo]
  have low: "img d' a = img (fs_dev fs) a" if "a div 4096 < data_start (fs_sb fs)" for a
    using that ino by (intro frame) (auto simp: inode_ok_def used_def)
  have "synced img (fs\<lparr>fs_dev := d'\<rparr>)"
    unfolding synced_def using ok g(3,4) len
    by (auto simp: fs_ok_def synced_def intro!: trans[OF low] less_le_trans[OF g(3) g(4)])
  then have "fs_ok img (fs\<lparr>fs_dev := d'\<rparr>)" using ok by (simp add: fs_ok_def)
  moreover have "inode_ok (fs\<lparr>fs_dev := d'\<rparr>) raw" using ino by (simp add: inode_ok_def used_def)
  moreover have "protected (fs\<lparr>fs_dev := d'\<rparr>) raw b" if "protected fs raw b" for b
    using that by (simp add: protected_def used_def)
  moreover have "img d' a = img (fs_dev fs) a" if "protected fs raw (a div 4096)" for a
    using that low frame by (auto simp: protected_def)
  ultimately show ?thesis by (auto simp: ext_def)
qed

lemma inode_ok_fields: "direct raw' = direct raw \<Longrightarrow> inode_ok fs raw' = inode_ok fs raw"
  by (simp add: inode_ok_def direct_ok_def)

lemma protected_fields: "direct raw' = direct raw \<Longrightarrow> protected fs raw' = protected fs raw"
  by (simp add: protected_def fun_eq_iff)

lemma ext_fields: "ext img p (fs', raw') \<Longrightarrow> direct raw'' = direct raw' \<Longrightarrow> ext img p (fs', raw'')"
  using inode_ok_fields[of raw'' raw' fs'] protected_fields[of raw'' raw' fs'] by (cases p) (simp add: ext_def)

lemma ext_fields': "ext img (fs, raw) q \<Longrightarrow> direct raw'' = direct raw \<Longrightarrow> ext img (fs, raw'') q"
  using protected_fields[of raw'' raw fs] by (cases q) (simp add: ext_def)

lemma write_file_at_ok:
  assumes laws: "disk_laws D img" and ok: "fs_ok img fs" and ino: "inode_ok fs raw"
    and run: "write_file_at D off bs (fs, raw) = Some (Inr n, (fs', raw'))"
  shows "n = length bs" and "off + length bs \<le> 12 * 4096" and "ext img (fs, raw) (fs', raw')"
    and "ri_size raw' = max (ri_size raw) (off + length bs)" and "ri_kind raw' = ri_kind raw"
    and "\<And>k. k < 12 * 4096 \<Longrightarrow> file_byte (img (fs_dev fs')) raw' k =
      (if off \<le> k \<and> k < off + length bs then bs ! (k - off) else file_byte (img (fs_dev fs)) raw k)"
    and "\<And>k. k < off + length bs \<Longrightarrow> direct raw' ! (k div 4096) \<noteq> 0"
    and "raw'\<lparr>direct := direct raw, ri_size := ri_size raw\<rparr> = raw"
proof -
  let ?nb = "div_ceil (off + length bs) 4096"
  have "\<exists>fs1 raw1 d2. \<not> 12 < ?nb \<and> n = length bs \<and> alloc_missing D 0 ?nb (fs, raw) = Some (Inr (), (fs1, raw1)) \<and>
      write_loop D raw1 off bs (fs_dev fs1) = Some (Inr (), d2) \<and> fs' = fs1\<lparr>fs_dev := d2\<rparr> \<and>
      raw' = (if ri_size raw1 < off + length bs then raw1\<lparr>ri_size := off + length bs\<rparr> else raw1)"
    using run by (auto simp: write_file_at_def ok_simps checked_simps BLOCK_SIZE_def DIRECT_BLOCKS_def split: if_splits)
  then obtain fs1 raw1 d2 where r: "\<not> 12 < ?nb" "n = length bs" "alloc_missing D 0 ?nb (fs, raw) = Some (Inr (), (fs1, raw1))"
      "write_loop D raw1 off bs (fs_dev fs1) = Some (Inr (), d2)" "fs' = fs1\<lparr>fs_dev := d2\<rparr>"
      and raw': "raw' = (if ri_size raw1 < off + length bs then raw1\<lparr>ri_size := off + length bs\<rparr> else raw1)" by blast
  have le: "0 + ?nb \<le> 12" using r(1) by simp
  note A = alloc_missing_ok[OF laws ok ino le r(3)]
  have A1: "fs_ok img fs1" "inode_ok fs1 raw1" using A by (simp_all add: ext_def)
  have dir: "direct_ok raw1" using A1(2) by (simp add: inode_ok_def)
  have top: "off + length bs \<le> 12 * 4096"
    using div_ceil_bound[of 4096 "off + length bs"] r(1) by linarith
  show "off + length bs \<le> 12 * 4096" by (rule top)
  show "n = length bs" by (rule r(2))
  have alloc: "direct raw1 ! (k div 4096) \<noteq> 0" if "k < off + length bs" for k
  proof -
    have "k div 4096 * 4096 < off + length bs" using that by (metis div_times_less_eq_dividend le_less_trans)
    then have "k div 4096 < ?nb" by (simp add: less_div_ceil_iff)
    then show ?thesis using A by simp
  qed
  have W: "(\<forall>k < 12 * 4096. file_byte (img d2) raw1 k = (if off \<le> k \<and> k < off + length bs then bs ! (k - off) else file_byte (img (fs_dev fs1)) raw1 k))
      \<and> (\<forall>a. a div 4096 \<notin> set (direct raw1) - {0} \<longrightarrow> img d2 a = img (fs_dev fs1) a)"
    by (rule write_loop_ok[OF laws dir r(4)]) (use alloc top in auto)
  have "ext img (fs1, raw1) (fs', raw1)" unfolding r(5) by (rule write_loop_ext[OF laws A1]) (use W in blast)
  then have "ext img (fs, raw) (fs', raw1)" using A ext_trans by blast
  moreover have d': "direct raw' = direct raw1" unfolding raw' by simp
  ultimately show "ext img (fs, raw) (fs', raw')" using ext_fields by blast
  have raw1: "raw1\<lparr>direct := direct raw\<rparr> = raw" using A by blast
  have sz: "ri_size raw1 = ri_size raw" "ri_kind raw1 = ri_kind raw" 
    using arg_cong[OF raw1, of ri_size] arg_cong[OF raw1, of ri_kind] by simp_all
  show "ri_size raw' = max (ri_size raw) (off + length bs)" "ri_kind raw' = ri_kind raw" unfolding raw' using sz by auto
  show "file_byte (img (fs_dev fs')) raw' k =
      (if off \<le> k \<and> k < off + length bs then bs ! (k - off) else file_byte (img (fs_dev fs)) raw k)" if k: "k < 12 * 4096" for k
  proof -
    have "file_byte (img (fs_dev fs1)) raw1 k = file_byte (img (fs_dev fs)) raw k"
      using A k by (simp add: file_same_def)
    moreover have "file_byte m raw' k = file_byte m raw1 k" for m by (simp add: file_byte_def d')
    ultimately show ?thesis using W k by (simp add: r(5))
  qed
  show "direct raw' ! (k div 4096) \<noteq> 0" if "k < off + length bs" for k using alloc[OF that] d' by simp
  show "raw'\<lparr>direct := direct raw, ri_size := ri_size raw\<rparr> = raw"
    using raw1 sz(1) unfolding raw' by (cases raw; cases raw1) auto
qed

end
