(* ===== verification/Pondfs_Files.thy ===== *)
theory Pondfs_Files
  imports Pondfs_Alloc
begin

text \<open>
  The inode operations of PondFS: writing a file touches no other file and is recorded in the inode table;
  creating a name adds exactly one entry to the directory, which a lookup then finds; unlinking never succeeds.
\<close>

section \<open>The inode table\<close>

definition inode_addr :: "Superblock \<Rightarrow> nat \<Rightarrow> nat" where
  "inode_addr sb ino = inode_table_start sb * 4096 + ino * 128"

definition disk_inode :: "('d \<Rightarrow> memory) \<Rightarrow> 'd FsInner \<Rightarrow> nat \<Rightarrow> RawInode" where
  "disk_inode img fs ino = decode_inode (mem_read (img (fs_dev fs)) (inode_addr (fs_sb fs) ino) 128)"

lemma inode_slot: "(s + ino div 32) * 4096 + ino mod 32 * 128 = s * 4096 + ino * (128 :: nat)"
proof -
  have "ino = ino div 32 * 32 + ino mod 32" by simp
  then have "ino * 128 = ino div 32 * 4096 + ino mod 32 * 128" by linarith
  then show ?thesis by (simp add: algebra_simps)
qed

lemma slot_in_block: "ino mod 32 * 128 + 128 \<le> (4096 :: nat)"
proof -
  have "ino mod 32 < 32" by simp
  then have "ino mod 32 \<le> 31" by linarith
  then show ?thesis by simp
qed

lemma write_inode_ok:
  assumes "disk_laws D img" and "length (direct raw) = 12" and "write_inode D ino raw fs = Some (Inr u, fs')"
  shows "\<exists>d'. fs' = fs\<lparr>fs_dev := d'\<rparr> \<and> img d' = mem_write (img (fs_dev fs)) (inode_addr (fs_sb fs) ino) (encode_inode raw)"
proof -
  let ?blk = "inode_table_start (fs_sb fs) + ino div 32"
  have "\<exists>buf1 d1 d'. read_block D ?blk (fs_dev fs) = Some (Inr buf1, d1) \<and>
      write_block D ?blk (patch (ino mod 32 * 128) (encode_inode raw) buf1) d1 = Some (Inr u, d') \<and> fs' = fs\<lparr>fs_dev := d'\<rparr>"
    using assms(3) by (auto simp: write_inode_def ok_simps checked_simps INODES_PER_BLOCK_def BLOCK_SIZE_def INODE_SIZE_def)
  then obtain buf1 d1 d' where r: "read_block D ?blk (fs_dev fs) = Some (Inr buf1, d1)"
      "write_block D ?blk (patch (ino mod 32 * 128) (encode_inode raw) buf1) d1 = Some (Inr u, d')" "fs' = fs\<lparr>fs_dev := d'\<rparr>" by blast
  have len: "length (encode_inode raw) = 128"
    using length_encode_inode[of raw] assms(2) by (simp add: DIRECT_BLOCKS_def INODE_SIZE_def)
  have "img d' = mem_write (img (fs_dev fs)) (?blk * 4096 + ino mod 32 * 128) (encode_inode raw)"
    using write_block_ok[OF assms(1) r(2)] read_block_ok[OF assms(1) r(1)] mem_write_patch slot_in_block[of ino] len by simp
  then show ?thesis using r(3) unfolding inode_slot inode_addr_def by blast
qed

lemma inode_addr_block:
  assumes "geo_ok sb" and "ino < inode_table_blocks sb * 32" and "inode_addr sb ino \<le> a" and "a < inode_addr sb ino + 128"
  shows "inode_table_start sb \<le> a div 4096" and "a div 4096 < inode_table_start sb + inode_table_blocks sb"
proof -
  have "a < (inode_table_start sb + inode_table_blocks sb) * 4096" using assms(2,4) by (simp add: inode_addr_def)
  then show "a div 4096 < inode_table_start sb + inode_table_blocks sb" by (simp add: less_mult_imp_div_less)
  have "inode_table_start sb * 4096 \<le> a" using assms(3) by (simp add: inode_addr_def)
  then show "inode_table_start sb \<le> a div 4096" by (simp add: less_eq_div_iff_mult_less_eq)
qed

text \<open>Writing an inode changes bytes of the inode table only.\<close>

lemma write_inode_frame:
  assumes laws: "disk_laws D img" and len: "length (direct raw) = 12" and run: "write_inode D ino raw fs = Some (Inr u, fs')"
    and ok: "fs_ok img fs" and ino: "ino < inode_table_blocks (fs_sb fs) * 32"
  shows "fs' = fs\<lparr>fs_dev := fs_dev fs'\<rparr>" and "fs_ok img fs'" and "inode_ok fs' r = inode_ok fs r"
    and "protected fs' r b = protected fs r b"
    and "inode_ok fs r \<Longrightarrow> k < 12 * 4096 \<Longrightarrow> file_byte (img (fs_dev fs')) r k = file_byte (img (fs_dev fs)) r k"
    and "data_start (fs_sb fs) \<le> a div 4096 \<Longrightarrow> img (fs_dev fs') a = img (fs_dev fs) a"
    and "inode_bounded raw \<Longrightarrow> disk_inode img fs' ino = raw"
proof -
  obtain d' where d': "fs' = fs\<lparr>fs_dev := d'\<rparr>" "img d' = mem_write (img (fs_dev fs)) (inode_addr (fs_sb fs) ino) (encode_inode raw)"
    using write_inode_ok[OF laws len run] by blast
  have geo: "geo_ok (fs_sb fs)" using ok by (simp add: fs_ok_def)
  have el: "length (encode_inode raw) = 128"
    using length_encode_inode[of raw] len by (simp add: DIRECT_BLOCKS_def INODE_SIZE_def)
  show "fs' = fs\<lparr>fs_dev := fs_dev fs'\<rparr>" using d'(1) by simp
  have out: "img d' x = img (fs_dev fs) x"
    if "x div 4096 < inode_table_start (fs_sb fs) \<or> inode_table_start (fs_sb fs) + inode_table_blocks (fs_sb fs) \<le> x div 4096" for x
    unfolding d'(2) using that inode_addr_block[OF geo ino, of x] el by (intro mem_write_outside) linarith
  have high: "img d' x = img (fs_dev fs) x" if "data_start (fs_sb fs) \<le> x div 4096" for x
    using that geo by (intro out) (auto simp: geo_ok_def)
  show "data_start (fs_sb fs) \<le> a div 4096 \<Longrightarrow> img (fs_dev fs') a = img (fs_dev fs) a" using high d'(1) by simp
  show "fs_ok img fs'"
  proof -
    have "img d' (bitmap_start (fs_sb fs) * 4096 + j) = img (fs_dev fs) (bitmap_start (fs_sb fs) * 4096 + j)"
      if "j < length (fs_bitmap fs)" for j
      using that geo_bounds(3)[OF geo, of j] geo ok by (intro out) (auto simp: fs_ok_def geo_ok_def)
    then show ?thesis using ok d'(1) by (simp add: fs_ok_def synced_def)
  qed
  show "inode_ok fs' r = inode_ok fs r" "protected fs' r b = protected fs r b"
    using d'(1) by (simp_all add: inode_ok_def used_def protected_def)
  show "file_byte (img (fs_dev fs')) r k = file_byte (img (fs_dev fs)) r k" if "inode_ok fs r" "k < 12 * 4096"
  proof -
    have "direct r ! (k div 4096) \<in> set (direct r)" using that by (simp add: inode_ok_def direct_ok_def)
    then have "img d' (direct r ! (k div 4096) * 4096 + k mod 4096) = img (fs_dev fs) (direct r ! (k div 4096) * 4096 + k mod 4096)"
      if "direct r ! (k div 4096) \<noteq> 0" using that \<open>inode_ok fs r\<close> by (intro high) (auto simp: inode_ok_def used_def)
    then show ?thesis using d'(1) by (simp add: file_byte_def Let_def)
  qed
  show "disk_inode img fs' ino = raw" if "inode_bounded raw"
    using d' that mem_read_write_same[of "img (fs_dev fs)" "inode_addr (fs_sb fs) ino" "encode_inode raw"] el
    by (simp add: disk_inode_def inode_roundtrip)
qed

section \<open>Writing a file\<close>

lemma with_raw_Inr:
  "with_raw i m fs = Some (Inr a, fs') \<longleftrightarrow>
     (\<exists>fs1 raw1. m (fs, raw_of i fs) = Some (Inr a, (fs1, raw1)) \<and>
        fs' = fs1\<lparr>fs_states := (fs_states fs1)[i := (fs_states fs1 ! i)\<lparr>st_raw := raw1\<rparr>]\<rparr>)"
  by (auto simp: with_raw_def)

text \<open>The list of inode states plays no part in what the disk holds.\<close>

lemma states_irrelevant [simp]:
  "fs_ok img (fs\<lparr>fs_states := ss\<rparr>) = fs_ok img fs" "inode_ok (fs\<lparr>fs_states := ss\<rparr>) r = inode_ok fs r"
  "used (fs\<lparr>fs_states := ss\<rparr>) b = used fs b" "disk_inode img (fs\<lparr>fs_states := ss\<rparr>) k = disk_inode img fs k"
  by (simp_all add: fs_ok_def synced_def inode_ok_def used_def disk_inode_def)

lemma cache_irrelevant [simp]:
  "fs_ok img (fs\<lparr>inode_cache := c\<rparr>) = fs_ok img fs" "inode_ok (fs\<lparr>inode_cache := c\<rparr>) r = inode_ok fs r"
  by (simp_all add: fs_ok_def synced_def inode_ok_def used_def)

text \<open>An inode that shares no block with the one at hand keeps its bytes.\<close>

lemma ext_other_file:
  assumes e: "ext img (fs, raw) (fs', raw')" and ok: "fs_ok img fs" and o: "inode_ok fs r" and dis: "set (direct r) \<inter> set (direct raw) \<subseteq> {0}"
  shows "inode_ok fs' r" and "set (direct r) \<inter> set (direct raw') \<subseteq> {0}"
    and "k < 12 * 4096 \<Longrightarrow> file_byte (img (fs_dev fs')) r k = file_byte (img (fs_dev fs)) r k"
proof -
  have sb: "fs_sb fs' = fs_sb fs" using e by (simp add: ext_def)
  have prot: "protected fs raw b" "data_start (fs_sb fs) \<le> b" if "b \<in> set (direct r)" "b \<noteq> 0" for b
    using that o dis by (auto simp: inode_ok_def protected_def used_def)
  have prot': "used fs' b \<and> b \<notin> set (direct raw')" if "b \<in> set (direct r)" "b \<noteq> 0" for b
  proof -
    have "protected fs' raw' b" using e prot(1)[OF that] by (simp add: ext_def)
    then show ?thesis using prot(2)[OF that] sb by (simp add: protected_def)
  qed
  show "inode_ok fs' r" using o prot' by (simp add: inode_ok_def)
  show "set (direct r) \<inter> set (direct raw') \<subseteq> {0}" using prot' by blast
  assume k: "k < 12 * 4096"
  have bin: "direct r ! (k div 4096) \<in> set (direct r)" using o k by (simp add: inode_ok_def direct_ok_def)
  have "img (fs_dev fs') (direct r ! (k div 4096) * 4096 + k mod 4096) = img (fs_dev fs) (direct r ! (k div 4096) * 4096 + k mod 4096)"
    if "direct r ! (k div 4096) \<noteq> 0"
  proof -
    have "(direct r ! (k div 4096) * 4096 + k mod 4096) div 4096 = direct r ! (k div 4096)" by simp
    then show ?thesis using e prot(1)[OF bin that] by (simp add: ext_def)
  qed
  then show "file_byte (img (fs_dev fs')) r k = file_byte (img (fs_dev fs)) r k" by (simp add: file_byte_def Let_def)
qed

lemma bounded_after_write:
  assumes "inode_bounded raw" and "inode_ok fs raw'" and "fs_ok img fs" and "ri_size raw' < 2 ^ 64"
    and "raw'\<lparr>direct := direct raw, ri_size := ri_size raw\<rparr> = raw"
  shows "inode_bounded raw'"
proof -
  have f: "ri_kind raw' = ri_kind raw" "ri_pad0 raw' = ri_pad0 raw" "link_count raw' = link_count raw"
      "ri_mtime raw' = ri_mtime raw" "ri_pad1 raw' = ri_pad1 raw"
    using arg_cong[OF assms(5), of ri_kind] arg_cong[OF assms(5), of ri_pad0] arg_cong[OF assms(5), of link_count]
      arg_cong[OF assms(5), of ri_mtime] arg_cong[OF assms(5), of ri_pad1] by simp_all
  have "b < 2 ^ 64" if "b \<in> set (direct raw')" for b
  proof (cases "b = 0")
    case False
    then have "b < total_blocks (fs_sb fs)" using that assms(2) by (auto simp: inode_ok_def used_def)
    then show ?thesis using assms(3) by (simp add: fs_ok_def geo_ok_def)
  qed simp
  then show ?thesis using assms(1,2,4) f by (simp add: inode_bounded_def inode_ok_def direct_ok_def DIRECT_BLOCKS_def)
qed

lemma read_back_bytes:
  assumes "\<And>k. k < 12 * 4096 \<Longrightarrow> file_byte m raw k = (if off \<le> k \<and> k < off + length bs then bs ! (k - off) else g k)"
    and "off + length bs \<le> 12 * 4096" and "off + length bs \<le> ri_size raw"
  shows "map (file_byte m raw) [off..<min (ri_size raw) (off + length bs)] = bs"
proof (rule nth_equalityI)
  have mn: "min (ri_size raw) (off + length bs) = off + length bs" using assms(3) by simp
  show "length (map (file_byte m raw) [off..<min (ri_size raw) (off + length bs)]) = length bs" unfolding mn by simp
  fix k assume "k < length (map (file_byte m raw) [off..<min (ri_size raw) (off + length bs)])"
  then show "map (file_byte m raw) [off..<min (ri_size raw) (off + length bs)] ! k = bs ! k"
    using assms(1)[of "off + k"] assms(2) unfolding mn by simp
qed

lemma pond_write_at_parts:
  assumes laws: "disk_laws D img" and ok: "fs_ok img fs" and i: "i < length (fs_states fs)"
    and ino: "inode_ok fs (raw_of i fs)" and slot: "st_ino (fs_states fs ! i) < inode_table_blocks (fs_sb fs) * 32"
    and run: "pond_write_at D i off bs fs = Some (Inr n, fs')"
  obtains fs1 raw1 where "write_file_at D off bs (fs, raw_of i fs) = Some (Inr n, (fs1, raw1))"
    and "raw_of i fs' = raw1" and "fs_ok img fs'" and "\<And>r. inode_ok fs' r = inode_ok fs1 r"
    and "\<And>r k. inode_ok fs1 r \<Longrightarrow> k < 12 * 4096 \<Longrightarrow> file_byte (img (fs_dev fs')) r k = file_byte (img (fs_dev fs1)) r k"
    and "inode_bounded raw1 \<Longrightarrow> disk_inode img fs' (st_ino (fs_states fs ! i)) = raw1"
    and "ri_kind (raw_of i fs) = INODE_KIND_FILE"
proof -
  let ?ino = "st_ino (fs_states fs ! i)"
  have kind: "ri_kind (raw_of i fs) = INODE_KIND_FILE"
    using run by (auto simp: pond_write_at_def io_simps split: if_splits)
  have "\<exists>fs1 raw1 fs2. write_file_at D off bs (fs, raw_of i fs) = Some (Inr n, (fs1, raw1)) \<and>
      write_inode D ?ino raw1 fs1 = Some (Inr (), fs2) \<and>
      fs' = fs2\<lparr>fs_states := (fs_states fs2)[i := (fs_states fs2 ! i)\<lparr>st_raw := raw1\<rparr>]\<rparr>"
    using run kind by (auto simp: pond_write_at_def with_raw_Inr ok_simps)
  then obtain fs1 raw1 fs2 where r: "write_file_at D off bs (fs, raw_of i fs) = Some (Inr n, (fs1, raw1))"
      "write_inode D ?ino raw1 fs1 = Some (Inr (), fs2)"
      and fs': "fs' = fs2\<lparr>fs_states := (fs_states fs2)[i := (fs_states fs2 ! i)\<lparr>st_raw := raw1\<rparr>]\<rparr>" by blast
  note e = write_file_at_ok(3)[OF laws ok ino r(1)]
  have ok1: "fs_ok img fs1" "inode_ok fs1 raw1" "fs_sb fs1 = fs_sb fs" "fs_states fs1 = fs_states fs"
    using e by (simp_all add: ext_def)
  have len: "length (direct raw1) = 12" using ok1(2) by (simp add: inode_ok_def direct_ok_def)
  note w = write_inode_frame[OF laws len r(2) ok1(1)] and s1 = slot[folded ok1(3)]
  have "fs_states fs2 = fs_states fs" using arg_cong[OF w(1)[OF s1], of fs_states] ok1(4) by simp
  then have raw: "raw_of i fs' = raw1" using i by (simp add: fs' raw_of_def)
  show thesis
    by (rule that[OF r(1) raw _ _ _ _ kind]) (use w s1 in \<open>simp_all add: fs'\<close>)
qed

lemma pond_write_at_correct_facts:
  assumes laws: "disk_laws D img" and ok: "fs_ok img fs" and i: "i < length (fs_states fs)"
    and ino: "inode_ok fs (raw_of i fs)" "inode_bounded (raw_of i fs)"
    and slot: "st_ino (fs_states fs ! i) < inode_table_blocks (fs_sb fs) * 32"
    and run: "pond_write_at D i off bs fs = Some (Inr n, fs')"
  shows "n = length bs" and "fs_ok img fs'" and "inode_ok fs' (raw_of i fs')"
    and "pond_size i fs' = max (pond_size i fs) (off + length bs)"
    and "k < 12 * 4096 \<Longrightarrow> file_byte (img (fs_dev fs')) (raw_of i fs') k =
      (if off \<le> k \<and> k < off + length bs then bs ! (k - off) else file_byte (img (fs_dev fs)) (raw_of i fs) k)"
    and "pond_read_at D i off n fs' = Some (Inr got, fs'') \<Longrightarrow> got = bs"
    and "disk_inode img fs' (st_ino (fs_states fs ! i)) = raw_of i fs'"
    and "inode_ok fs r \<Longrightarrow> set (direct r) \<inter> set (direct (raw_of i fs)) \<subseteq> {0} \<Longrightarrow>
      inode_ok fs' r \<and> set (direct r) \<inter> set (direct (raw_of i fs')) \<subseteq> {0} \<and>
      (\<forall>k < 12 * 4096. file_byte (img (fs_dev fs')) r k = file_byte (img (fs_dev fs)) r k)"
proof -
  obtain fs1 raw1 where w: "write_file_at D off bs (fs, raw_of i fs) = Some (Inr n, (fs1, raw1))"
    and raw: "raw_of i fs' = raw1" and ok': "fs_ok img fs'" and io: "\<And>r. inode_ok fs' r = inode_ok fs1 r"
    and fb: "\<And>r k. inode_ok fs1 r \<Longrightarrow> k < 12 * 4096 \<Longrightarrow> file_byte (img (fs_dev fs')) r k = file_byte (img (fs_dev fs1)) r k"
    and di: "inode_bounded raw1 \<Longrightarrow> disk_inode img fs' (st_ino (fs_states fs ! i)) = raw1"
    and kind: "ri_kind (raw_of i fs) = INODE_KIND_FILE"
    using pond_write_at_parts[OF laws ok i ino(1) slot run] by blast
  note W = write_file_at_ok[OF laws ok ino(1) w]
  have i1: "inode_ok fs1 raw1" "fs_ok img fs1" using W(3) by (simp_all add: ext_def)
  show "n = length bs" "fs_ok img fs'" by (fact W(1) ok')+
  show "inode_ok fs' (raw_of i fs')" using i1 io raw by simp
  show "pond_size i fs' = max (pond_size i fs) (off + length bs)" using W(4) raw by (simp add: pond_size_def)
  have bytes: "file_byte (img (fs_dev fs')) raw1 k =
      (if off \<le> k \<and> k < off + length bs then bs ! (k - off) else file_byte (img (fs_dev fs)) (raw_of i fs) k)" if "k < 12 * 4096" for k
    using fb[OF i1(1) that] W(6)[OF that] by simp
  show "file_byte (img (fs_dev fs')) (raw_of i fs') k =
      (if off \<le> k \<and> k < off + length bs then bs ! (k - off) else file_byte (img (fs_dev fs)) (raw_of i fs) k)" if "k < 12 * 4096"
    using bytes[OF that] raw by simp
  have "ri_size (raw_of i fs) < 2 ^ 64" using ino(2) by (simp add: inode_bounded_def)
  then have "ri_size raw1 < 2 ^ 64" unfolding W(4) using W(2) by simp
  then have "inode_bounded raw1" by (rule bounded_after_write[OF ino(2) i1 _ W(8)])
  then show "disk_inode img fs' (st_ino (fs_states fs ! i)) = raw_of i fs'" using di raw by simp
  show "got = bs" if "pond_read_at D i off n fs' = Some (Inr got, fs'')"
  proof -
    have "ri_kind raw1 = INODE_KIND_FILE" using W(5) kind by simp
    then have "\<exists>d'. read_file_at D raw1 off n (fs_dev fs') = Some (Inr got, d')"
      using that raw by (auto simp: pond_read_at_def on_dev_Inr)
    then have "got = map (file_byte (img (fs_dev fs')) raw1) [off..<min (ri_size raw1) (off + length bs)]"
      using read_file_at_ok[OF laws] W(1) by blast
    then show ?thesis using read_back_bytes[OF bytes W(2)] W(4) by simp
  qed
  show "inode_ok fs' r \<and> set (direct r) \<inter> set (direct (raw_of i fs')) \<subseteq> {0} \<and>
      (\<forall>k < 12 * 4096. file_byte (img (fs_dev fs')) r k = file_byte (img (fs_dev fs)) r k)"
    if o: "inode_ok fs r" "set (direct r) \<inter> set (direct (raw_of i fs)) \<subseteq> {0}"
    using ext_other_file[OF W(3) ok o] io fb raw by simp
qed

text \<open>
  C28. Writing a PondFS file, on a device that stores what it is given: when \<open>write_at\<close> succeeds it has written all the
  bytes, the file then consists of its old bytes with the new ones in place and zeros in a gap, a read of the
  range returns the bytes written, the inode on the disk is the one in memory, the block bitmap on the disk
  agrees with the one in memory, and no other file has changed a byte.
\<close>

theorem pond_write_at_correct:
  assumes "disk_laws D img" and "fs_ok img fs" and "i < length (fs_states fs)"
    and "inode_ok fs (raw_of i fs)" "inode_bounded (raw_of i fs)"
    and "st_ino (fs_states fs ! i) < inode_table_blocks (fs_sb fs) * 32"
    and "pond_write_at D i off bs fs = Some (Inr n, fs')"
  shows "n = length bs \<and>
    fs_ok img fs' \<and>
    inode_ok fs' (raw_of i fs') \<and>
    pond_size i fs' = max (pond_size i fs) (off + length bs) \<and>
    (\<forall>k. (k < 12 * 4096) \<longrightarrow> (file_byte (img (fs_dev fs')) (raw_of i fs') k =
      (if off \<le> k \<and> k < off + length bs then bs ! (k - off) else file_byte (img (fs_dev fs)) (raw_of i fs) k))) \<and>
    (\<forall>got fs''. (pond_read_at D i off n fs' = Some (Inr got, fs'')) \<longrightarrow> got = bs) \<and>
    disk_inode img fs' (st_ino (fs_states fs ! i)) = raw_of i fs' \<and>
    (\<forall>r. (inode_ok fs r) \<longrightarrow> (set (direct r) \<inter> set (direct (raw_of i fs)) \<subseteq> {0}) \<longrightarrow> (inode_ok fs' r \<and> set (direct r) \<inter> set (direct (raw_of i fs')) \<subseteq> {0} \<and>
      (\<forall>k < 12 * 4096. file_byte (img (fs_dev fs')) r k = file_byte (img (fs_dev fs)) r k)))"
proof -
  note F = pond_write_at_correct_facts[OF assms]
  show ?thesis
    by (intro conjI[OF F(1)] conjI[OF F(2)] conjI[OF F(3)] conjI[OF F(4)]) (use F(5-8) in blast)
qed

section \<open>A small file system for examples\<close>

lemma read_block_ram: "b * 8 < 2 ^ 64 \<Longrightarrow> read_block ram_disk b m = Some (Inr (mem_read m (b * 4096) 4096), m)"
  by (simp add: read_block_def lbas_per_block_def ram_disk_def BLOCK_SIZE_def u64_mul_def io_map_err_def io_ok_def mult.commute)

lemma write_block_ram: "b * 8 < 2 ^ 64 \<Longrightarrow> write_block ram_disk b bs m = Some (Inr (), mem_write m (b * 4096) bs)"
  by (simp add: write_block_def lbas_per_block_def ram_disk_def BLOCK_SIZE_def u64_mul_def io_map_err_def io_ok_def mult.commute)

definition demo_sb :: Superblock where
  "demo_sb = \<lparr>sb_magic = POND_MAGIC, sb_version = 1, total_blocks = 20, inode_count = 32, bitmap_start = 1, bitmap_blocks = 1,
     inode_table_start = 2, inode_table_blocks = 1, data_start = 3\<rparr>"

definition demo_bitmap :: bytes where
  "demo_bitmap = 1 # replicate 4095 0"

definition demo_file :: RawInode where
  "demo_file = \<lparr>ri_kind = 1, ri_pad0 = 0, link_count = 1, ri_size = 0, ri_mtime = 0, ri_pad1 = 0, direct = [3, 0, 0, 0, 0, 0, 0, 0, 0, 0, 0, 0]\<rparr>"

definition demo_pond :: "memory FsInner" where
  "demo_pond = \<lparr>fs_dev = (\<lambda>_. 0)(4096 := 1), fs_sb = demo_sb, fs_bitmap = demo_bitmap, inode_cache = [2 \<mapsto> 0],
     fs_states = [\<lparr>st_ino = 2, st_raw = demo_file\<rparr>]\<rparr>"

lemma demo_pond_ok:
  "fs_ok (\<lambda>m. m) demo_pond" "raw_of 0 demo_pond = demo_file" "inode_ok demo_pond demo_file" "inode_bounded demo_file"
proof -
  have "synced (\<lambda>m. m) demo_pond"
    by (auto simp: synced_def demo_pond_def demo_sb_def demo_bitmap_def nth_Cons')
  then show "fs_ok (\<lambda>m. m) demo_pond"
    by (simp add: fs_ok_def geo_ok_def demo_pond_def demo_sb_def demo_bitmap_def)
  show "raw_of 0 demo_pond = demo_file" by (simp add: raw_of_def demo_pond_def)
  have "direct_ok demo_file"
    unfolding direct_ok_def by (auto simp: demo_file_def less_Suc_eq numeral_eq_Suc nth_Cons split: nat.splits)
  then show "inode_ok demo_pond demo_file"
    by (simp add: inode_ok_def demo_file_def used_def demo_pond_def demo_sb_def bit_at_def demo_bitmap_def)
  show "inode_bounded demo_file" by (simp add: inode_bounded_def demo_file_def DIRECT_BLOCKS_def)
qed

lemma demo_write: "\<exists>fs'. pond_write_at ram_disk 0 1 [7] demo_pond = Some (Inr 1, fs')"
proof -
  have at: "direct_at demo_file 0 = Some 3" by (simp add: direct_at_def demo_file_def)
  have a: "alloc_missing ram_disk 0 (Suc 0) (demo_pond, demo_file) = Some (Inr (), (demo_pond, demo_file))"
    by (simp add: io_bind_def io_check_def at io_ok_def)
  have stop: "write_loop ram_disk demo_file c [] m = Some (Inr (), m)" for c m
    by (simp add: write_loop.simps[of ram_disk demo_file c] io_ok_def)
  have "\<exists>m. write_loop ram_disk demo_file 1 [7] (fs_dev demo_pond) = Some (Inr (), m)"
    by (simp add: write_loop.simps[of ram_disk demo_file "Suc 0"] at BLOCK_SIZE_def io_bind_def io_check_def
        read_block_ram write_block_ram stop)
  then obtain m where m: "write_loop ram_disk demo_file 1 [7] (fs_dev demo_pond) = Some (Inr (), m)" by blast
  have w: "\<exists>fs'. write_inode ram_disk 2 r (demo_pond\<lparr>fs_dev := m\<rparr>) = Some (Inr (), fs')" for r m
    by (simp add: write_inode_def demo_pond_def demo_sb_def INODES_PER_BLOCK_def BLOCK_SIZE_def INODE_SIZE_def u64_add_def
        io_bind_def io_check_def on_dev_def read_block_ram write_block_ram)
  have sz: "ri_size demo_file = 0" "ri_kind demo_file = INODE_KIND_FILE" by (simp_all add: demo_file_def INODE_KIND_FILE_def)
  have f: "write_file_at ram_disk 1 [7] (demo_pond, demo_file) = Some (Inr 1, (demo_pond\<lparr>fs_dev := m\<rparr>, demo_file\<lparr>ri_size := 2\<rparr>))"
    using a m sz by (simp add: write_file_at_def u64_add_def div_ceil_def BLOCK_SIZE_def DIRECT_BLOCKS_def io_bind_def io_check_def
        on_fs_def on_dev_def io_modify_def io_ok_def)
  obtain fs' where fs': "write_inode ram_disk 2 (demo_file\<lparr>ri_size := 2\<rparr>) (demo_pond\<lparr>fs_dev := m\<rparr>) = Some (Inr (), fs')"
    using w by blast
  have "st_ino (fs_states demo_pond ! 0) = 2" by (simp add: demo_pond_def)
  then show ?thesis using f fs' sz demo_pond_ok(2)
    by (simp add: pond_write_at_def with_raw_def io_bind_def on_fs_def io_ok_def)
qed

theorem pond_write_at_correct_witness:
  "disk_laws ram_disk (\<lambda>m. m) \<and> fs_ok (\<lambda>m. m) demo_pond \<and> inode_ok demo_pond (raw_of 0 demo_pond) \<and>
   (\<exists>fs'. pond_write_at ram_disk 0 1 [7] demo_pond = Some (Inr 1, fs') \<and> fs_ok (\<lambda>m. m) fs' \<and> pond_size 0 fs' = 2 \<and>
     file_byte (fs_dev fs') (raw_of 0 fs') 1 = 7 \<and> disk_inode (\<lambda>m. m) fs' 2 = raw_of 0 fs')"
proof -
  obtain fs' where w: "pond_write_at ram_disk 0 1 [7] demo_pond = Some (Inr 1, fs')" using demo_write by blast
  have st: "0 < length (fs_states demo_pond)" "st_ino (fs_states demo_pond ! 0) = 2"
      "st_ino (fs_states demo_pond ! 0) < inode_table_blocks (fs_sb demo_pond) * 32"
    by (simp_all add: demo_pond_def demo_sb_def)
  have ok: "inode_ok demo_pond (raw_of 0 demo_pond)" "inode_bounded (raw_of 0 demo_pond)" using demo_pond_ok by simp_all
  note c = pond_write_at_correct[OF ram_disk_laws demo_pond_ok(1) st(1) ok st(3) w]
  have "pond_size 0 demo_pond = 0" by (simp add: pond_size_def demo_pond_ok(2) demo_file_def)
  then show ?thesis using w ok demo_pond_ok ram_disk_laws c st(2) by auto
qed

end
