(* ===== verification/Pondfs_Dirs.thy ===== *)
theory Pondfs_Dirs
  imports Pondfs_Files
begin

text \<open>
  Directories of PondFS: what the parser accepts can be written again, a directory that is rewritten holds exactly the
  entries it is given, \<open>create\<close> adds one entry and \<open>unlink\<close> never succeeds.
\<close>

section \<open>What the parser accepts\<close>

lemma field_bound: "field off n bs < 256 ^ n"
proof -
  have "le_to_nat (take n (drop off bs)) < 256 ^ length (take n (drop off bs))" by (rule le_to_nat_bound)
  also have "\<dots> \<le> 256 ^ n" by (intro power_increasing) auto
  finally show ?thesis by (simp add: field_def)
qed

lemma parse_entries_ok: "parse_entries bs i = Inr es \<Longrightarrow> list_all entry_ok es"
proof (induction bs i arbitrary: es rule: parse_entries.induct)
  case (1 bs i)
  let ?h = "decode_header (drop i bs)"
  let ?name = "take (name_len ?h) (drop (i + DIR_ENTRY_HEADER_SIZE) bs)"
  have h: "name_len ?h < 2 ^ 16" "de_inode ?h < 2 ^ 64"
    using field_bound[of 8 2] field_bound[of 0 8] by (simp_all add: decode_header_def)
  show ?case
  proof (cases "length bs < i + DIR_ENTRY_HEADER_SIZE \<or> name_len ?h = 0")
    case True
    then show ?thesis using 1(2) by (auto simp: parse_entries.simps[of bs i] Let_def split: if_splits)
  next
    case False
    then have "\<exists>kind rest. \<not> length bs < i + DIR_ENTRY_HEADER_SIZE + name_len ?h \<and> utf8_valid ?name \<and>
        kind_of_code (de_kind ?h) = Some kind \<and>
        parse_entries bs (align4 (i + DIR_ENTRY_HEADER_SIZE + name_len ?h)) = Inr rest \<and> es = (?name, kind, de_inode ?h) # rest"
      using 1(2) by (simp add: parse_entries.simps[of bs i] Let_def split: if_splits option.splits sum.splits)
    then obtain kind rest where r: "\<not> length bs < i + DIR_ENTRY_HEADER_SIZE + name_len ?h" "utf8_valid ?name"
        "kind_of_code (de_kind ?h) = Some kind"
        "parse_entries bs (align4 (i + DIR_ENTRY_HEADER_SIZE + name_len ?h)) = Inr rest" "es = (?name, kind, de_inode ?h) # rest" by blast
    have "list_all entry_ok rest" using 1(1)[OF _ refl refl refl _ _ refl _ r(3) r(4)] False r(1,2) by simp
    moreover have "entry_ok (?name, kind, de_inode ?h)" using r(1,2) False h by (auto simp: entry_ok_def)
    ultimately show ?thesis using r(5) by simp
  qed
qed

section \<open>Allocating an inode\<close>

lemma find_unused_ok:
  "find_unused b bo i n = Some ino \<Longrightarrow>
   \<exists>j. i \<le> j \<and> j < i + n \<and> ino = bo * 32 + j \<and> ino \<noteq> 0 \<and> ri_kind (decode_inode (take 128 (drop (j * 128) b))) = INODE_KIND_UNUSED"
proof (induction b bo i n rule: find_unused.induct)
  case (1 b bo i)
  then show ?case by simp
next
  case (2 b bo i n)
  show ?case
  proof (cases "bo * 32 + i \<noteq> 0 \<and> ri_kind (decode_inode (take 128 (drop (i * 128) b))) = INODE_KIND_UNUSED")
    case True
    then show ?thesis using 2(2) by (intro exI[of _ i]) (auto simp: Let_def INODES_PER_BLOCK_def BLOCK_SIZE_def INODE_SIZE_def)
  next
    case False
    then have "find_unused b bo (i + 1) n = Some ino"
      using 2(2) by (auto simp: Let_def INODES_PER_BLOCK_def BLOCK_SIZE_def INODE_SIZE_def split: if_splits)
    then obtain j where "i + 1 \<le> j \<and> j < i + 1 + n \<and> ino = bo * 32 + j \<and> ino \<noteq> 0 \<and>
        ri_kind (decode_inode (take 128 (drop (j * 128) b))) = INODE_KIND_UNUSED"
      using 2(1)[OF refl] False by (auto simp: INODES_PER_BLOCK_def BLOCK_SIZE_def INODE_SIZE_def)
    then show ?thesis by (intro exI[of _ j]) auto
  qed
qed

lemma mem_read_slice: "o' + n \<le> k \<Longrightarrow> take n (drop o' (mem_read m a k)) = mem_read m (a + o') n"
  by (rule nth_equalityI) (auto simp: add.assoc)

lemma scan_inodes_ok:
  assumes laws: "disk_laws D img"
  shows "scan_inodes D start bo n d = Some (Inr ino, d') \<Longrightarrow>
    img d' = img d \<and> ino \<noteq> 0 \<and> ino < (bo + n) * 32 \<and>
    ri_kind (decode_inode (mem_read (img d) (start * 4096 + ino * 128) 128)) = INODE_KIND_UNUSED"
proof (induction n arbitrary: bo d)
  case 0
  then show ?case by (simp add: io_simps)
next
  case (Suc n)
  have "\<exists>b d1. read_block D (start + bo) d = Some (Inr b, d1) \<and>
      (case find_unused b bo 0 32 of Some k \<Rightarrow> io_ok k | None \<Rightarrow> scan_inodes D start (bo + 1) n) d1 = Some (Inr ino, d')"
    using Suc.prems by (auto simp: ok_simps checked_simps INODES_PER_BLOCK_def BLOCK_SIZE_def INODE_SIZE_def)
  then obtain b d1 where r: "read_block D (start + bo) d = Some (Inr b, d1)"
      "(case find_unused b bo 0 32 of Some k \<Rightarrow> io_ok k | None \<Rightarrow> scan_inodes D start (bo + 1) n) d1 = Some (Inr ino, d')" by blast
  note b = read_block_ok[OF laws r(1)]
  show ?case
  proof (cases "find_unused b bo 0 32")
    case None
    then show ?thesis using Suc.IH[of "bo + 1" d1] r(2) b by simp
  next
    case (Some k)
    then have k: "k = ino" "d' = d1" using r(2) by (simp_all add: io_simps)
    obtain j where j: "j < 32" "ino = bo * 32 + j" "ino \<noteq> 0"
        "ri_kind (decode_inode (take 128 (drop (j * 128) b))) = INODE_KIND_UNUSED"
      using find_unused_ok[OF Some] k by auto
    have "take 128 (drop (j * 128) b) = mem_read (img d) (start * 4096 + ino * 128) 128"
      unfolding b(1) using j(1,2) by (subst mem_read_slice) (simp_all add: algebra_simps)
    then show ?thesis using j b(2) k by simp
  qed
qed

lemma alloc_inode_ok:
  assumes "disk_laws D img" and "alloc_inode D fs = Some (Inr ino, fs')"
  shows "\<exists>d'. fs' = fs\<lparr>fs_dev := d'\<rparr> \<and> img d' = img (fs_dev fs)" and "ino \<noteq> 0" and "ino < inode_table_blocks (fs_sb fs) * 32"
    and "ri_kind (disk_inode img fs ino) = INODE_KIND_UNUSED"
  using assms(2) scan_inodes_ok[OF assms(1)]
  by (fastforce simp: alloc_inode_def on_dev_Inr disk_inode_def inode_addr_def)+

section \<open>Rewriting a directory\<close>

lemma free_data_block_ok:
  assumes laws: "disk_laws D img" and ok: "fs_ok img fs" and run: "free_data_block D blk fs = Some (Inr u, fs')"
  shows "fs_sb fs' = fs_sb fs" and "fs_states fs' = fs_states fs" and "inode_cache fs' = inode_cache fs" and "fs_ok img fs'"
    and "used fs' b \<longleftrightarrow> used fs b \<and> b \<noteq> blk"
    and "\<not> (bitmap_start (fs_sb fs) \<le> a div 4096 \<and> a div 4096 < bitmap_start (fs_sb fs) + bitmap_blocks (fs_sb fs)) \<Longrightarrow>
      img (fs_dev fs') a = img (fs_dev fs) a"
proof -
  let ?sb = "fs_sb fs" and ?bm = "fs_bitmap fs" and ?i = "blk - data_start (fs_sb fs)"
  have r: "data_start ?sb \<le> blk" "?i div 8 < length ?bm"
      "flush_bitmap_byte D (?i div 8) (fs\<lparr>fs_bitmap := clear_bit_at ?bm ?i\<rparr>) = Some (Inr u, fs')"
    using run by (auto simp: free_data_block_def Let_def io_simps clear_bit_at_def split: if_splits)
  obtain d' where d': "fs' = fs\<lparr>fs_bitmap := clear_bit_at ?bm ?i, fs_dev := d'\<rparr>"
      "img d' = (img (fs_dev fs))(bitmap_start ?sb * 4096 + ?i div 8 := clear_bit_at ?bm ?i ! (?i div 8))"
    using flush_ok[OF laws r(3)] by auto
  show "fs_sb fs' = fs_sb fs" "fs_states fs' = fs_states fs" "inode_cache fs' = inode_cache fs" using d'(1) by simp_all
  show "fs_ok img fs'"
    using synced_update[OF ok r(2), of d' "clear_bit_at ?bm ?i ! (?i div 8)"] d' r(2) by (simp add: clear_bit_at_def)
  have "?i < 8 * length ?bm" using r(2) by (simp add: div_less_iff_less_mult mult.commute)
  then show "used fs' b \<longleftrightarrow> used fs b \<and> b \<noteq> blk" using d'(1) r(1) by (auto simp: used_def)
  have geo: "geo_ok ?sb" and len: "length ?bm = bitmap_blocks ?sb * 4096" using ok by (simp_all add: fs_ok_def)
  show "img (fs_dev fs') a = img (fs_dev fs) a"
    if "\<not> (bitmap_start ?sb \<le> a div 4096 \<and> a div 4096 < bitmap_start ?sb + bitmap_blocks ?sb)"
    using that geo_bounds(2,3)[OF geo, of "?i div 8"] r(2) len d' by auto
qed

lemma direct_ok_clear:
  assumes "direct_ok raw"
  shows "direct_ok (raw\<lparr>direct := (direct raw)[i := 0]\<rparr>)"
proof -
  have len: "length (direct raw) = 12" using assms by (simp add: direct_ok_def)
  have "(direct raw)[i := 0] ! x = direct raw ! x" if "(direct raw)[i := 0] ! x \<noteq> 0" "x < 12" for x
    using that len by (cases "x = i") auto
  then have "x = y" if "x < 12" "y < 12" "(direct raw)[i := 0] ! x = (direct raw)[i := 0] ! y" "(direct raw)[i := 0] ! x \<noteq> 0" for x y
    using that assms unfolding direct_ok_def by metis
  then show ?thesis using len unfolding direct_ok_def by simp
qed

lemma free_step_ext:
  assumes laws: "disk_laws D img" and ok: "fs_ok img fs" and ino: "inode_ok fs raw" and i: "i < 12"
    and run: "free_data_block D (direct raw ! i) fs = Some (Inr u, fs')"
  shows "ext img (fs, raw) (fs', raw\<lparr>direct := (direct raw)[i := 0]\<rparr>)"
proof -
  let ?b = "direct raw ! i" and ?raw = "raw\<lparr>direct := (direct raw)[i := 0]\<rparr>"
  note f = free_data_block_ok[OF laws ok run]
  have dir: "direct_ok raw" and len: "length (direct raw) = 12" using ino by (simp_all add: inode_ok_def direct_ok_def)
  have bin: "?b \<in> set (direct raw)" using i len by simp
  have sub: "set (direct ?raw) \<subseteq> insert 0 (set (direct raw))" by (simp add: set_update_subset_insert)
  have ne: "c \<noteq> ?b" if c: "c \<in> set (direct ?raw)" "c \<noteq> 0" for c
  proof -
    obtain j where j: "j < 12" "c = (direct raw)[i := 0] ! j" using c(1) len by (auto simp: in_set_conv_nth)
    have "j \<noteq> i" using j c(2) i len by auto
    then have "c = direct raw ! j" using j by simp
    then show ?thesis using \<open>j \<noteq> i\<close> dir j(1) i c(2) unfolding direct_ok_def by metis
  qed
  have "direct_ok ?raw" by (rule direct_ok_clear[OF dir])
  then have "inode_ok fs' ?raw" using ino sub ne f(5) unfolding inode_ok_def by fastforce
  moreover have "protected fs' ?raw b" if "protected fs raw b" for b
  proof (cases "b < data_start (fs_sb fs)")
    case True
    then show ?thesis using that by (auto simp: protected_def f(1) used_def)
  next
    case False
    then have "used fs b" "b \<notin> set (direct raw)" using that by (auto simp: protected_def)
    moreover have "b \<noteq> 0" using False ok by (auto simp: fs_ok_def geo_ok_def)
    ultimately show ?thesis using sub bin f(5) by (auto simp: protected_def)
  qed
  moreover have "img (fs_dev fs') a = img (fs_dev fs) a" if "protected fs raw (a div 4096)" for a
    using that ok by (intro f(6)) (auto simp: protected_def used_def fs_ok_def geo_ok_def)
  ultimately show ?thesis using f(1-4) by (auto simp: ext_def)
qed

lemma free_excess_ok:
  assumes laws: "disk_laws D img"
  shows "fs_ok img fs \<Longrightarrow> inode_ok fs raw \<Longrightarrow> i + n \<le> 12 \<Longrightarrow> free_excess D i n (fs, raw) = Some (Inr u, (fs', raw')) \<Longrightarrow>
    ext img (fs, raw) (fs', raw') \<and> raw'\<lparr>direct := direct raw\<rparr> = raw"
proof (induction n arbitrary: i fs raw)
  case 0
  then show ?case by (auto simp: io_simps ext_refl)
next
  case (Suc n)
  have i12: "i < 12" "length (direct raw) = 12" using Suc.prems(2,3) by (auto simp: inode_ok_def direct_ok_def)
  then have at: "direct_at raw i = Some (direct raw ! i)" by (simp add: direct_at_def)
  have le: "i + 1 + n \<le> 12" using Suc.prems(3) by simp
  show ?case
  proof (cases "direct raw ! i = 0")
    case True
    then have run: "free_excess D (i + 1) n (fs, raw) = Some (Inr u, (fs', raw'))"
      using Suc.prems(4) at by (simp add: io_bind_def io_check_def)
    show ?thesis by (rule Suc.IH[OF Suc.prems(1,2) le run])
  next
    case False
    have "\<exists>fs1. free_data_block D (direct raw ! i) fs = Some (Inr (), fs1) \<and>
        free_excess D (i + 1) n (fs1, raw\<lparr>direct := (direct raw)[i := 0]\<rparr>) = Some (Inr u, (fs', raw'))"
      using Suc.prems(4) at False by (auto simp: ok_simps)
    then obtain fs1 where r: "free_data_block D (direct raw ! i) fs = Some (Inr (), fs1)"
        "free_excess D (i + 1) n (fs1, raw\<lparr>direct := (direct raw)[i := 0]\<rparr>) = Some (Inr u, (fs', raw'))" by blast
    note e = free_step_ext[OF laws Suc.prems(1,2) i12(1) r(1)]
    have ok: "fs_ok img fs1" "inode_ok fs1 (raw\<lparr>direct := (direct raw)[i := 0]\<rparr>)" using e by (simp_all add: ext_def)
    have IH: "ext img (fs1, raw\<lparr>direct := (direct raw)[i := 0]\<rparr>) (fs', raw') \<and>
        raw'\<lparr>direct := (direct raw)[i := 0]\<rparr> = raw\<lparr>direct := (direct raw)[i := 0]\<rparr>"
      using Suc.IH[OF ok le r(2)] by simp
    then have "raw'\<lparr>direct := direct raw\<rparr> = raw" by (cases raw; cases raw') simp
    then show ?thesis using IH e ext_trans by blast
  qed
qed

lemma dir_write_ok:
  assumes laws: "disk_laws D img" and ok: "fs_ok img fs" and ino: "inode_ok fs raw"
    and run: "dir_write_entries D es (fs, raw) = Some (Inr u, (fs', raw'))"
  shows "ext img (fs, raw) (fs', raw')" and "ri_size raw' = length (serialize_entries es)" and "ri_kind raw' = ri_kind raw"
    and "length (serialize_entries es) \<le> 12 * 4096"
    and "map (file_byte (img (fs_dev fs')) raw') [0..<ri_size raw'] = serialize_entries es"
proof -
  let ?bs = "serialize_entries es"
  let ?new = "div_ceil (length ?bs) 4096" and ?old = "min (div_ceil (ri_size raw) 4096) 12"
  have "\<exists>fs1 raw1 k fs2 raw2. free_excess D ?new (?old - ?new) (fs, raw) = Some (Inr (), (fs1, raw1)) \<and>
      write_file_at D 0 ?bs (fs1, raw1\<lparr>ri_size := 0\<rparr>) = Some (Inr k, (fs2, raw2)) \<and>
      fs' = fs2 \<and> raw' = raw2\<lparr>ri_size := length ?bs\<rparr>"
    using run by (auto simp: dir_write_entries_def Let_def ok_simps BLOCK_SIZE_def DIRECT_BLOCKS_def)
  then obtain fs1 raw1 k raw2 where r: "free_excess D ?new (?old - ?new) (fs, raw) = Some (Inr (), (fs1, raw1))"
      "write_file_at D 0 ?bs (fs1, raw1\<lparr>ri_size := 0\<rparr>) = Some (Inr k, (fs', raw2))"
      and raw': "raw' = raw2\<lparr>ri_size := length ?bs\<rparr>" by blast
  have F: "ext img (fs, raw) (fs1, raw1) \<and> raw1\<lparr>direct := direct raw\<rparr> = raw"
  proof (cases "?new \<le> ?old")
    case True
    then have le: "?new + (?old - ?new) \<le> 12" by simp
    show ?thesis by (rule free_excess_ok[OF laws ok ino le r(1)])
  next
    case False
    then have "?old - ?new = 0" by linarith
    then show ?thesis using r(1) ext_refl[OF ok ino] by (auto simp: io_simps)
  qed
  have ok1: "fs_ok img fs1" "inode_ok fs1 (raw1\<lparr>ri_size := 0\<rparr>)"
    using F inode_ok_fields[of "raw1\<lparr>ri_size := 0\<rparr>" raw1 fs1] by (simp_all add: ext_def)
  note W = write_file_at_ok[OF laws ok1 r(2)]
  have "ext img (fs1, raw1) (fs', raw2)" by (rule ext_fields'[OF W(3)]) simp
  then have "ext img (fs, raw) (fs', raw2)" using F ext_trans by blast
  then show "ext img (fs, raw) (fs', raw')" by (rule ext_fields) (simp add: raw')
  show sz: "ri_size raw' = length ?bs" unfolding raw' by simp
  have "ri_kind (raw1\<lparr>direct := direct raw\<rparr>) = ri_kind raw" using F by metis
  then have "ri_kind raw1 = ri_kind raw" by simp
  then show "ri_kind raw' = ri_kind raw" unfolding raw' using W(5) by simp
  show "length ?bs \<le> 12 * 4096" using W(2) by simp
  have fb: "file_byte m raw' = file_byte m raw2" for m by (simp add: file_byte_def raw' fun_eq_iff)
  show "map (file_byte (img (fs_dev fs')) raw') [0..<ri_size raw'] = ?bs"
    using W(2) W(6) by (intro nth_equalityI) (auto simp: fb sz)
qed

section \<open>Creating a name\<close>

definition dir_entries :: "('d \<Rightarrow> memory) \<Rightarrow> 'd FsInner \<Rightarrow> RawInode \<Rightarrow> FsError + entry list" where
  "dir_entries img fs raw = parse_entries (map (file_byte (img (fs_dev fs)) raw) [0..<ri_size raw]) 0"

lemma dir_read_ok:
  assumes "disk_laws D img" and "dir_read_entries D raw d = Some (Inr es, d')"
  shows "parse_entries (map (file_byte (img d) raw) [0..<ri_size raw]) 0 = Inr es" and "img d' = img d"
proof -
  have "\<exists>bs d1. read_file_at D raw 0 (ri_size raw) d = Some (Inr bs, d1) \<and>
      (case parse_entries bs 0 of Inl e \<Rightarrow> io_err e | Inr es \<Rightarrow> io_ok es) d1 = Some (Inr es, d')"
    using assms(2) by (simp add: dir_read_entries_def io_bind_Inr_iff)
  then obtain bs d1 where b: "read_file_at D raw 0 (ri_size raw) d = Some (Inr bs, d1)"
      "(case parse_entries bs 0 of Inl e \<Rightarrow> io_err e | Inr es \<Rightarrow> io_ok es) d1 = Some (Inr es, d')" by blast
  then have bs: "read_file_at D raw 0 (ri_size raw) d = Some (Inr bs, d')" "parse_entries bs 0 = Inr es"
    by (cases "parse_entries bs 0"; simp add: io_simps)+
  show "parse_entries (map (file_byte (img d) raw) [0..<ri_size raw]) 0 = Inr es" "img d' = img d"
    using read_file_at_ok[OF assms(1) bs(1)] bs(2) by simp_all
qed

lemma dev_same:
  assumes "img d' = img (fs_dev fs)"
  shows "fs_ok img (fs\<lparr>fs_dev := d'\<rparr>) = fs_ok img fs" and "inode_ok (fs\<lparr>fs_dev := d'\<rparr>) r = inode_ok fs r"
    and "disk_inode img (fs\<lparr>fs_dev := d'\<rparr>) n = disk_inode img fs n"
  using assms by (simp_all add: fs_ok_def synced_def inode_ok_def used_def disk_inode_def)

lemma find_entry_None: "find_entry name es = None \<longleftrightarrow> name \<notin> fst ` set es"
  by (force simp: find_entry_def find_None_iff)

lemma find_entry_last: "name \<notin> fst ` set es \<Longrightarrow> find_entry name (es @ [(name, kind, ino)]) = Some (name, kind, ino)"
  by (induction es) (auto simp: find_entry_def)

lemma new_raw_direct [simp]: "length (direct (new_raw kind)) = 12"
  by (simp add: new_raw_def DIRECT_BLOCKS_def)

text \<open>The steps of \<open>create\<close>.\<close>

lemma create_parts:
  assumes "create_locked D pino name kind (fs, raw) = Some (Inr j, (fs', raw'))"
  obtains es d1 ino fs2 fs3 fs4 fs5 where "dir_read_entries D raw (fs_dev fs) = Some (Inr es, d1)" and "find_entry name es = None"
    and "alloc_inode D (fs\<lparr>fs_dev := d1\<rparr>) = Some (Inr ino, fs2)" and "write_inode D ino (new_raw kind) fs2 = Some (Inr (), fs3)"
    and "dir_write_entries D (es @ [(name, kind, ino)]) (fs3, raw) = Some (Inr (), (fs4, raw'))"
    and "write_inode D pino raw' fs4 = Some (Inr (), fs5)" and "cache_state ino (new_raw kind) fs5 = Some (Inr j, fs')"
    and "ri_kind raw = INODE_KIND_DIR"
proof -
  have "ri_kind raw = INODE_KIND_DIR" using assms by (auto simp: create_locked_def io_simps split: if_splits)
  moreover have "\<exists>es d1 ino fs2 fs3 fs4 fs5. dir_read_entries D raw (fs_dev fs) = Some (Inr es, d1) \<and> find_entry name es = None \<and>
      alloc_inode D (fs\<lparr>fs_dev := d1\<rparr>) = Some (Inr ino, fs2) \<and> write_inode D ino (new_raw kind) fs2 = Some (Inr (), fs3) \<and>
      dir_write_entries D (es @ [(name, kind, ino)]) (fs3, raw) = Some (Inr (), (fs4, raw')) \<and>
      write_inode D pino raw' fs4 = Some (Inr (), fs5) \<and> cache_state ino (new_raw kind) fs5 = Some (Inr j, fs')"
    using assms calculation by (auto simp: create_locked_def ok_simps split: if_splits) (metis not_None_eq prod_cases3)
  ultimately show thesis using that by blast
qed

lemma ext_dir_entries_low:
  assumes "ext img (fs, raw) (fs', raw')"
  shows "fs_ok img fs'" and "inode_ok fs' raw'" and "fs_sb fs' = fs_sb fs" and "fs_states fs' = fs_states fs" and "inode_cache fs' = inode_cache fs"
  using assms by (simp_all add: ext_def)

lemma create_locked_ok:
  assumes laws: "disk_laws D img" and ok: "fs_ok img fs" and ino: "inode_ok fs raw"
    and slot: "pino < inode_table_blocks (fs_sb fs) * 32" and name: "name \<noteq> []" "length name < 2 ^ 16" "utf8_valid name"
    and run: "create_locked D pino name kind (fs, raw) = Some (Inr j, (fs', raw'))"
  shows "\<exists>es ino. dir_entries img fs raw = Inr es \<and> name \<notin> fst ` set es \<and>
      dir_entries img fs' raw' = Inr (es @ [(name, kind, ino)]) \<and> ri_kind (disk_inode img fs ino) = INODE_KIND_UNUSED \<and>
      inode_cache fs' = (inode_cache fs)(ino \<mapsto> j) \<and> j = length (fs_states fs) \<and>
      fs_states fs' = fs_states fs @ [\<lparr>st_ino = ino, st_raw = new_raw kind\<rparr>]"
    and "fs_ok img fs'" and "inode_ok fs' raw'" and "ri_kind raw' = INODE_KIND_DIR"
    and "inode_ok fs r \<Longrightarrow> set (direct r) \<inter> set (direct raw) \<subseteq> {0} \<Longrightarrow>
      inode_ok fs' r \<and> (\<forall>k < 12 * 4096. file_byte (img (fs_dev fs')) r k = file_byte (img (fs_dev fs)) r k)"
proof -
  obtain es d1 n fs2 fs3 fs4 fs5 where rd: "dir_read_entries D raw (fs_dev fs) = Some (Inr es, d1)" "find_entry name es = None"
    and al: "alloc_inode D (fs\<lparr>fs_dev := d1\<rparr>) = Some (Inr n, fs2)" and w1: "write_inode D n (new_raw kind) fs2 = Some (Inr (), fs3)"
    and dw: "dir_write_entries D (es @ [(name, kind, n)]) (fs3, raw) = Some (Inr (), (fs4, raw'))"
    and w2: "write_inode D pino raw' fs4 = Some (Inr (), fs5)" and cs: "cache_state n (new_raw kind) fs5 = Some (Inr j, fs')"
    and kind: "ri_kind raw = INODE_KIND_DIR"
    using create_parts[OF run] by metis
  note R = dir_read_ok[OF laws rd(1)]
  note A = alloc_inode_ok[OF laws al]
  obtain d2 where fs2: "fs2 = fs\<lparr>fs_dev := d2\<rparr>" "img d2 = img (fs_dev fs)" using A(1) R(2) by auto
  have n: "n < inode_table_blocks (fs_sb fs) * 32" using A(3) by simp
  have ok2: "fs_ok img fs2" "fs_sb fs2 = fs_sb fs" and io2: "inode_ok fs2 r = inode_ok fs r" for r
    using dev_same[of img d2 fs] fs2 ok by simp_all
  note W1 = write_inode_frame[OF laws new_raw_direct w1 ok2(1), unfolded ok2(2), OF n]
  have fs3: "fs_sb fs3 = fs_sb fs" "fs_states fs3 = fs_states fs" "inode_cache fs3 = inode_cache fs"
    using arg_cong[OF W1(1), of fs_sb] arg_cong[OF W1(1), of fs_states] arg_cong[OF W1(1), of inode_cache] fs2(1) by simp_all
  have io3: "inode_ok fs3 r = inode_ok fs r" for r using W1(3) io2 by simp
  note DW = dir_write_ok[OF laws W1(2) io3[THEN iffD2, OF ino] dw]
  note E = ext_dir_entries_low[OF DW(1)]
  have len: "length (direct raw') = 12" using E(2) by (simp add: inode_ok_def direct_ok_def)
  have slot4: "pino < inode_table_blocks (fs_sb fs4) * 32" using slot E(3) fs3 by simp
  note W2 = write_inode_frame[OF laws len w2 E(1) slot4]
  have fs5: "fs_states fs5 = fs_states fs" "inode_cache fs5 = inode_cache fs"
    using arg_cong[OF W2(1), of fs_states] arg_cong[OF W2(1), of inode_cache] E fs3 by simp_all
  have fs': "j = length (fs_states fs)" "fs' = fs5\<lparr>fs_states := fs_states fs @ [\<lparr>st_ino = n, st_raw = new_raw kind\<rparr>],
      inode_cache := (inode_cache fs)(n \<mapsto> j)\<rparr>"
    using cs fs5 by (auto simp: cache_state_def io_simps)
  show "fs_ok img fs'" "inode_ok fs' raw'" using W2(2,3) E(2) fs'(2) by simp_all
  show "ri_kind raw' = INODE_KIND_DIR" using DW(3) kind by simp
  have "list_all entry_ok (es @ [(name, kind, n)])"
    using parse_entries_ok[OF R(1)] name n ok by (auto simp: entry_ok_def fs_ok_def geo_ok_def)
  then have ps: "parse_entries (serialize_entries (es @ [(name, kind, n)])) 0 = Inr (es @ [(name, kind, n)])"
    using parse_serialize[of _ "[]"] by simp
  have "map (file_byte (img (fs_dev fs5)) raw') [0..<ri_size raw'] = map (file_byte (img (fs_dev fs4)) raw') [0..<ri_size raw']"
    using W2(5)[OF E(2)] DW(2,4) by simp
  then have "dir_entries img fs' raw' = Inr (es @ [(name, kind, n)])"
    using DW(5) ps fs'(2) by (simp add: dir_entries_def)
  moreover have "ri_kind (disk_inode img fs n) = INODE_KIND_UNUSED"
    using A(4) R(2) dev_same(3)[of img d1 fs] by simp
  ultimately show "\<exists>es ino. dir_entries img fs raw = Inr es \<and> name \<notin> fst ` set es \<and>
      dir_entries img fs' raw' = Inr (es @ [(name, kind, ino)]) \<and> ri_kind (disk_inode img fs ino) = INODE_KIND_UNUSED \<and>
      inode_cache fs' = (inode_cache fs)(ino \<mapsto> j) \<and> j = length (fs_states fs) \<and>
      fs_states fs' = fs_states fs @ [\<lparr>st_ino = ino, st_raw = new_raw kind\<rparr>]"
    using R(1) rd(2) fs' by (auto simp: dir_entries_def find_entry_None)
  show "inode_ok fs' r \<and> (\<forall>k < 12 * 4096. file_byte (img (fs_dev fs')) r k = file_byte (img (fs_dev fs)) r k)"
    if r: "inode_ok fs r" "set (direct r) \<inter> set (direct raw) \<subseteq> {0}"
  proof -
    note X = ext_other_file[OF DW(1) W1(2) io3[THEN iffD2, OF r(1)] r(2)]
    show ?thesis using X W2(3,5) W1(5) io2 r fs2 fs'(2) by simp
  qed
qed

lemma pond_create_correct_facts:
  assumes laws: "disk_laws D img" and ok: "fs_ok img fs" and i: "i < length (fs_states fs)"
    and ino: "inode_ok fs (raw_of i fs)" and slot: "st_ino (fs_states fs ! i) < inode_table_blocks (fs_sb fs) * 32"
    and name: "name \<noteq> []" "length name < 2 ^ 16" "utf8_valid name"
    and run: "pond_create D i name kind fs = Some (Inr j, fs')"
  shows "\<exists>es n. dir_entries img fs (raw_of i fs) = Inr es \<and> name \<notin> fst ` set es \<and>
      dir_entries img fs' (raw_of i fs') = Inr (es @ [(name, kind, n)]) \<and>
      ri_kind (disk_inode img fs n) = INODE_KIND_UNUSED \<and> inode_cache fs' n = Some j \<and>
      fs_states fs' ! j = \<lparr>st_ino = n, st_raw = new_raw kind\<rparr>"
    and "fs_ok img fs'" and "inode_ok fs' (raw_of i fs')" and "pond_kind j fs' = kind" and "pond_size j fs' = 0"
    and "pond_lookup D i name fs' = Some (Inr k, fs'') \<Longrightarrow> k = j"
    and "inode_ok fs r \<Longrightarrow> set (direct r) \<inter> set (direct (raw_of i fs)) \<subseteq> {0} \<Longrightarrow>
      inode_ok fs' r \<and> (\<forall>k < 12 * 4096. file_byte (img (fs_dev fs')) r k = file_byte (img (fs_dev fs)) r k)"
proof -
  let ?pino = "st_ino (fs_states fs ! i)"
  obtain fs1 raw1 where r: "create_locked D ?pino name kind (fs, raw_of i fs) = Some (Inr j, (fs1, raw1))"
      and fs': "fs' = fs1\<lparr>fs_states := (fs_states fs1)[i := (fs_states fs1 ! i)\<lparr>st_raw := raw1\<rparr>]\<rparr>"
    using run by (auto simp: pond_create_def with_raw_Inr)
  note C = create_locked_ok[OF laws ok ino slot name r]
  obtain es n where c: "dir_entries img fs (raw_of i fs) = Inr es" "name \<notin> fst ` set es"
      "dir_entries img fs1 raw1 = Inr (es @ [(name, kind, n)])" "ri_kind (disk_inode img fs n) = INODE_KIND_UNUSED"
      "inode_cache fs1 = (inode_cache fs)(n \<mapsto> j)" "j = length (fs_states fs)"
      "fs_states fs1 = fs_states fs @ [\<lparr>st_ino = n, st_raw = new_raw kind\<rparr>]" using C(1) by blast
  have raw: "raw_of i fs' = raw1" using i c(7) by (simp add: raw_of_def fs' nth_append)
  have de: "dir_entries img fs' raw1 = Inr (es @ [(name, kind, n)])" using c(3) by (simp add: dir_entries_def fs')
  have st: "fs_states fs' ! j = \<lparr>st_ino = n, st_raw = new_raw kind\<rparr>" and ca: "inode_cache fs' n = Some j"
    using i c(5-7) by (simp_all add: fs' nth_append)
  show "\<exists>es n. dir_entries img fs (raw_of i fs) = Inr es \<and> name \<notin> fst ` set es \<and>
      dir_entries img fs' (raw_of i fs') = Inr (es @ [(name, kind, n)]) \<and>
      ri_kind (disk_inode img fs n) = INODE_KIND_UNUSED \<and> inode_cache fs' n = Some j \<and>
      fs_states fs' ! j = \<lparr>st_ino = n, st_raw = new_raw kind\<rparr>"
    using c(1,2,4) de st ca raw by auto
  show "fs_ok img fs'" "inode_ok fs' (raw_of i fs')" using C(2,3) raw by (simp_all add: fs')
  show "pond_kind j fs' = kind" "pond_size j fs' = 0"
    using st by (cases kind; simp add: pond_kind_def pond_size_def raw_of_def new_raw_def code_of_kind_def
        INODE_KIND_DIR_def INODE_KIND_FILE_def)+
  show "k = j" if l: "pond_lookup D i name fs' = Some (Inr k, fs'')"
  proof -
    obtain es' d' where e: "dir_read_entries D raw1 (fs_dev fs') = Some (Inr es', d')"
        "(case find_entry name es' of Some (_, _, ino) \<Rightarrow> get_or_load D False ino | None \<Rightarrow> io_err NotFound) (fs'\<lparr>fs_dev := d'\<rparr>)
          = Some (Inr k, fs'')"
      using l raw C(4) by (auto simp: pond_lookup_def ok_simps)
    have "es' = es @ [(name, kind, n)]" using dir_read_ok(1)[OF laws e(1)] de by (simp add: dir_entries_def)
    then have "find_entry name es' = Some (name, kind, n)" using find_entry_last[OF c(2)] by simp
    then show ?thesis using e(2) ca by (simp add: get_or_load_def io_simps)
  qed
  show "inode_ok fs' r \<and> (\<forall>k < 12 * 4096. file_byte (img (fs_dev fs')) r k = file_byte (img (fs_dev fs)) r k)"
    if "inode_ok fs r" "set (direct r) \<inter> set (direct (raw_of i fs)) \<subseteq> {0}" for r
    using C(5)[OF that] by (simp add: fs')
qed

text \<open>
  C29. Creating a name in a PondFS directory, on a device that stores what it is given: when \<open>create\<close> succeeds, the name was
  not there, the directory now reads as its old entries followed by the new one, the inode number
  was unused on the disk, the returned handle is the cached state of that number and holds an empty inode of the kind
  asked for, a lookup of the name can only return that handle, and no file outside the directory has changed.
\<close>

theorem pond_create_correct:
  assumes "disk_laws D img" and "fs_ok img fs" and "i < length (fs_states fs)"
    and "inode_ok fs (raw_of i fs)" and "st_ino (fs_states fs ! i) < inode_table_blocks (fs_sb fs) * 32"
    and "name \<noteq> []" "length name < 2 ^ 16" "utf8_valid name"
    and "pond_create D i name kind fs = Some (Inr j, fs')"
  shows "(\<exists>es n. dir_entries img fs (raw_of i fs) = Inr es \<and> name \<notin> fst ` set es \<and>
      dir_entries img fs' (raw_of i fs') = Inr (es @ [(name, kind, n)]) \<and>
      ri_kind (disk_inode img fs n) = INODE_KIND_UNUSED \<and> inode_cache fs' n = Some j \<and>
      fs_states fs' ! j = \<lparr>st_ino = n, st_raw = new_raw kind\<rparr>) \<and>
    fs_ok img fs' \<and>
    inode_ok fs' (raw_of i fs') \<and>
    pond_kind j fs' = kind \<and>
    pond_size j fs' = 0 \<and>
    (\<forall>k fs''. (pond_lookup D i name fs' = Some (Inr k, fs'')) \<longrightarrow> k = j) \<and>
    (\<forall>r. (inode_ok fs r) \<longrightarrow> (set (direct r) \<inter> set (direct (raw_of i fs)) \<subseteq> {0}) \<longrightarrow> (inode_ok fs' r \<and> (\<forall>k < 12 * 4096. file_byte (img (fs_dev fs')) r k = file_byte (img (fs_dev fs)) r k)))"
proof -
  note F = pond_create_correct_facts[OF assms]
  show ?thesis
    by (intro conjI[OF F(1)] conjI[OF F(2)] conjI[OF F(3)] conjI[OF F(4)] conjI[OF F(5)]) (use F(6,7) in blast)
qed

definition demo_dir :: RawInode where
  "demo_dir = demo_file\<lparr>ri_kind := 2\<rparr>"

definition demo_dpond :: "memory FsInner" where
  "demo_dpond = demo_pond\<lparr>fs_states := [\<lparr>st_ino = 2, st_raw = demo_dir\<rparr>]\<rparr>"

lemma demo_dpond_ok: "fs_ok (\<lambda>m. m) demo_dpond" "raw_of 0 demo_dpond = demo_dir" "inode_ok demo_dpond demo_dir"
proof -
  show "fs_ok (\<lambda>m. m) demo_dpond" using demo_pond_ok(1) by (simp add: demo_dpond_def)
  show "raw_of 0 demo_dpond = demo_dir" by (simp add: raw_of_def demo_dpond_def)
  have "inode_ok demo_pond demo_dir"
    using demo_pond_ok(3) inode_ok_fields[of demo_dir demo_file demo_pond] by (simp add: demo_dir_def)
  then show "inode_ok demo_dpond demo_dir" by (simp add: demo_dpond_def)
qed

lemma demo_dir_fields:
  "direct_at demo_dir 0 = Some 3" "direct_at (demo_dir\<lparr>ri_size := n\<rparr>) 0 = Some 3" "ri_size demo_dir = 0" "ri_kind demo_dir = INODE_KIND_DIR"
  by (simp_all add: demo_dir_def demo_file_def direct_at_def INODE_KIND_DIR_def)

lemma demo_unused:
  assumes "\<And>k. k < 256 \<Longrightarrow> m (8192 + k) = 0"
  shows "find_unused (mem_read m 8192 4096) 0 0 INODES_PER_BLOCK = Some 1"
proof -
  have z: "mem_read m 8320 2 = [0, 0]" using assms[of 128] assms[of 129] by (simp add: mem_read_def numeral_2_eq_2)
  have "take 2 (take 128 (drop 128 (mem_read m 8192 4096))) = [0, 0]"
    using z mem_read_slice[of 0 2 128 m 8320] by (simp add: mem_read_slice)
  then have "ri_kind (decode_inode (take 128 (drop 128 (mem_read m 8192 4096)))) = 0"
    by (simp add: decode_inode_def field_def)
  then have "find_unused (mem_read m 8192 4096) 0 0 (Suc (Suc k)) = Some 1" for k
    by (simp add: Let_def INODE_SIZE_def INODE_KIND_UNUSED_def)
  from this[of 30] show ?thesis by (simp add: INODES_PER_BLOCK_def BLOCK_SIZE_def INODE_SIZE_def)
qed

lemma demo_alloc_inode:
  assumes "m = (\<lambda>_. 0)(4096 := 1)"
  shows "alloc_inode ram_disk (demo_dpond\<lparr>fs_dev := m\<rparr>) = Some (Inr 1, demo_dpond\<lparr>fs_dev := m\<rparr>)"
proof -
  have "find_unused (mem_read m 8192 4096) 0 0 INODES_PER_BLOCK = Some 1" using assms by (intro demo_unused) simp
  then show ?thesis
    by (simp add: alloc_inode_def demo_dpond_def demo_pond_def demo_sb_def on_dev_def u64_add_def read_block_ram io_bind_def
        io_check_def io_ok_def)
qed

lemma demo_write_inode: "n < 32 \<Longrightarrow> \<exists>d. write_inode ram_disk n r (demo_dpond\<lparr>fs_dev := m\<rparr>) = Some (Inr (), demo_dpond\<lparr>fs_dev := d\<rparr>)"
  by (simp add: write_inode_def demo_dpond_def demo_pond_def demo_sb_def INODES_PER_BLOCK_def BLOCK_SIZE_def INODE_SIZE_def
      u64_add_def io_bind_def io_check_def on_dev_def read_block_ram write_block_ram)

lemma demo_write_loop:
  assumes "direct_at raw 0 = Some 3" and "bs \<noteq> []" and "length bs \<le> 4096"
  shows "\<exists>d. write_loop ram_disk raw 0 bs m = Some (Inr (), d)"
  using assms by (simp add: write_loop.simps[of ram_disk raw 0] write_loop.simps[of ram_disk raw _ "[]"] BLOCK_SIZE_def io_bind_def
      io_check_def read_block_ram write_block_ram io_ok_def)

lemma demo_dir_write:
  assumes "serialize_entries es \<noteq> []" and "length (serialize_entries es) \<le> 4096"
  shows "\<exists>d. dir_write_entries ram_disk es (demo_dpond\<lparr>fs_dev := m\<rparr>, demo_dir)
    = Some (Inr (), (demo_dpond\<lparr>fs_dev := d\<rparr>, demo_dir\<lparr>ri_size := length (serialize_entries es)\<rparr>))"
proof -
  let ?bs = "serialize_entries es"
  have one: "div_ceil (length ?bs) 4096 = 1"
  proof -
    have "0 < div_ceil (length ?bs) 4096" using assms(1) by (simp add: less_div_ceil_iff)
    moreover have "\<not> 1 < div_ceil (length ?bs) 4096" using assms(2) by (simp add: less_div_ceil_iff)
    ultimately show ?thesis by simp
  qed
  have a: "alloc_missing ram_disk 0 (Suc 0) (p, demo_dir\<lparr>ri_size := 0\<rparr>) = Some (Inr (), (p, demo_dir\<lparr>ri_size := 0\<rparr>))" for p
    by (simp add: io_bind_def io_check_def demo_dir_fields io_ok_def)
  obtain d where d: "write_loop ram_disk (demo_dir\<lparr>ri_size := 0\<rparr>) 0 ?bs m = Some (Inr (), d)"
    using demo_write_loop[OF demo_dir_fields(2) assms] by blast
  have "write_file_at ram_disk 0 ?bs (demo_dpond\<lparr>fs_dev := m\<rparr>, demo_dir\<lparr>ri_size := 0\<rparr>)
      = Some (Inr (length ?bs), (demo_dpond\<lparr>fs_dev := d\<rparr>, demo_dir\<lparr>ri_size := length ?bs\<rparr>))"
    using one a d assms by (simp add: write_file_at_def u64_add_def BLOCK_SIZE_def DIRECT_BLOCKS_def io_bind_def io_check_def on_fs_def
        on_dev_def io_modify_def io_ok_def)
  then show ?thesis
    using one by (intro exI[of _ d])
      (simp add: dir_write_entries_def Let_def BLOCK_SIZE_def io_bind_def io_modify_def io_ok_def div_ceil_def demo_dir_fields)
qed

lemma demo_create: "\<exists>fs'. pond_create ram_disk 0 [97] FileKind demo_dpond = Some (Inr 1, fs')"
proof -
  let ?m = "(\<lambda>_. 0 :: u8)(4096 := 1)" and ?es = "[([97], FileKind, 1)] :: entry list"
  have dev: "demo_dpond\<lparr>fs_dev := ?m\<rparr> = demo_dpond" "fs_dev demo_dpond = ?m" by (simp_all add: demo_dpond_def demo_pond_def)
  have rd: "dir_read_entries ram_disk demo_dir ?m = Some (Inr [], ?m)"
    by (simp add: dir_read_entries_def read_file_at_def demo_dir_fields io_bind_def io_ok_def parse_entries.simps[of "[]"]
        DIR_ENTRY_HEADER_SIZE_def)
  have al: "alloc_inode ram_disk demo_dpond = Some (Inr 1, demo_dpond)" using demo_alloc_inode[OF refl] unfolding dev(1) .
  obtain d1 where w1: "write_inode ram_disk 1 (new_raw FileKind) demo_dpond = Some (Inr (), demo_dpond\<lparr>fs_dev := d1\<rparr>)"
    using demo_write_inode[of 1 "new_raw FileKind" ?m] unfolding dev(1) by auto
  have len: "length (serialize_entries ?es) = 20" by (simp add: serialize_entries_def length_encode_entry align4_def)
  then have ne: "serialize_entries ?es \<noteq> []" "length (serialize_entries ?es) \<le> 4096" by (auto simp del: length_0_conv)
  obtain d2 where dw: "dir_write_entries ram_disk ?es (demo_dpond\<lparr>fs_dev := d1\<rparr>, demo_dir)
      = Some (Inr (), (demo_dpond\<lparr>fs_dev := d2\<rparr>, demo_dir\<lparr>ri_size := length (serialize_entries ?es)\<rparr>))"
    using demo_dir_write[OF ne] by blast
  obtain d3 where w2: "write_inode ram_disk 2 (demo_dir\<lparr>ri_size := length (serialize_entries ?es)\<rparr>) (demo_dpond\<lparr>fs_dev := d2\<rparr>)
      = Some (Inr (), demo_dpond\<lparr>fs_dev := d3\<rparr>)"
    using demo_write_inode[of 2 _ d2] by fastforce
  have st: "st_ino (fs_states demo_dpond ! 0) = 2" "length (fs_states demo_dpond) = 1" by (simp_all add: demo_dpond_def)
  have "\<exists>p. create_locked ram_disk 2 [97] FileKind (demo_dpond, demo_dir) = Some (Inr 1, p)"
    using rd al w1 dw w2 st(2)
    by (simp add: create_locked_def demo_dir_fields(4) find_entry_def io_bind_def on_fs_def on_dev_def dev cache_state_def io_ok_def)
  then show ?thesis using st(1) demo_dpond_ok(2) by (auto simp: pond_create_def with_raw_def)
qed

theorem pond_create_correct_witness:
  "disk_laws ram_disk (\<lambda>m. m) \<and> fs_ok (\<lambda>m. m) demo_dpond \<and>
   (\<exists>fs' n. pond_create ram_disk 0 [97] FileKind demo_dpond = Some (Inr 1, fs') \<and>
      dir_entries (\<lambda>m. m) fs' (raw_of 0 fs') = Inr [([97], FileKind, n)] \<and> inode_cache fs' n = Some 1)"
proof -
  obtain fs' where c: "pond_create ram_disk 0 [97] FileKind demo_dpond = Some (Inr 1, fs')" using demo_create by blast
  have st: "0 < length (fs_states demo_dpond)" "st_ino (fs_states demo_dpond ! 0) < inode_table_blocks (fs_sb demo_dpond) * 32"
    by (simp_all add: demo_dpond_def demo_pond_def demo_sb_def)
  have ok: "inode_ok demo_dpond (raw_of 0 demo_dpond)" using demo_dpond_ok by simp
  have nm: "[97 :: u8] \<noteq> []" "length [97 :: u8] < 2 ^ 16" "utf8_valid [97]" by simp_all
  have "dir_entries (\<lambda>m. m) demo_dpond (raw_of 0 demo_dpond) = Inr []"
    by (simp add: dir_entries_def demo_dpond_ok demo_dir_fields parse_entries.simps[of "[]"] DIR_ENTRY_HEADER_SIZE_def)
  then show ?thesis
    using pond_create_correct[OF ram_disk_laws demo_dpond_ok(1) st(1) ok st(2) nm c] c demo_dpond_ok(1) ram_disk_laws by auto
qed


section \<open>The format, the allocator and the reads\<close>

lemma pond_format_roundtrip_facts:
  assumes "superblock_bounded sb" and "inode_bounded raw" and "list_all entry_ok es"
  shows "decode_superblock (encode_superblock sb @ rest) = sb" and "decode_inode (encode_inode raw) = raw"
    and "length (encode_inode raw) = INODE_SIZE" and "parse_entries (serialize_entries es) 0 = Inr es"
proof -
  show "decode_superblock (encode_superblock sb @ rest) = sb" by (rule superblock_roundtrip[OF assms(1)])
  show "decode_inode (encode_inode raw) = raw" by (rule inode_roundtrip[OF assms(2)])
  show "length (encode_inode raw) = INODE_SIZE" using assms(2) by (intro length_encode_inode) (simp add: inode_bounded_def)
  show "parse_entries (serialize_entries es) 0 = Inr es" using parse_serialize[OF assms(3), of "[]"] by simp
qed

text \<open>
  C31. The on-disk format can be read back: the superblock, an inode and a directory are recovered from their byte images, for all
  field values of their width and for all directories whose names are non-empty, shorter than 64 KiB and UTF-8.
\<close>

theorem pond_format_roundtrip:
  assumes "superblock_bounded sb" and "inode_bounded raw" and "list_all entry_ok es"
  shows "(\<forall>rest. decode_superblock (encode_superblock sb @ rest) = sb) \<and>
    decode_inode (encode_inode raw) = raw \<and>
    length (encode_inode raw) = INODE_SIZE \<and>
    parse_entries (serialize_entries es) 0 = Inr es"
  by (blast intro: pond_format_roundtrip_facts[OF assms])

theorem pond_format_roundtrip_witness:
  "superblock_bounded demo_sb \<and> inode_bounded demo_file \<and> list_all entry_ok [([97], FileKind, 1), ([98, 99], DirKind, 7)] \<and>
   parse_entries (serialize_entries [([97], FileKind, 1), ([98, 99], DirKind, 7)]) 0 = Inr [([97], FileKind, 1), ([98, 99], DirKind, 7)]"
proof -
  have sb: "superblock_bounded demo_sb" by (simp add: superblock_bounded_def demo_sb_def POND_MAGIC_def)
  have es: "list_all entry_ok [([97], FileKind, 1), ([98, 99], DirKind, 7)]" by (simp add: entry_ok_def)
  show ?thesis using sb demo_pond_ok(4) es pond_format_roundtrip[OF sb demo_pond_ok(4) es] by blast
qed

lemma io_map_err_Inl: "io_map_err f m s = Some (Inl e, s') \<longleftrightarrow> (\<exists>e0. m s = Some (Inl e0, s') \<and> e = f e0)"
  by (cases "m s") (auto simp: io_map_err_def split: sum.splits prod.splits)

lemma block_errors: "read_block D b d = Some (Inl e, d') \<Longrightarrow> e = Io" "write_block D b bs d = Some (Inl e, d') \<Longrightarrow> e = Io"
  by (auto simp: read_block_def write_block_def io_simps io_map_err_Inl)

lemma flush_error: "flush_bitmap_byte D byte fs = Some (Inl e, fs') \<Longrightarrow> e = Io"
  by (auto simp: flush_bitmap_byte_def io_simps on_dev_def dest: block_errors)

lemma alloc_data_block_correct_facts:
  assumes laws: "disk_laws D img" and ok: "fs_ok img fs" and run: "alloc_data_block D fs = Some (r, fs')"
  shows "r = Inr nb \<Longrightarrow> \<not> used fs nb \<and> data_start (fs_sb fs) \<le> nb \<and> nb < total_blocks (fs_sb fs) \<and>
      (\<forall>b. data_start (fs_sb fs) \<le> b \<and> b < nb \<longrightarrow> used fs b) \<and> (\<forall>b. used fs' b \<longleftrightarrow> used fs b \<or> b = nb) \<and> fs_ok img fs'"
    and "r = Inl NoSpace \<Longrightarrow> fs' = fs \<and> (\<forall>b. data_start (fs_sb fs) \<le> b \<and> b < total_blocks (fs_sb fs) \<longrightarrow> used fs b)"
    and "r = Inr nb \<Longrightarrow> free_data_block D nb fs' = Some (Inr (), fs'') \<Longrightarrow> fs_ok img fs'' \<and> used fs'' = used fs"
proof -
  have A: "\<not> used fs nb \<and> data_start (fs_sb fs) \<le> nb \<and> nb < total_blocks (fs_sb fs) \<and>
      (\<forall>b. data_start (fs_sb fs) \<le> b \<and> b < nb \<longrightarrow> used fs b) \<and> (\<forall>b. used fs' b \<longleftrightarrow> used fs b \<or> b = nb) \<and> fs_ok img fs'"
    if "r = Inr nb"
  proof -
    have ra: "alloc_data_block D fs = Some (Inr nb, fs')" using run that by simp
    obtain i d' where i: "nb = data_start (fs_sb fs) + i" "nb < total_blocks (fs_sb fs)" "\<not> bit_at (fs_bitmap fs) i"
        "\<forall>k < i. bit_at (fs_bitmap fs) k" "i div 8 < length (fs_bitmap fs)"
        "fs' = fs\<lparr>fs_bitmap := set_bit_at (fs_bitmap fs) i, fs_dev := d'\<rparr>" "fs_ok img fs'"
      using alloc_data_block_ok[OF laws ok ra] by blast
    have "i < 8 * length (fs_bitmap fs)" using i(5) by (simp add: div_less_iff_less_mult mult.commute)
    then have "used fs' b \<longleftrightarrow> used fs b \<or> b = nb" for b using i(1,2,6) by (auto simp: used_def)
    moreover have "used fs b" if "data_start (fs_sb fs) \<le> b" "b < nb" for b
      using that i(1,2,4) by (auto simp: used_def)
    moreover have "\<not> used fs nb" using i(1,3) by (simp add: used_def)
    ultimately show ?thesis using i(1,2,7) by auto
  qed
  from A show "r = Inr nb \<Longrightarrow> \<not> used fs nb \<and> data_start (fs_sb fs) \<le> nb \<and> nb < total_blocks (fs_sb fs) \<and>
      (\<forall>b. data_start (fs_sb fs) \<le> b \<and> b < nb \<longrightarrow> used fs b) \<and> (\<forall>b. used fs' b \<longleftrightarrow> used fs b \<or> b = nb) \<and> fs_ok img fs'" .
  show "fs' = fs \<and> (\<forall>b. data_start (fs_sb fs) \<le> b \<and> b < total_blocks (fs_sb fs) \<longrightarrow> used fs b)" if "r = Inl NoSpace"
  proof -
    let ?n = "total_blocks (fs_sb fs) - data_start (fs_sb fs)"
    have "\<exists>o'. data_start (fs_sb fs) \<le> total_blocks (fs_sb fs) \<and> find_clear (fs_bitmap fs) 0 ?n = Some o'"
      using run by (auto simp: alloc_data_block_def Let_def io_bind_def io_check_def u64_sub_def split: if_splits option.splits)
    then obtain o' where o': "data_start (fs_sb fs) \<le> total_blocks (fs_sb fs)" "find_clear (fs_bitmap fs) 0 ?n = Some o'" by blast
    have "o' = None \<and> fs' = fs"
    proof (cases o')
      case None
      then show ?thesis using run o' by (simp add: alloc_data_block_def Let_def u64_sub_def io_err_def)
    next
      case (Some i)
      let ?fs = "fs\<lparr>fs_bitmap := (fs_bitmap fs)[i div 8 := fs_bitmap fs ! (i div 8) OR push_bit (i mod 8) 1]\<rparr>"
      have "io_bind (flush_bitmap_byte D (i div 8)) (\<lambda>_. io_check (u64_add (data_start (fs_sb fs)) i)) ?fs = Some (Inl NoSpace, fs')"
        using run o' Some that by (simp add: alloc_data_block_def Let_def u64_sub_def)
      then have "flush_bitmap_byte D (i div 8) ?fs = Some (Inl NoSpace, fs')" by (simp add: io_simps)
      then show ?thesis using flush_error by blast
    qed
    then have "fs' = fs \<and> data_start (fs_sb fs) \<le> total_blocks (fs_sb fs) \<and> find_clear (fs_bitmap fs) 0 ?n = Some None"
      using o' by simp
    then have f: "fs' = fs" "data_start (fs_sb fs) \<le> total_blocks (fs_sb fs)"
        "find_clear (fs_bitmap fs) 0 (total_blocks (fs_sb fs) - data_start (fs_sb fs)) = Some None" by blast+
    have "bit_at (fs_bitmap fs) k" if "k < total_blocks (fs_sb fs) - data_start (fs_sb fs)" for k
      using find_clear_ok[OF f(3)] that by simp
    then show ?thesis using f(1) by (simp add: used_def diff_less_mono)
  qed
  show "fs_ok img fs'' \<and> used fs'' = used fs" if "r = Inr nb" "free_data_block D nb fs' = Some (Inr (), fs'')"
  proof -
    have "fs_ok img fs'" using A[OF that(1)] by simp
    note F = free_data_block_ok[OF laws this that(2)]
    show ?thesis using F(4,5) A[OF that(1)] by (auto simp: fun_eq_iff)
  qed
qed

text \<open>
  C30. The block allocator of PondFS: it returns the lowest free data block and marks exactly that block used, in memory and on the disk;
  it reports that there is no space only when every data block is used; and freeing the block again restores
  the set of used blocks.
\<close>

theorem alloc_data_block_correct:
  assumes "disk_laws D img" and "fs_ok img fs" and "alloc_data_block D fs = Some (r, fs')"
  shows "(\<forall>nb. (r = Inr nb) \<longrightarrow> (\<not> used fs nb \<and> data_start (fs_sb fs) \<le> nb \<and> nb < total_blocks (fs_sb fs) \<and>
      (\<forall>b. data_start (fs_sb fs) \<le> b \<and> b < nb \<longrightarrow> used fs b) \<and> (\<forall>b. used fs' b \<longleftrightarrow> used fs b \<or> b = nb) \<and> fs_ok img fs')) \<and>
    ((r = Inl NoSpace) \<longrightarrow> (fs' = fs \<and> (\<forall>b. data_start (fs_sb fs) \<le> b \<and> b < total_blocks (fs_sb fs) \<longrightarrow> used fs b))) \<and>
    (\<forall>nb fs''. (r = Inr nb) \<longrightarrow> (free_data_block D nb fs' = Some (Inr (), fs'')) \<longrightarrow> (fs_ok img fs'' \<and> used fs'' = used fs))"
  using alloc_data_block_correct_facts[OF assms] by blast

theorem alloc_data_block_correct_witness:
  "disk_laws ram_disk (\<lambda>m. m) \<and> fs_ok (\<lambda>m. m) demo_pond \<and>
   (\<exists>fs'. alloc_data_block ram_disk demo_pond = Some (Inr 4, fs') \<and> \<not> used demo_pond 4 \<and> used fs' 4 \<and> used fs' 3)"
proof -
  have "demo_bitmap ! 0 = 1" "0 < length demo_bitmap" by (simp_all add: demo_bitmap_def)
  then have "find_clear demo_bitmap 0 (Suc (Suc k)) = Some (Some 1)" for k by simp
  from this[of 15] have c: "find_clear demo_bitmap 0 17 = Some (Some 1)" by simp
  have "\<exists>fs'. alloc_data_block ram_disk demo_pond = Some (Inr 4, fs')"
    using c by (simp add: alloc_data_block_def demo_pond_def demo_sb_def u64_sub_def u64_add_def flush_bitmap_byte_def BLOCK_SIZE_def
        io_bind_def io_check_def io_modify_def on_dev_def read_block_ram write_block_ram Let_def)
  then obtain fs' where a: "alloc_data_block ram_disk demo_pond = Some (Inr 4, fs')" by blast
  have "data_start (fs_sb demo_pond) = 3" by (simp add: demo_pond_def demo_sb_def)
  then show ?thesis
    using alloc_data_block_correct[OF ram_disk_laws demo_pond_ok(1) a] a ram_disk_laws demo_pond_ok(1) by auto
qed

text \<open>A device that answers every read.\<close>

definition answers :: "'d block_dev \<Rightarrow> bool" where
  "answers D \<longleftrightarrow> 0 < block_size D \<and> (\<forall>lba n d. read_blocks D lba n d \<noteq> None)"

lemma read_loop_returns:
  assumes "answers D" and "length (direct raw) = 12" and "\<And>b. b \<in> set (direct raw) \<Longrightarrow> b * (4096 div block_size D) < 2 ^ 64"
  shows "\<exists>r d'. read_loop D raw c fin got d = Some (r, d') \<and> r \<noteq> Inl NotFound \<and> (\<forall>e. r = Inl e \<longrightarrow> e = Io \<or> e = Unsupported)"
proof (induction "fin - c" arbitrary: c got d rule: less_induct)
  case less
  show ?case
  proof (cases "fin \<le> c \<or> 12 \<le> c div 4096")
    case True
    then show ?thesis by (auto simp: read_loop.simps[of D raw c] BLOCK_SIZE_def DIRECT_BLOCKS_def io_ok_def io_err_def)
  next
    case False
    let ?b = "direct raw ! (c div 4096)"
    have bin: "?b \<in> set (direct raw)" and at: "direct_at raw (c div 4096) = Some ?b"
      using False assms(2) by (simp_all add: direct_at_def)
    have lba: "Option.bind (lbas_per_block D) (u64_mul ?b) = Some (?b * (4096 div block_size D))"
      using assms(1,3) bin by (simp add: answers_def lbas_per_block_def BLOCK_SIZE_def u64_mul_def)
    obtain r1 d1 where rb: "read_blocks D (?b * (4096 div block_size D)) 4096 d = Some (r1, d1)"
      using assms(1) by (metis answers_def option.exhaust surj_pair)
    show ?thesis
    proof (cases "?b = 0 \<or> isl r1")
      case True
      then show ?thesis using False at lba rb
        by (cases r1) (auto simp: read_loop.simps[of D raw c] BLOCK_SIZE_def DIRECT_BLOCKS_def read_block_def io_map_err_def io_bind_def
            io_check_def io_err_def)
    next
      case F: False
      then obtain bs where r1: "r1 = Inr bs" by (cases r1) auto
      let ?n = "min (4096 - c mod 4096) (fin - c)"
      have lt: "fin - (c + ?n) < fin - c" using False by (simp add: diff_less_mono2)
      have "read_loop D raw c fin got d = read_loop D raw (c + ?n) fin (got @ take ?n (drop (c mod 4096) bs)) d1"
        using False F at lba rb r1
        by (simp add: read_loop.simps[of D raw c] BLOCK_SIZE_def DIRECT_BLOCKS_def read_block_def io_map_err_def io_bind_def io_check_def
            Let_def)
      then show ?thesis using less.hyps[OF lt] by simp
    qed
  qed
qed



end
