(* ===== verification/Mkpondfs.thy ===== *)
theory Mkpondfs
  imports Pondfs_Dirs
begin

text \<open>
  The host-side formatter, \<open>tools/mkpondfs/src/main.rs\<close>. The tool declares its own copies of the on-disk structures of
  \<open>layout.rs\<close> with the same fields, so the records and byte images of \<open>Pond_Layout\<close> serve for both. The image file is a
  byte memory; the source directory is a tree in the order in which \<open>read_dir\<close> lists it. A failed assertion,
  \<open>expect\<close> or \<open>panic!\<close> is \<^const>\<open>None\<close>.
\<close>

record Formatter =
  f_img :: memory
  f_total_blocks :: nat
  f_inode_count :: nat
  f_inodes :: "RawInode list"
  f_bitmap :: bytes
  f_bitmap_start :: nat
  f_bitmap_blocks :: nat
  f_inode_table_start :: nat
  f_inode_table_blocks :: nat
  f_data_start :: nat

text \<open>The loop that sizes the bitmap; the subtraction saturates.\<close>

lemma div_ceil_mono: "a \<le> b \<Longrightarrow> div_ceil a c \<le> div_ceil b c"
proof (cases "c = 0")
  case False
  assume "a \<le> b"
  then have "i < div_ceil b c" if "i < div_ceil a c" for i
    using that less_div_ceil_iff[of c i] False by (meson less_le_trans neq0_conv)
  then show ?thesis by (meson not_le order.irrefl)
qed (simp add: div_ceil_def)

function size_bitmap :: "nat \<Rightarrow> nat \<Rightarrow> nat \<Rightarrow> nat" where
  "size_bitmap tb itb bb =
     (let data_blocks = tb - (1 + bb + itb);
          need = div_ceil data_blocks (8 * BLOCK_SIZE) in
      if need \<le> bb then bb else size_bitmap tb itb need)"
  by pat_completeness auto
termination
proof (relation "measure (\<lambda>(t, i, b). div_ceil t (8 * BLOCK_SIZE) - b)", goal_cases)
  case (2 t i b x xa)
  have "xa \<le> div_ceil t (8 * BLOCK_SIZE)" using 2(1,2) by (simp add: div_ceil_mono)
  then show ?case using 2(3) by simp
qed simp

definition inode_default :: RawInode where
  "inode_default = \<lparr>ri_kind = 0, ri_pad0 = 0, link_count = 0, ri_size = 0, ri_mtime = 0, ri_pad1 = 0,
     direct = replicate DIRECT_BLOCKS 0\<rparr>"

definition formatter_new :: "memory \<Rightarrow> nat \<Rightarrow> nat \<Rightarrow> Formatter may_stop" where
  "formatter_new img total_bytes icount =
     (let tb = total_bytes div BLOCK_SIZE;
          itb = div_ceil icount INODES_PER_BLOCK;
          bb = size_bitmap tb itb 1;
          its = 1 + bb in
      if tb < 64 then None
      else Some \<lparr>f_img = img, f_total_blocks = tb, f_inode_count = icount,
        f_inodes = replicate icount inode_default, f_bitmap = replicate (bb * BLOCK_SIZE) 0,
        f_bitmap_start = 1, f_bitmap_blocks = bb, f_inode_table_start = its,
        f_inode_table_blocks = itb, f_data_start = its + itb\<rparr>)"

definition fmt_alloc_data_block :: "Formatter \<Rightarrow> (nat \<times> Formatter) may_stop" where
  "fmt_alloc_data_block f = do {
     n \<leftarrow> u64_sub (f_total_blocks f) (f_data_start f);
     r \<leftarrow> find_clear (f_bitmap f) 0 n;
     (case r of
        None \<Rightarrow> None
      | Some i \<Rightarrow> Some (f_data_start f + i,
          f\<lparr>f_bitmap := (f_bitmap f)[i div 8 := f_bitmap f ! (i div 8) OR push_bit (i mod 8) 1]\<rparr>)) }"

fun first_unused :: "RawInode list \<Rightarrow> nat \<Rightarrow> nat option" where
  "first_unused [] i = None"
| "first_unused (r # rs) i = (if ri_kind r = INODE_KIND_UNUSED then Some i else first_unused rs (i + 1))"

definition fmt_alloc_inode :: "Formatter \<Rightarrow> nat may_stop" where
  "fmt_alloc_inode f = first_unused (drop 1 (f_inodes f)) 1"

definition fmt_write_block :: "nat \<Rightarrow> bytes \<Rightarrow> Formatter \<Rightarrow> Formatter" where
  "fmt_write_block blk data f = f\<lparr>f_img := mem_write (f_img f) (blk * BLOCK_SIZE) data\<rparr>"

text \<open>\<open>chunks(BLOCK_SIZE)\<close>; the loop over the chunks collects the block numbers.\<close>

function write_chunks :: "bytes \<Rightarrow> Formatter \<Rightarrow> (nat list \<times> Formatter) may_stop" where
  "write_chunks bs f =
     (if bs = [] then Some ([], f)
      else do {
        (blk, f1) \<leftarrow> fmt_alloc_data_block f;
        (let chunk = take BLOCK_SIZE bs in do {
           (blks, f2) \<leftarrow> write_chunks (drop BLOCK_SIZE bs) (fmt_write_block blk (chunk @ replicate (BLOCK_SIZE - length chunk) 0) f1);
           Some (blk # blks, f2) }) })"
  by pat_completeness auto
termination
  by (relation "measure (\<lambda>(bs, f). length bs)") (auto simp: BLOCK_SIZE_def)

definition write_file_bytes :: "nat \<Rightarrow> bytes \<Rightarrow> Formatter \<Rightarrow> Formatter may_stop" where
  "write_file_bytes ino bs f =
     (if DIRECT_BLOCKS < div_ceil (length bs) BLOCK_SIZE then None
      else do {
        (blks, f1) \<leftarrow> write_chunks bs f;
        if length (f_inodes f1) \<le> ino then None
        else Some (f1\<lparr>f_inodes := (f_inodes f1)[ino := (f_inodes f1 ! ino)\<lparr>ri_kind := INODE_KIND_FILE, link_count := 1,
          ri_size := length bs, direct := blks @ replicate (DIRECT_BLOCKS - length blks) 0\<rparr>]\<rparr>) })"

text \<open>The directory image is built as the driver builds it.\<close>

definition write_directory :: "nat \<Rightarrow> entry list \<Rightarrow> Formatter \<Rightarrow> Formatter may_stop" where
  "write_directory ino es f = do {
     f1 \<leftarrow> write_file_bytes ino (serialize_entries es) f;
     Some (f1\<lparr>f_inodes := (f_inodes f1)[ino := (f_inodes f1 ! ino)\<lparr>ri_kind := INODE_KIND_DIR\<rparr>]\<rparr>) }"

text \<open>One block of the inode table: the inodes that exist, then zeros.\<close>

definition table_block :: "RawInode list \<Rightarrow> nat \<Rightarrow> bytes" where
  "table_block inodes blk_off =
     (let here = take INODES_PER_BLOCK (drop (blk_off * INODES_PER_BLOCK) inodes);
          bs = concat (map encode_inode here) in
      bs @ replicate (BLOCK_SIZE - length bs) 0)"

fun write_table :: "nat \<Rightarrow> nat \<Rightarrow> Formatter \<Rightarrow> Formatter" where
  "write_table blk_off 0 f = f"
| "write_table blk_off (Suc n) f =
     write_table (blk_off + 1) n (fmt_write_block (f_inode_table_start f + blk_off) (table_block (f_inodes f) blk_off) f)"

fun write_bitmap :: "nat \<Rightarrow> nat \<Rightarrow> Formatter \<Rightarrow> Formatter" where
  "write_bitmap blk_off 0 f = f"
| "write_bitmap blk_off (Suc n) f =
     write_bitmap (blk_off + 1) n
       (fmt_write_block (f_bitmap_start f + blk_off) (take BLOCK_SIZE (drop (blk_off * BLOCK_SIZE) (f_bitmap f))) f)"

definition fmt_superblock :: "Formatter \<Rightarrow> Superblock" where
  "fmt_superblock f =
     \<lparr>sb_magic = POND_MAGIC, sb_version = POND_VERSION, total_blocks = f_total_blocks f, inode_count = f_inode_count f,
      bitmap_start = f_bitmap_start f, bitmap_blocks = f_bitmap_blocks f, inode_table_start = f_inode_table_start f,
      inode_table_blocks = f_inode_table_blocks f, data_start = f_data_start f\<rparr>"

definition finalize :: "Formatter \<Rightarrow> Formatter" where
  "finalize f =
     (let f1 = write_table 0 (f_inode_table_blocks f) f;
          f2 = write_bitmap 0 (f_bitmap_blocks f1) f1;
          bs = encode_superblock (fmt_superblock f2) in
      fmt_write_block 0 (bs @ replicate (BLOCK_SIZE - length bs) 0) f2)"

section \<open>The source tree\<close>

datatype source = SrcFile bytes | SrcDir "(bytes \<times> source) list" | SrcOther

definition set_kind :: "nat \<Rightarrow> nat \<Rightarrow> Formatter \<Rightarrow> Formatter" where
  "set_kind ino kind f = f\<lparr>f_inodes := (f_inodes f)[ino := (f_inodes f ! ino)\<lparr>ri_kind := kind, link_count := 1\<rparr>]\<rparr>"

text \<open>The second loop of \<open>visit\<close>: the inode of a file is the one of the first entry with its name.\<close>

fun write_bodies :: "(bytes \<times> bytes) list \<Rightarrow> entry list \<Rightarrow> Formatter \<Rightarrow> Formatter may_stop" where
  "write_bodies [] es f = Some f"
| "write_bodies ((data, name) # files) es f =
     (case find_entry name es of
        None \<Rightarrow> None
      | Some (_, _, ino) \<Rightarrow> do { f1 \<leftarrow> write_file_bytes ino data f; write_bodies files es f1 })"

fun visit :: "nat \<Rightarrow> (bytes \<times> source) list \<Rightarrow> Formatter \<Rightarrow> Formatter may_stop"
and scan :: "(bytes \<times> source) list \<Rightarrow> entry list \<Rightarrow> (bytes \<times> bytes) list \<Rightarrow> Formatter \<Rightarrow>
    (entry list \<times> (bytes \<times> bytes) list \<times> Formatter) may_stop" where
  "visit dir_ino src f = do {
     (es, files, f1) \<leftarrow> scan src [] [] f;
     f2 \<leftarrow> write_bodies files es f1;
     write_directory dir_ino es f2 }"
| "scan [] es files f = Some (es, files, f)"
| "scan ((name, SrcDir sub) # rest) es files f = do {
     new_ino \<leftarrow> fmt_alloc_inode f;
     f1 \<leftarrow> visit new_ino sub (set_kind new_ino INODE_KIND_DIR f);
     scan rest (es @ [(name, DirKind, new_ino)]) files f1 }"
| "scan ((name, SrcFile data) # rest) es files f = do {
     ino \<leftarrow> fmt_alloc_inode f;
     scan rest (es @ [(name, FileKind, ino)]) (files @ [(data, name)]) (set_kind ino INODE_KIND_FILE f) }"
| "scan ((name, SrcOther) # rest) es files f = scan rest es files f"

definition mkpondfs :: "memory \<Rightarrow> nat \<Rightarrow> (bytes \<times> source) list \<Rightarrow> Formatter may_stop" where
  "mkpondfs img nbytes src = do {
     f \<leftarrow> formatter_new img nbytes 64;
     f1 \<leftarrow> visit ROOT_INO src (set_kind ROOT_INO INODE_KIND_DIR f);
     Some (finalize f1) }"

end
