(* ===== verification/Mkpondfs_Correct.thy ===== *)
theory Mkpondfs_Correct
  imports Mkpondfs
begin

text \<open>
  A disk that the formatter has written satisfies what the driver relies on: the layout is consistent, the bitmap covers the
  data blocks, no block belongs to two inodes, and the driver mounts it with the superblock, the bitmap and the
  inodes that the formatter held.
\<close>

declare size_bitmap.simps [simp del] write_chunks.simps [simp del]

section \<open>Layout\<close>

lemma size_bitmap_ok:
  "div_ceil (tb - (1 + size_bitmap tb itb bb + itb)) 32768 \<le> size_bitmap tb itb bb \<and> bb \<le> size_bitmap tb itb bb \<and>
   size_bitmap tb itb bb \<le> max bb (div_ceil tb 32768)"
proof (induction tb itb bb rule: size_bitmap.induct)
  case (1 tb itb bb)
  let ?need = "div_ceil (tb - (1 + bb + itb)) 32768"
  have le: "?need \<le> div_ceil tb 32768" by (simp add: div_ceil_mono)
  show ?case
  proof (cases "?need \<le> bb")
    case True
    then have "size_bitmap tb itb bb = bb" by (simp add: size_bitmap.simps[of tb itb bb] BLOCK_SIZE_def)
    then show ?thesis using True by simp
  next
    case False
    then have s: "size_bitmap tb itb bb = size_bitmap tb itb ?need"
      by (simp add: size_bitmap.simps[of tb itb bb] BLOCK_SIZE_def Let_def)
    have "div_ceil (tb - (1 + size_bitmap tb itb ?need + itb)) 32768 \<le> size_bitmap tb itb ?need \<and> ?need \<le> size_bitmap tb itb ?need \<and>
        size_bitmap tb itb ?need \<le> max ?need (div_ceil tb 32768)"
      using 1[OF refl refl] False by (simp add: BLOCK_SIZE_def)
    then show ?thesis unfolding s using False le by linarith
  qed
qed

definition fmt_used :: "Formatter \<Rightarrow> nat \<Rightarrow> bool" where
  "fmt_used f b \<longleftrightarrow> f_data_start f \<le> b \<and> b < f_total_blocks f \<and> bit_at (f_bitmap f) (b - f_data_start f)"

definition geometry_ok :: "Formatter \<Rightarrow> bool" where
  "geometry_ok f \<longleftrightarrow> geo_ok (fmt_superblock f) \<and> length (f_bitmap f) = f_bitmap_blocks f * 4096 \<and>
     f_total_blocks f - f_data_start f \<le> 8 * length (f_bitmap f) \<and> f_data_start f < 2 ^ 60 \<and> f_bitmap_blocks f < 2 ^ 50 \<and>
     length (f_inodes f) = f_inode_count f \<and> f_inode_count f \<le> f_inode_table_blocks f * 32 \<and> 1 < f_inode_count f \<and> f_inode_count f < 2 ^ 40"

definition fmt_inode_ok :: "Formatter \<Rightarrow> RawInode \<Rightarrow> bool" where
  "fmt_inode_ok f r \<longleftrightarrow> inode_bounded r \<and> direct_ok r \<and> (\<forall>b \<in> set (direct r). b \<noteq> 0 \<longrightarrow> fmt_used f b)"

definition fmt_ok :: "Formatter \<Rightarrow> bool" where
  "fmt_ok f \<longleftrightarrow> geometry_ok f \<and> (\<forall>r \<in> set (f_inodes f). fmt_inode_ok f r) \<and>
     (\<forall>i < length (f_inodes f). \<forall>j < length (f_inodes f). i \<noteq> j \<longrightarrow>
        set (direct (f_inodes f ! i)) \<inter> set (direct (f_inodes f ! j)) \<subseteq> {0})"

lemma direct_ok_zeros: "direct_ok (raw\<lparr>direct := replicate 12 0\<rparr>)"
  by (simp add: direct_ok_def)

lemma inode_default_ok: "fmt_inode_ok f inode_default"
  by (auto simp: fmt_inode_ok_def inode_bounded_def inode_default_def DIRECT_BLOCKS_def direct_ok_def)

lemma formatter_new_ok:
  assumes "formatter_new img nbytes n = Some f" and "nbytes < 2 ^ 64" and "1 < n" and "n < 2 ^ 40"
  shows "fmt_ok f" and "f_inode_count f = n" and "f_total_blocks f * 4096 \<le> nbytes" and "n \<le> 1024 \<Longrightarrow> f_data_start f \<le> f_total_blocks f"
proof -
  let ?tb = "nbytes div 4096" and ?itb = "div_ceil n 32"
  let ?bb = "size_bitmap ?tb ?itb 1"
  have f: "f = \<lparr>f_img = img, f_total_blocks = ?tb, f_inode_count = n, f_inodes = replicate n inode_default,
      f_bitmap = replicate (?bb * 4096) 0, f_bitmap_start = 1, f_bitmap_blocks = ?bb, f_inode_table_start = 1 + ?bb,
      f_inode_table_blocks = ?itb, f_data_start = 1 + ?bb + ?itb\<rparr>"
    using assms(1) by (auto simp: formatter_new_def Let_def BLOCK_SIZE_def INODES_PER_BLOCK_def INODE_SIZE_def split: if_splits)
  note s = size_bitmap_ok[of ?tb ?itb 1]
  have tb: "?tb < 2 ^ 52" using assms(2) by (simp add: div_less_iff_less_mult)
  have itb: "?itb \<le> n" "n \<le> ?itb * 32" using div_ceil_bound[of 32 n] assms(3) by (auto simp: div_ceil_def)
  have "div_ceil ?tb 32768 \<le> ?tb + 1" by (simp add: div_ceil_def) (meson div_le_dividend le_SucI)
  then have bb: "1 \<le> ?bb" "?bb \<le> ?tb + 1" using s by linarith+
  have bb50: "?bb < 2 ^ 50"
  proof -
    have "?tb div 32768 < 2 ^ 40" using tb by (simp add: div_less_iff_less_mult)
    then have "div_ceil ?tb 32768 \<le> 2 ^ 40" by (simp add: div_ceil_def)
    then have "max 1 (div_ceil ?tb 32768) \<le> 2 ^ 40" by simp
    then have "?bb \<le> 2 ^ 40" using s by linarith
    then show ?thesis by simp
  qed
  have cover: "?tb - (1 + ?bb + ?itb) \<le> 8 * (?bb * 4096)"
    using s div_ceil_bound[of 32768 "?tb - (1 + ?bb + ?itb)"] by linarith
  have "geometry_ok f" unfolding geometry_ok_def
    using cover tb bb bb50 itb assms(3,4) by (simp add: f geo_ok_def fmt_superblock_def)
  then show "fmt_ok f" by (auto simp: fmt_ok_def f inode_default_ok) (auto simp: inode_default_def DIRECT_BLOCKS_def)
  show "f_inode_count f = n" "f_total_blocks f * 4096 \<le> nbytes" by (simp_all add: f)
  show "f_data_start f \<le> f_total_blocks f" if "n \<le> 1024"
  proof -
    have tb64: "64 \<le> ?tb" using assms(1) by (auto simp: formatter_new_def Let_def BLOCK_SIZE_def split: if_splits)
    have "div_ceil n 32 \<le> 32" "div_ceil ?tb 32768 \<le> 1 + ?tb div 32768" using div_ceil_mono[OF that, of 32] by (simp_all add: div_ceil_def)
    moreover have "max 1 (div_ceil ?tb 32768) \<le> 1 + ?tb div 32768" using calculation by simp
    moreover have "32768 * (?tb div 32768) \<le> ?tb" by simp
    ultimately have "1 + ?bb + ?itb \<le> ?tb" using s tb64 by linarith
    then show ?thesis by (simp add: f)
  qed
qed

section \<open>Writing files keeps the layout\<close>

text \<open>\<open>fmt_step f f'\<close>: the geometry is the same, and blocks that were used still are.\<close>

definition same_geometry :: "Formatter \<Rightarrow> Formatter \<Rightarrow> bool" where
  "same_geometry f f' \<longleftrightarrow> fmt_superblock f' = fmt_superblock f \<and> length (f_bitmap f') = length (f_bitmap f) \<and>
     length (f_inodes f') = length (f_inodes f)"

lemma same_geometry_fields:
  assumes "same_geometry f f'"
  shows "f_total_blocks f' = f_total_blocks f" "f_data_start f' = f_data_start f" "f_bitmap_blocks f' = f_bitmap_blocks f"
    "f_inode_count f' = f_inode_count f" "f_inode_table_blocks f' = f_inode_table_blocks f"
    "f_bitmap_start f' = f_bitmap_start f" "f_inode_table_start f' = f_inode_table_start f"
  using assms by (auto simp: same_geometry_def fmt_superblock_def)

lemma same_geometry_ok: "same_geometry f f' \<Longrightarrow> geometry_ok f' = geometry_ok f"
  using same_geometry_fields[of f f'] by (simp add: geometry_ok_def same_geometry_def)

lemma same_geometry_trans: "same_geometry f g \<Longrightarrow> same_geometry g h \<Longrightarrow> same_geometry f h"
  by (simp add: same_geometry_def)

lemma fmt_alloc_ok:
  assumes "fmt_alloc_data_block f = Some (b, f')"
  shows "same_geometry f f'" and "f_inodes f' = f_inodes f" and "f_img f' = f_img f" and "\<not> fmt_used f b"
    and "f_data_start f \<le> b" and "b < f_total_blocks f" and "fmt_used f' c \<longleftrightarrow> fmt_used f c \<or> c = b"
proof -
  obtain i where i: "f_data_start f \<le> f_total_blocks f" "find_clear (f_bitmap f) 0 (f_total_blocks f - f_data_start f) = Some (Some i)"
      "b = f_data_start f + i" "f' = f\<lparr>f_bitmap := set_bit_at (f_bitmap f) i\<rparr>"
    using assms by (auto simp: fmt_alloc_data_block_def u64_sub_def set_bit_at_def split: if_splits option.splits bind_splits)
  note c = find_clear_ok[OF i(2), simplified]
  have i8: "i < 8 * length (f_bitmap f)" using c by (simp add: div_less_iff_less_mult mult.commute)
  show "same_geometry f f'" "f_inodes f' = f_inodes f" "f_img f' = f_img f" by (simp_all add: i(4) same_geometry_def fmt_superblock_def)
  show "\<not> fmt_used f b" "f_data_start f \<le> b" "b < f_total_blocks f" using c i by (auto simp: fmt_used_def)
  show "fmt_used f' c \<longleftrightarrow> fmt_used f c \<or> c = b" using i(1,3,4) c i8 by (auto simp: fmt_used_def)
qed

lemma fmt_write_block_simps [simp]:
  "f_inodes (fmt_write_block b d f) = f_inodes f" "f_bitmap (fmt_write_block b d f) = f_bitmap f"
  "fmt_superblock (fmt_write_block b d f) = fmt_superblock f" "fmt_used (fmt_write_block b d f) = fmt_used f"
  by (simp_all add: fmt_write_block_def fmt_superblock_def fmt_used_def fun_eq_iff)

lemma write_chunks_ok:
  "write_chunks bs f = Some (blks, f') \<Longrightarrow>
   same_geometry f f' \<and> f_inodes f' = f_inodes f \<and> length blks = div_ceil (length bs) 4096 \<and> distinct blks \<and>
   (\<forall>b \<in> set blks. \<not> fmt_used f b \<and> f_data_start f \<le> b \<and> b < f_total_blocks f) \<and>
   (\<forall>c. fmt_used f' c \<longleftrightarrow> fmt_used f c \<or> c \<in> set blks)"
proof (induction "length bs" arbitrary: bs f blks rule: less_induct)
  case less
  show ?case
  proof (cases "bs = []")
    case True
    then show ?thesis using less.prems by (auto simp: write_chunks.simps[of "[]"] same_geometry_def div_ceil_def)
  next
    case False
    let ?c = "take 4096 bs @ replicate (4096 - length (take 4096 bs)) 0"
    obtain b f1 blks' where r: "fmt_alloc_data_block f = Some (b, f1)"
        "write_chunks (drop 4096 bs) (fmt_write_block b ?c f1) = Some (blks', f')" "blks = b # blks'"
      using less.prems False by (auto simp: write_chunks.simps[of bs] BLOCK_SIZE_def Let_def split: bind_splits)
    note a = fmt_alloc_ok[OF r(1)]
    have lt: "length (drop 4096 bs) < length bs" using False by simp
    note IH = less.hyps[OF lt r(2)]
    have g: "same_geometry f1 (fmt_write_block b ?c f1)" by (simp add: same_geometry_def)
    have f1: "f_data_start f1 = f_data_start f" "f_total_blocks f1 = f_total_blocks f"
      using same_geometry_fields[OF a(1)] by simp_all
    have dc: "div_ceil (length bs) 4096 = Suc (div_ceil (length bs - 4096) 4096)"
    proof -
      have "i < div_ceil (length bs) 4096 \<longleftrightarrow> i < Suc (div_ceil (length bs - 4096) 4096)" for i
        using False by (cases i) (auto simp: less_div_ceil_iff)
      then show ?thesis by (meson linorder_neqE_nat order.irrefl)
    qed
    have "same_geometry f f'" using a(1) g IH same_geometry_trans by blast
    moreover have "f_data_start (fmt_write_block b ?c f1) = f_data_start f" "f_total_blocks (fmt_write_block b ?c f1) = f_total_blocks f"
      using f1 by (simp_all add: fmt_write_block_def)
    ultimately show ?thesis using IH a r(3) dc by auto
  qed
qed

lemma inode_ok_mono: "fmt_inode_ok f r \<Longrightarrow> (\<And>b. fmt_used f b \<Longrightarrow> fmt_used f' b) \<Longrightarrow> fmt_inode_ok f' r"
  by (simp add: fmt_inode_ok_def)

lemma direct_ok_blocks:
  assumes "distinct blks" and "length blks \<le> 12"
  shows "direct_ok (raw\<lparr>direct := blks @ replicate (12 - length blks) 0\<rparr>)"
proof -
  have "i = j" if "i < 12" "j < 12" "(blks @ replicate (12 - length blks) 0) ! i = (blks @ replicate (12 - length blks) 0) ! j"
      "(blks @ replicate (12 - length blks) 0) ! i \<noteq> 0" for i j
    using that assms by (auto simp: nth_append nth_eq_iff_index_eq split: if_splits)
  then show ?thesis using assms(2) unfolding direct_ok_def by auto
qed

text \<open>Giving an inode fresh blocks keeps the blocks of all inodes apart.\<close>

lemma fmt_ok_update:
  assumes ok: "fmt_ok f" and g: "same_geometry f f'" and ins: "f_inodes f' = (f_inodes f)[ino := r]"
    and mono: "\<And>b. fmt_used f b \<Longrightarrow> fmt_used f' b" and rok: "fmt_inode_ok f' r"
    and new: "\<And>b. b \<in> set (direct r) \<Longrightarrow> b = 0 \<or> \<not> fmt_used f b \<or> b \<in> set (direct (f_inodes f ! ino))"
  shows "fmt_ok f'"
proof -
  have "geometry_ok f'" using ok g same_geometry_ok by (simp add: fmt_ok_def)
  moreover have "fmt_inode_ok f' q" if "q \<in> set (f_inodes f')" for q
  proof -
    have "q = r \<or> q \<in> set (f_inodes f)" using that ins set_update_subset_insert[of "f_inodes f" ino r] by auto
    then show ?thesis using rok ok inode_ok_mono mono by (auto simp: fmt_ok_def)
  qed
  moreover have dis: "set (direct r) \<inter> set (direct (f_inodes f ! j)) \<subseteq> {0}" if "j \<noteq> ino" "j < length (f_inodes f)" "ino < length (f_inodes f)" for j
  proof
    fix b assume b: "b \<in> set (direct r) \<inter> set (direct (f_inodes f ! j))"
    have "fmt_inode_ok f (f_inodes f ! j)" using ok that(2) by (simp add: fmt_ok_def)
    then have u: "b = 0 \<or> fmt_used f b" using b by (auto simp: fmt_inode_ok_def)
    have "set (direct (f_inodes f ! ino)) \<inter> set (direct (f_inodes f ! j)) \<subseteq> {0}" using ok that by (auto simp: fmt_ok_def)
    then show "b \<in> {0}" using new[of b] u b by auto
  qed
  moreover have "set (direct (f_inodes f' ! i)) \<inter> set (direct (f_inodes f' ! j)) \<subseteq> {0}"
    if "i < length (f_inodes f')" "j < length (f_inodes f')" "i \<noteq> j" for i j
  proof -
    have l: "i < length (f_inodes f)" "j < length (f_inodes f)" using that ins by simp_all
    show ?thesis
    proof (cases "i = ino \<or> j = ino")
      case True
      then show ?thesis using dis[of i] dis[of j] that(3) l ins by (auto simp: Int_commute)
    next
      case False
      then show ?thesis using ok l that(3) ins by (simp add: fmt_ok_def)
    qed
  qed
  ultimately show ?thesis by (simp add: fmt_ok_def)
qed

lemma write_file_bytes_ok:
  assumes ok: "fmt_ok f" and run: "write_file_bytes ino bs f = Some f'"
  shows "fmt_ok f'" and "same_geometry f f'" and "ino < length (f_inodes f)"
proof -
  obtain blks f1 where r: "\<not> 12 < div_ceil (length bs) 4096" "write_chunks bs f = Some (blks, f1)" "ino < length (f_inodes f1)"
      "f' = f1\<lparr>f_inodes := (f_inodes f1)[ino := (f_inodes f1 ! ino)\<lparr>ri_kind := INODE_KIND_FILE, link_count := 1,
          ri_size := length bs, direct := blks @ replicate (12 - length blks) 0\<rparr>]\<rparr>"
    using run by (auto simp: write_file_bytes_def BLOCK_SIZE_def DIRECT_BLOCKS_def split: if_splits bind_splits)
  note w = write_chunks_ok[OF r(2)]
  have f1: "f_inodes f1 = f_inodes f" using w by simp
  have lb: "length blks \<le> 12" using w r(1) by simp
  let ?r = "(f_inodes f ! ino)\<lparr>ri_kind := INODE_KIND_FILE, link_count := 1, ri_size := length bs, direct := blks @ replicate (12 - length blks) 0\<rparr>"
  show ino: "ino < length (f_inodes f)" using r(3) f1 by simp
  have g': "same_geometry f1 f'" by (simp add: r(4) same_geometry_def fmt_superblock_def)
  then show g: "same_geometry f f'" using w same_geometry_trans by blast
  have used': "fmt_used f' = fmt_used f1" by (simp add: fun_eq_iff fmt_used_def r(4))
  have big: "length bs \<le> 12 * 4096" using div_ceil_bound[of 4096 "length bs"] r(1) by linarith
  have old: "inode_bounded (f_inodes f ! ino)" using ok ino by (simp add: fmt_ok_def fmt_inode_ok_def)
  have tot: "f_total_blocks f < 2 ^ 64" using ok by (simp add: fmt_ok_def geometry_ok_def geo_ok_def fmt_superblock_def)
  have bound: "b < 2 ^ 64" if "b \<in> set blks" for b using w that tot by fastforce
  have rb: "inode_bounded ?r" using old lb big bound by (auto simp: inode_bounded_def INODE_KIND_FILE_def DIRECT_BLOCKS_def)
  have "direct_ok ?r" using direct_ok_blocks[of blks] w lb by simp
  then have rok: "fmt_inode_ok f' ?r" using rb w used' by (auto simp: fmt_inode_ok_def)
  have ins: "f_inodes f' = (f_inodes f)[ino := ?r]" by (simp add: r(4) f1)
  show "fmt_ok f'"
    by (rule fmt_ok_update[OF ok g ins _ rok]) (use w used' in auto)
qed

text \<open>Changing the kind of an inode.\<close>

lemma fmt_ok_kind:
  assumes ok: "fmt_ok f" and ino: "ino < length (f_inodes f)" and k: "kind < 2 ^ 16" and l: "lc < 2 ^ 32"
  defines "f' \<equiv> f\<lparr>f_inodes := (f_inodes f)[ino := (f_inodes f ! ino)\<lparr>ri_kind := kind, link_count := lc\<rparr>]\<rparr>"
  shows "fmt_ok f'" and "same_geometry f f'"
proof -
  show g: "same_geometry f f'" by (simp add: f'_def same_geometry_def fmt_superblock_def)
  have used': "fmt_used f' = fmt_used f" by (simp add: fun_eq_iff fmt_used_def f'_def)
  have old: "fmt_inode_ok f (f_inodes f ! ino)" using ok ino by (simp add: fmt_ok_def)
  have rok: "fmt_inode_ok f' ((f_inodes f ! ino)\<lparr>ri_kind := kind, link_count := lc\<rparr>)"
    using old k l used' by (simp add: fmt_inode_ok_def inode_bounded_def direct_ok_def)
  have ins: "f_inodes f' = (f_inodes f)[ino := (f_inodes f ! ino)\<lparr>ri_kind := kind, link_count := lc\<rparr>]" by (simp add: f'_def)
  show "fmt_ok f'" by (rule fmt_ok_update[OF ok g ins _ rok]) (simp_all add: used')
qed

lemma write_directory_ok:
  assumes ok: "fmt_ok f" and run: "write_directory ino es f = Some f'"
  shows "fmt_ok f' \<and> same_geometry f f'"
proof -
  obtain f1 where r: "write_file_bytes ino (serialize_entries es) f = Some f1"
      "f' = f1\<lparr>f_inodes := (f_inodes f1)[ino := (f_inodes f1 ! ino)\<lparr>ri_kind := INODE_KIND_DIR\<rparr>]\<rparr>"
    using run by (auto simp: write_directory_def split: bind_splits)
  note w = write_file_bytes_ok[OF ok r(1)]
  have ino: "ino < length (f_inodes f1)" using w(2,3) by (simp add: same_geometry_def)
  have "link_count (f_inodes f1 ! ino) < 2 ^ 32" using w(1) ino by (simp add: fmt_ok_def fmt_inode_ok_def inode_bounded_def)
  then have "fmt_ok (f1\<lparr>f_inodes := (f_inodes f1)[ino := (f_inodes f1 ! ino)\<lparr>ri_kind := INODE_KIND_DIR,
      link_count := link_count (f_inodes f1 ! ino)\<rparr>]\<rparr>)"
    by (intro fmt_ok_kind(1)[OF w(1) ino]) (simp_all add: INODE_KIND_DIR_def)
  moreover have "same_geometry f1 f'" by (simp add: r(2) same_geometry_def fmt_superblock_def)
  ultimately show ?thesis using r(2) same_geometry_trans[OF w(2)] by simp
qed

lemma first_unused_bound: "first_unused rs i = Some j \<Longrightarrow> i \<le> j \<and> j < i + length rs"
  by (induction rs i rule: first_unused.induct) (auto split: if_splits)

lemma set_kind_ok:
  assumes "fmt_ok f" and "fmt_alloc_inode f = Some ino \<or> ino < length (f_inodes f)" and "kind < 2 ^ 16"
  shows "fmt_ok (set_kind ino kind f) \<and> same_geometry f (set_kind ino kind f)"
proof -
  have ino: "ino < length (f_inodes f)"
    using assms(2) first_unused_bound[of "drop 1 (f_inodes f)" 1 ino] by (auto simp: fmt_alloc_inode_def)
  show ?thesis unfolding set_kind_def by (intro conjI fmt_ok_kind[OF assms(1) ino assms(3)]) simp_all
qed

lemma write_bodies_ok: "fmt_ok f \<Longrightarrow> write_bodies files es f = Some f' \<Longrightarrow> fmt_ok f' \<and> same_geometry f f'"
proof (induction files es f rule: write_bodies.induct)
  case (1 es f)
  then show ?case by (simp add: same_geometry_def)
next
  case (2 data name files es f)
  then obtain n k ino f1 where r: "find_entry name es = Some (n, k, ino)" "write_file_bytes ino data f = Some f1"
      "write_bodies files es f1 = Some f'" by (auto split: option.splits bind_splits)
  note w = write_file_bytes_ok[OF 2(2) r(2)]
  show ?case using 2(1)[OF r(1) refl refl r(2) w(1) r(3)] same_geometry_trans[OF w(2)] by blast
qed

lemma visit_ok:
  shows "fmt_ok f \<Longrightarrow> visit dir_ino src f = Some f' \<Longrightarrow> fmt_ok f' \<and> same_geometry f f'"
    and "fmt_ok f \<Longrightarrow> scan src es files f = Some (es', files', f') \<Longrightarrow> fmt_ok f' \<and> same_geometry f f'"
proof (induction dir_ino src f and src es files f arbitrary: f' and es' files' f' rule: visit_scan.induct)
  case (1 dir_ino src f)
  obtain es files f1 f2 where r: "scan src [] [] f = Some (es, files, f1)" "write_bodies files es f1 = Some f2"
      "write_directory dir_ino es f2 = Some f'" using 1(3) by (auto split: bind_splits)
  have a: "fmt_ok f1 \<and> same_geometry f f1" by (rule 1(1)[OF 1(2) r(1)])
  then have b: "fmt_ok f2 \<and> same_geometry f1 f2" by (intro write_bodies_ok[OF _ r(2)]) simp
  then have "fmt_ok f' \<and> same_geometry f2 f'" by (intro write_directory_ok[OF _ r(3)]) simp
  then show ?case using a b same_geometry_trans by blast
next
  case (2 es files f)
  then show ?case by (simp add: same_geometry_def)
next
  case (3 name sub rest es files f)
  obtain n f1 where r: "fmt_alloc_inode f = Some n" "visit n sub (set_kind n INODE_KIND_DIR f) = Some f1"
      "scan rest (es @ [(name, DirKind, n)]) files f1 = Some (es', files', f')" using 3(4) by (auto split: bind_splits)
  have k: "fmt_ok (set_kind n INODE_KIND_DIR f) \<and> same_geometry f (set_kind n INODE_KIND_DIR f)"
    using set_kind_ok[OF 3(3), of n INODE_KIND_DIR] r(1) by (simp add: INODE_KIND_DIR_def)
  then have v: "fmt_ok f1 \<and> same_geometry (set_kind n INODE_KIND_DIR f) f1" using 3(1)[OF r(1) _ r(2)] by blast
  then have "fmt_ok f' \<and> same_geometry f1 f'" using 3(2)[OF r(1) r(2) _ r(3)] by blast
  then show ?case using k v same_geometry_trans by blast
next
  case (4 name data rest es files f)
  obtain n where r: "fmt_alloc_inode f = Some n"
      "scan rest (es @ [(name, FileKind, n)]) (files @ [(data, name)]) (set_kind n INODE_KIND_FILE f) = Some (es', files', f')"
    using 4(3) by (auto split: bind_splits)
  have k: "fmt_ok (set_kind n INODE_KIND_FILE f) \<and> same_geometry f (set_kind n INODE_KIND_FILE f)"
    using set_kind_ok[OF 4(2), of n INODE_KIND_FILE] r(1) by (simp add: INODE_KIND_FILE_def)
  then have "fmt_ok f' \<and> same_geometry (set_kind n INODE_KIND_FILE f) f'" using 4(1)[OF r(1) _ r(2)] by blast
  then show ?case using k same_geometry_trans by blast
next
  case (5 name rest es files f)
  then show ?case by simp
qed

section \<open>The image that is written\<close>

lemma read_written_block: "length bs = 4096 \<Longrightarrow> mem_read (mem_write m (b * 4096) bs) (b * 4096) 4096 = bs"
  using mem_read_write_same[of m "b * 4096" bs] by simp

lemma read_other_block: "length bs = 4096 \<Longrightarrow> c \<noteq> b \<Longrightarrow> mem_read (mem_write m (b * 4096) bs) (c * 4096) 4096 = mem_read m (c * 4096) 4096"
  by (rule mem_read_write_disjoint) (simp add: linorder_neq_iff, linarith)

lemma fmt_write_block_read:
  "length bs = 4096 \<Longrightarrow> mem_read (f_img (fmt_write_block b bs f)) (c * 4096) 4096 = (if c = b then bs else mem_read (f_img f) (c * 4096) 4096)"
  unfolding fmt_write_block_def using read_written_block[of bs "f_img f" b] read_other_block[of bs c b "f_img f"]
  by (simp add: BLOCK_SIZE_def)

lemma length_concat_inodes:
  "(\<And>r. r \<in> set rs \<Longrightarrow> length (direct r) = 12) \<Longrightarrow> length (concat (map encode_inode rs)) = length rs * 128"
proof (induction rs)
  case (Cons r rs)
  then show ?case using length_encode_inode[of r] by (simp add: DIRECT_BLOCKS_def INODE_SIZE_def)
qed simp

lemma nth_concat_inodes:
  "(\<And>r. r \<in> set rs \<Longrightarrow> length (direct r) = 12) \<Longrightarrow> k < length rs \<Longrightarrow>
   take 128 (drop (k * 128) (concat (map encode_inode rs))) = encode_inode (rs ! k)"
proof (induction rs arbitrary: k)
  case (Cons r rs)
  have l: "length (encode_inode r) = 128" using length_encode_inode[of r] Cons.prems(1) by (simp add: DIRECT_BLOCKS_def INODE_SIZE_def)
  then show ?case using Cons by (cases k) simp_all
qed simp

lemma table_block_ok:
  assumes "\<And>r. r \<in> set rs \<Longrightarrow> length (direct r) = 12"
  shows "length (table_block rs k) = 4096"
    and "i < 32 \<Longrightarrow> k * 32 + i < length rs \<Longrightarrow> take 128 (drop (i * 128) (table_block rs k)) = encode_inode (rs ! (k * 32 + i))"
proof -
  let ?h = "take 32 (drop (k * 32) rs)"
  have d: "length (direct r) = 12" if "r \<in> set ?h" for r using that assms by (meson in_set_dropD in_set_takeD)
  have len: "length (concat (map encode_inode ?h)) = length ?h * 128" by (rule length_concat_inodes) (rule d)
  have le: "length ?h * 128 \<le> 4096" by simp
  have tb: "table_block rs k = concat (map encode_inode ?h) @ replicate (4096 - length ?h * 128) 0"
    unfolding table_block_def Let_def INODES_PER_BLOCK_def BLOCK_SIZE_def INODE_SIZE_def using len by simp
  show "length (table_block rs k) = 4096" unfolding tb using len le by simp
  assume i: "i < 32" "k * 32 + i < length rs"
  have ih: "i < length ?h" using i by simp
  have "i * 128 + 128 \<le> length (concat (map encode_inode ?h))" unfolding len using ih by linarith
  then have "take 128 (drop (i * 128) (table_block rs k)) = take 128 (drop (i * 128) (concat (map encode_inode ?h)))"
    unfolding tb by simp
  also have "\<dots> = encode_inode (?h ! i)" by (rule nth_concat_inodes[OF d ih])
  finally show "take 128 (drop (i * 128) (table_block rs k)) = encode_inode (rs ! (k * 32 + i))" using i by simp
qed

definition only_img :: "Formatter \<Rightarrow> Formatter \<Rightarrow> bool" where
  "only_img f f' \<longleftrightarrow> f'\<lparr>f_img := f_img f\<rparr> = f"

lemma only_img_fields:
  assumes "only_img f f'"
  shows "f_inodes f' = f_inodes f" "f_bitmap f' = f_bitmap f" "fmt_superblock f' = fmt_superblock f"
    "f_inode_table_start f' = f_inode_table_start f" "f_bitmap_start f' = f_bitmap_start f"
    "f_bitmap_blocks f' = f_bitmap_blocks f" "f_inode_table_blocks f' = f_inode_table_blocks f"
  using assms unfolding only_img_def by (cases f; cases f'; simp add: fmt_superblock_def)+

lemma only_img_write: "only_img f (fmt_write_block b d f)"
  by (simp add: only_img_def fmt_write_block_def)

lemma only_img_trans: "only_img f g \<Longrightarrow> only_img g h \<Longrightarrow> only_img f h"
  unfolding only_img_def by (cases f; cases g; cases h) simp

lemma write_table_ok:
  assumes "\<And>r. r \<in> set (f_inodes f) \<Longrightarrow> length (direct r) = 12"
  shows "only_img f (write_table o' n f) \<and>
    (\<forall>b. mem_read (f_img (write_table o' n f)) (b * 4096) 4096 =
      (if f_inode_table_start f + o' \<le> b \<and> b < f_inode_table_start f + o' + n
       then table_block (f_inodes f) (b - f_inode_table_start f) else mem_read (f_img f) (b * 4096) 4096))"
  using assms
proof (induction n arbitrary: o' f)
  case 0
  then show ?case by (auto simp: only_img_def)
next
  case (Suc n)
  let ?g = "fmt_write_block (f_inode_table_start f + o') (table_block (f_inodes f) o') f"
  note o = only_img_write[of f "f_inode_table_start f + o'" "table_block (f_inodes f) o'"]
  note of = only_img_fields[OF o]
  have len: "length (table_block (f_inodes f) o') = 4096" by (rule table_block_ok(1)[OF Suc.prems])
  have IH: "only_img ?g (write_table (o' + 1) n ?g) \<and>
    (\<forall>b. mem_read (f_img (write_table (o' + 1) n ?g)) (b * 4096) 4096 =
      (if f_inode_table_start f + (o' + 1) \<le> b \<and> b < f_inode_table_start f + (o' + 1) + n
       then table_block (f_inodes f) (b - f_inode_table_start f) else mem_read (f_img ?g) (b * 4096) 4096))"
    using Suc.IH[of ?g "o' + 1"] Suc.prems of by simp
  have g: "mem_read (f_img ?g) (b * 4096) 4096 =
      (if b = f_inode_table_start f + o' then table_block (f_inodes f) o' else mem_read (f_img f) (b * 4096) 4096)" for b
    by (rule fmt_write_block_read[OF len])
  show ?case
    using IH only_img_trans[OF o] g by (auto simp del: distrib_right_numeral)
qed

lemma write_bitmap_ok:
  assumes "o' + n \<le> bb" and "length (f_bitmap f) = bb * 4096"
  shows "only_img f (write_bitmap o' n f) \<and>
    (\<forall>b. mem_read (f_img (write_bitmap o' n f)) (b * 4096) 4096 =
      (if f_bitmap_start f + o' \<le> b \<and> b < f_bitmap_start f + o' + n
       then take 4096 (drop ((b - f_bitmap_start f) * 4096) (f_bitmap f)) else mem_read (f_img f) (b * 4096) 4096))"
  using assms
proof (induction n arbitrary: o' f)
  case 0
  then show ?case by (auto simp: only_img_def)
next
  case (Suc n)
  let ?bs = "take 4096 (drop (o' * 4096) (f_bitmap f))"
  let ?g = "fmt_write_block (f_bitmap_start f + o') ?bs f"
  note o = only_img_write[of f "f_bitmap_start f + o'" ?bs]
  note of = only_img_fields[OF o]
  have "(o' + 1) * 4096 \<le> bb * 4096" using Suc.prems(1) by (intro mult_le_mono1) simp
  then have len: "length ?bs = 4096" using Suc.prems(2) by simp
  have IH: "only_img ?g (write_bitmap (o' + 1) n ?g) \<and>
    (\<forall>b. mem_read (f_img (write_bitmap (o' + 1) n ?g)) (b * 4096) 4096 =
      (if f_bitmap_start f + (o' + 1) \<le> b \<and> b < f_bitmap_start f + (o' + 1) + n
       then take 4096 (drop ((b - f_bitmap_start f) * 4096) (f_bitmap f)) else mem_read (f_img ?g) (b * 4096) 4096))"
    using Suc.IH[of "o' + 1" ?g] Suc.prems of by simp
  have g: "mem_read (f_img ?g) (b * 4096) 4096 =
      (if b = f_bitmap_start f + o' then ?bs else mem_read (f_img f) (b * 4096) 4096)" for b
    by (rule fmt_write_block_read[OF len])
  show ?case
    using IH only_img_trans[OF o] g by (auto simp: BLOCK_SIZE_def simp del: distrib_right_numeral)
qed

lemma length_encode_superblock: "length (sb_magic sb) = 4 \<Longrightarrow> length (encode_superblock sb) = 64"
  by (simp add: encode_superblock_def)

lemma fmt_superblock_bounded: "fmt_ok f \<Longrightarrow> superblock_bounded (fmt_superblock f)"
  by (auto simp: fmt_ok_def geometry_ok_def geo_ok_def superblock_bounded_def fmt_superblock_def POND_MAGIC_def POND_VERSION_def)

lemma finalize_ok:
  assumes ok: "fmt_ok f"
  shows "only_img f (finalize f)"
    and "mem_read (f_img (finalize f)) 0 4096 = encode_superblock (fmt_superblock f) @ replicate 4032 0"
    and "k < f_bitmap_blocks f \<Longrightarrow> mem_read (f_img (finalize f)) ((f_bitmap_start f + k) * 4096) 4096 = take 4096 (drop (k * 4096) (f_bitmap f))"
    and "k < f_inode_table_blocks f \<Longrightarrow> mem_read (f_img (finalize f)) ((f_inode_table_start f + k) * 4096) 4096 = table_block (f_inodes f) k"
proof -
  let ?f1 = "write_table 0 (f_inode_table_blocks f) f"
  let ?f2 = "write_bitmap 0 (f_bitmap_blocks ?f1) ?f1"
  let ?sb = "encode_superblock (fmt_superblock f) @ replicate 4032 0"
  have geo: "geo_ok (fmt_superblock f)" "length (f_bitmap f) = f_bitmap_blocks f * 4096" using ok by (simp_all add: fmt_ok_def geometry_ok_def)
  have d: "length (direct r) = 12" if "r \<in> set (f_inodes f)" for r
    using that ok by (simp add: fmt_ok_def fmt_inode_ok_def direct_ok_def)
  note T = write_table_ok[of f 0 "f_inode_table_blocks f", OF d]
  have T1: "only_img f ?f1" using T by blast
  note t = only_img_fields[OF T1]
  have B: "only_img ?f1 ?f2 \<and> (\<forall>b. mem_read (f_img ?f2) (b * 4096) 4096 =
      (if f_bitmap_start f \<le> b \<and> b < f_bitmap_start f + f_bitmap_blocks f
       then take 4096 (drop ((b - f_bitmap_start f) * 4096) (f_bitmap f)) else mem_read (f_img ?f1) (b * 4096) 4096))"
    using write_bitmap_ok[of 0 "f_bitmap_blocks f" "f_bitmap_blocks f" ?f1] geo(2) t by simp
  have B1: "only_img f ?f2" using B T1 only_img_trans by blast
  note b2 = only_img_fields[OF B1]
  have len: "length (encode_superblock (fmt_superblock f)) = 64"
    by (rule length_encode_superblock) (simp add: fmt_superblock_def POND_MAGIC_def)
  then have lsb: "length ?sb = 4096" by simp
  have fin: "finalize f = fmt_write_block 0 ?sb ?f2"
    unfolding finalize_def Let_def using b2(3) len by (simp add: BLOCK_SIZE_def)
  show "only_img f (finalize f)" unfolding fin using B1 only_img_write only_img_trans by blast
  have R: "mem_read (f_img (finalize f)) (b * 4096) 4096 = (if b = 0 then ?sb else mem_read (f_img ?f2) (b * 4096) 4096)" for b
    unfolding fin by (rule fmt_write_block_read[OF lsb])
  show "mem_read (f_img (finalize f)) 0 4096 = ?sb" using R[of 0] by simp
  show "mem_read (f_img (finalize f)) ((f_bitmap_start f + k) * 4096) 4096 = take 4096 (drop (k * 4096) (f_bitmap f))"
    if "k < f_bitmap_blocks f"
    using R[of "f_bitmap_start f + k"] B that geo(1) by (simp add: geo_ok_def fmt_superblock_def del: distrib_right_numeral)
  show "mem_read (f_img (finalize f)) ((f_inode_table_start f + k) * 4096) 4096 = table_block (f_inodes f) k"
    if "k < f_inode_table_blocks f"
    using R[of "f_inode_table_start f + k"] B T that geo(1) by (simp add: geo_ok_def fmt_superblock_def del: distrib_right_numeral)
qed

section \<open>Mounting the image\<close>

lemma mem_read_append: "mem_read m a n @ mem_read m (a + n) k = mem_read m a (n + k)"
  by (rule nth_equalityI) (auto simp: nth_append)

lemma read_bitmap_ok:
  assumes laws: "disk_laws D img"
  shows "read_bitmap D start i n d = Some (Inr bs, d') \<Longrightarrow> bs = mem_read (img d) ((start + i) * 4096) (n * 4096) \<and> img d' = img d"
proof (induction n arbitrary: i d bs)
  case 0
  then show ?case by (simp add: io_simps mem_read_def)
next
  case (Suc n)
  obtain b d1 rest where r: "read_block D (start + i) d = Some (Inr b, d1)" "read_bitmap D start (i + 1) n d1 = Some (Inr rest, d')"
      "bs = b @ rest" using Suc.prems by (auto simp: ok_simps checked_simps)
  note b = read_block_ok[OF laws r(1)] and IH = Suc.IH[OF r(2)]
  have "b @ rest = mem_read (img d) ((start + i) * 4096) (4096 + n * 4096)"
    using b IH mem_read_append[of "img d" "(start + i) * 4096" 4096 "n * 4096"] by (simp add: algebra_simps)
  then show ?case using r(3) b IH by simp
qed

lemma mem_read_blocks:
  assumes "\<And>k. k < n \<Longrightarrow> mem_read m ((s + k) * 4096) 4096 = take 4096 (drop (k * 4096) bm)" and "length bm = n * 4096"
  shows "mem_read m (s * 4096) (n * 4096) = bm"
proof (rule nth_equalityI)
  show "length (mem_read m (s * 4096) (n * 4096)) = length bm" using assms(2) by simp
  fix j assume "j < length (mem_read m (s * 4096) (n * 4096))"
  then have j: "j < n * 4096" by simp
  let ?k = "j div 4096" and ?r = "j mod 4096"
  have k: "?k < n" using j by (simp add: less_mult_imp_div_less)
  have jj: "j = ?k * 4096 + ?r" by simp
  have "mem_read m ((s + ?k) * 4096) 4096 ! ?r = bm ! (?k * 4096 + ?r)"
    unfolding assms(1)[OF k] using j assms(2) by simp
  then have "m ((s + ?k) * 4096 + ?r) = bm ! j" using jj by simp
  moreover have "(s + ?k) * 4096 + ?r = s * 4096 + j" using jj by (simp add: algebra_simps)
  ultimately show "mem_read m (s * 4096) (n * 4096) ! j = bm ! j" using j by (simp add: add.commute)
qed

lemma formatted_inode:
  assumes ok: "fmt_ok f" and i: "i < length (f_inodes f)"
  shows "mem_read (f_img (finalize f)) (f_inode_table_start f * 4096 + i * 128) 128 = encode_inode (f_inodes f ! i)"
proof -
  let ?m = "f_img (finalize f)" and ?b = "f_inode_table_start f + i div 32"
  have d: "length (direct r) = 12" if "r \<in> set (f_inodes f)" for r
    using that ok by (simp add: fmt_ok_def fmt_inode_ok_def direct_ok_def)
  have "i < f_inode_table_blocks f * 32" using ok i by (simp add: fmt_ok_def geometry_ok_def)
  then have k: "i div 32 < f_inode_table_blocks f" by (simp add: less_mult_imp_div_less)
  have "mem_read ?m (f_inode_table_start f * 4096 + i * 128) 128 = mem_read ?m (?b * 4096 + i mod 32 * 128) 128"
    unfolding inode_slot ..
  also have "\<dots> = take 128 (drop (i mod 32 * 128) (mem_read ?m (?b * 4096) 4096))"
    using slot_in_block[of i] by (simp add: mem_read_slice)
  also have "\<dots> = encode_inode (f_inodes f ! (i div 32 * 32 + i mod 32))"
    unfolding finalize_ok(4)[OF ok k] by (rule table_block_ok(2)[OF d]) (use i in simp_all)
  finally show ?thesis by simp
qed

lemma load_inode_Inr:
  assumes laws: "disk_laws D img" and "load_inode D ino fs = Some (Inr i, fs')"
  shows "\<exists>d'. img d' = img (fs_dev fs) \<and> i = length (fs_states fs) \<and>
    fs' = fs\<lparr>fs_dev := d', fs_states := fs_states fs @ [\<lparr>st_ino = ino, st_raw = disk_inode img fs ino\<rparr>]\<rparr>"
proof -
  let ?raw = "\<lambda>b. decode_inode (take INODE_SIZE (drop (ino mod INODES_PER_BLOCK * INODE_SIZE) b))"
  have "\<not> (ino = 0 \<or> inode_count (fs_sb fs) \<le> ino)" using assms(2) by (auto simp: load_inode_def Let_def io_err_eq split: if_splits)
  then obtain blk b d' where q: "u64_add (inode_table_start (fs_sb fs)) (ino div INODES_PER_BLOCK) = Some blk"
      "read_block D blk (fs_dev fs) = Some (Inr b, d')" "i = length (fs_states fs)"
      "fs' = fs\<lparr>fs_dev := d', fs_states := fs_states fs @ [\<lparr>st_ino = ino, st_raw = ?raw b\<rparr>]\<rparr>"
    using assms(2) unfolding load_inode_def Let_def by (simp add: ok_simps) (elim exE conjE, hypsubst, simp)
  have blk: "blk = inode_table_start (fs_sb fs) + ino div 32" using q(1)
    by (simp add: u64_add_def INODES_PER_BLOCK_def BLOCK_SIZE_def INODE_SIZE_def split: if_splits)
  note b = read_block_ok[OF laws q(2)[unfolded blk]]
  have "take 128 (drop (ino mod 32 * 128) b) = mem_read (img (fs_dev fs)) (inode_addr (fs_sb fs) ino) 128"
    unfolding b(1) inode_addr_def mem_read_slice[OF slot_in_block] inode_slot ..
  then have "?raw b = disk_inode img fs ino" by (simp add: disk_inode_def INODES_PER_BLOCK_def BLOCK_SIZE_def INODE_SIZE_def)
  then show ?thesis using q(3,4) b(2) by metis
qed

lemma mount_tail:
  assumes "read_block D 0 d = Some (Inr b, d1)" and "pond_mount D d = Some (Inr (root, fs), d')"
  shows "\<exists>bm d2 fs2. read_bitmap D (bitmap_start (decode_superblock b)) 0 (bitmap_blocks (decode_superblock b)) d1 = Some (Inr bm, d2) \<and>
    load_inode D ROOT_INO \<lparr>fs_dev = d2, fs_sb = decode_superblock b, fs_bitmap = bm, inode_cache = Map.empty, fs_states = []\<rparr> =
      Some (Inr root, fs2) \<and> fs = fs2\<lparr>inode_cache := (inode_cache fs2)(ROOT_INO \<mapsto> root)\<rparr>"
proof -
  let ?sb = "decode_superblock b"
  let ?fs = "\<lambda>bm d2. \<lparr>fs_dev = d2, fs_sb = ?sb, fs_bitmap = bm, inode_cache = Map.empty, fs_states = []\<rparr>"
  obtain bm d2 where r: "read_bitmap D (bitmap_start ?sb) 0 (bitmap_blocks ?sb) d1 = Some (Inr bm, d2)"
      "(case load_inode D ROOT_INO (?fs bm d2) of
          None \<Rightarrow> None
        | Some (Inl e, fs) \<Rightarrow> Some (Inl e, fs_dev fs)
        | Some (Inr root, fs) \<Rightarrow> io_ok (root, fs\<lparr>inode_cache := (inode_cache fs)(ROOT_INO \<mapsto> root)\<rparr>) (fs_dev fs)) =
       Some (Inr (root, fs), d')"
    using assms unfolding pond_mount_def by (auto simp: ok_simps Let_def split: if_splits)
  then show ?thesis by (fastforce simp: io_ok_eq split: option.splits sum.splits prod.splits)
qed

lemma pond_mount_Inr:
  assumes laws: "disk_laws D img" and "pond_mount D d = Some (Inr (root, fs), d')"
  shows "\<exists>d1. img d1 = img d \<and> root = 0 \<and>
    (let sb = decode_superblock (mem_read (img d) 0 4096);
         raw = decode_inode (mem_read (img d) (inode_addr sb 1) 128) in
     fs = \<lparr>fs_dev = d1, fs_sb = sb, fs_bitmap = mem_read (img d) (bitmap_start sb * 4096) (bitmap_blocks sb * 4096),
       inode_cache = [1 \<mapsto> 0], fs_states = [\<lparr>st_ino = 1, st_raw = raw\<rparr>]\<rparr>)"
proof -
  obtain b d1 where b: "read_block D 0 d = Some (Inr b, d1)"
    using assms(2) by (auto simp: pond_mount_def ok_simps)
  note b' = read_block_ok[OF laws b]
  let ?sb = "decode_superblock b"
  let ?fs = "\<lambda>bm d2. \<lparr>fs_dev = d2, fs_sb = ?sb, fs_bitmap = bm, inode_cache = Map.empty, fs_states = []\<rparr>"
  obtain bm d2 fs2 where r: "read_bitmap D (bitmap_start ?sb) 0 (bitmap_blocks ?sb) d1 = Some (Inr bm, d2)"
      "load_inode D ROOT_INO (?fs bm d2) = Some (Inr root, fs2)" "fs = fs2\<lparr>inode_cache := (inode_cache fs2)(ROOT_INO \<mapsto> root)\<rparr>"
    using mount_tail[OF b assms(2)] by blast
  note bm = read_bitmap_ok[OF laws r(1)]
  obtain d3 where l: "img d3 = img d2" "root = 0"
      "fs2 = (?fs bm d2)\<lparr>fs_dev := d3, fs_states := [\<lparr>st_ino = ROOT_INO, st_raw = disk_inode img (?fs bm d2) ROOT_INO\<rparr>]\<rparr>"
    using load_inode_Inr[OF laws r(2)] by auto
  show ?thesis using l r(3) bm b' by (auto simp: disk_inode_def ROOT_INO_def Let_def)
qed

lemma mount_formatted:
  assumes laws: "disk_laws D img" and ok: "fmt_ok f" and d: "img d = f_img (finalize f)"
    and run: "pond_mount D d = Some (Inr (root, fs), d')"
  shows "root = 0" and "fs_sb fs = fmt_superblock f" and "fs_bitmap fs = f_bitmap f" and "inode_cache fs = [1 \<mapsto> 0]"
    and "fs_states fs = [\<lparr>st_ino = 1, st_raw = f_inodes f ! 1\<rparr>]" and "img (fs_dev fs) = f_img (finalize f)"
    and "fs_ok img fs" and "i < length (f_inodes f) \<Longrightarrow> disk_inode img fs i = f_inodes f ! i"
    and "used fs b \<longleftrightarrow> fmt_used f b"
proof -
  have sb: "decode_superblock (mem_read (img d) 0 4096) = fmt_superblock f"
    unfolding d finalize_ok(2)[OF ok] by (rule superblock_roundtrip[OF fmt_superblock_bounded[OF ok]])
  have geo: "geo_ok (fmt_superblock f)" "length (f_bitmap f) = f_bitmap_blocks f * 4096" "1 < length (f_inodes f)"
    using ok by (simp_all add: fmt_ok_def geometry_ok_def)
  have bm: "mem_read (img d) (f_bitmap_start f * 4096) (f_bitmap_blocks f * 4096) = f_bitmap f"
    unfolding d by (rule mem_read_blocks[OF finalize_ok(3)[OF ok] geo(2)])
  have ino: "decode_inode (mem_read (img d) (inode_addr (fmt_superblock f) i) 128) = f_inodes f ! i" if "i < length (f_inodes f)" for i
  proof -
    have "inode_bounded (f_inodes f ! i)" using ok that by (simp add: fmt_ok_def fmt_inode_ok_def)
    then show ?thesis
      unfolding d inode_addr_def using formatted_inode[OF ok that] by (simp add: fmt_superblock_def inode_roundtrip)
  qed
  obtain d1 where m: "img d1 = img d" "root = 0" "fs = \<lparr>fs_dev = d1, fs_sb = fmt_superblock f, fs_bitmap = f_bitmap f,
       inode_cache = [1 \<mapsto> 0], fs_states = [\<lparr>st_ino = 1, st_raw = f_inodes f ! 1\<rparr>]\<rparr>"
    using pond_mount_Inr[OF laws run] bm ino[OF geo(3)] by (auto simp: Let_def sb fmt_superblock_def)
  show "root = 0" "fs_sb fs = fmt_superblock f" "fs_bitmap fs = f_bitmap f" "inode_cache fs = [1 \<mapsto> 0]"
    "fs_states fs = [\<lparr>st_ino = 1, st_raw = f_inodes f ! 1\<rparr>]" "img (fs_dev fs) = f_img (finalize f)"
    using m d by simp_all
  have "img d1 (f_bitmap_start f * 4096 + j) = f_bitmap f ! j" if "j < length (f_bitmap f)" for j
    using arg_cong[OF bm, of "\<lambda>xs. xs ! j"] that geo(2) m(1) by simp
  then show "fs_ok img fs" using geo m(3) by (simp add: fs_ok_def synced_def fmt_superblock_def)
  show "disk_inode img fs i = f_inodes f ! i" if "i < length (f_inodes f)"
    using ino[OF that] m(1,3) by (simp add: disk_inode_def)
  show "used fs b \<longleftrightarrow> fmt_used f b" using m(3) by (simp add: used_def fmt_used_def fmt_superblock_def)
qed

lemma mkpondfs_ok:
  assumes "mkpondfs disk nbytes src = Some g" and "nbytes < 2 ^ 64"
  shows "\<exists>f. fmt_ok f \<and> g = finalize f \<and> length (f_inodes f) = 64 \<and> f_total_blocks f * 4096 \<le> nbytes \<and> f_data_start f \<le> f_total_blocks f"
proof -
  obtain f0 f where r: "formatter_new disk nbytes 64 = Some f0" "visit ROOT_INO src (set_kind ROOT_INO INODE_KIND_DIR f0) = Some f" "g = finalize f"
    using assms(1) by (auto simp: mkpondfs_def split: bind_splits)
  note n = formatter_new_ok[OF r(1) assms(2)]
  have l: "length (f_inodes f0) = 64" using n(1,2) by (simp add: fmt_ok_def geometry_ok_def)
  have k: "fmt_ok (set_kind ROOT_INO INODE_KIND_DIR f0) \<and> same_geometry f0 (set_kind ROOT_INO INODE_KIND_DIR f0)"
    by (rule set_kind_ok) (use n(1) l in \<open>simp_all add: ROOT_INO_def INODE_KIND_DIR_def\<close>)
  then have v: "fmt_ok f \<and> same_geometry (set_kind ROOT_INO INODE_KIND_DIR f0) f" using visit_ok(1)[OF _ r(2)] by blast
  then have g: "same_geometry f0 f" using k same_geometry_trans by blast
  then have "length (f_inodes f) = 64" using l by (simp add: same_geometry_def)
  then show ?thesis using v r(3) n(3,4) same_geometry_fields[OF g] by auto
qed

section \<open>The mount succeeds\<close>

text \<open>A device of \<open>n\<close> bytes that serves every read within its size.\<close>

definition serves :: "'d block_dev \<Rightarrow> nat \<Rightarrow> bool" where
  "serves D n \<longleftrightarrow> (\<forall>lba k d. lba * block_size D + k \<le> n \<longrightarrow> (\<exists>bs d'. read_blocks D lba k d = Some (Inr bs, d')))"

lemma read_block_serves:
  assumes laws: "disk_laws D img" and "serves D n" and "b * 4096 + 4096 \<le> n" and "n < 2 ^ 64"
  shows "\<exists>bs d'. read_block D b d = Some (Inr bs, d')"
proof -
  have bs: "0 < block_size D" using laws by (simp add: disk_laws_def)
  have "b * (4096 div block_size D) \<le> b * 4096" by (intro mult_le_mono) simp_all
  then have "b * (4096 div block_size D) < 2 ^ 64" using assms(3,4) by linarith
  then have lba: "Option.bind (lbas_per_block D) (u64_mul b) = Some (b * (4096 div block_size D))"
    using bs by (simp add: lbas_per_block_def BLOCK_SIZE_def u64_mul_def)
  have "b * (4096 div block_size D) * block_size D + 4096 \<le> n" unfolding block_lba[OF laws lba] by (rule assms(3))
  then obtain bs' d' where "read_blocks D (b * (4096 div block_size D)) 4096 d = Some (Inr bs', d')"
    using assms(2) unfolding serves_def by blast
  then show ?thesis using lba by (simp add: read_block_def io_simps io_map_err_def BLOCK_SIZE_def)
qed

lemma read_bitmap_serves:
  assumes laws: "disk_laws D img" and "serves D n" and "n < 2 ^ 64"
  shows "(start + i + k) * 4096 \<le> n \<Longrightarrow> \<exists>bs d'. read_bitmap D start i k d = Some (Inr bs, d')"
proof (induction k arbitrary: i d)
  case 0
  then show ?case by (simp add: io_ok_def)
next
  case (Suc k)
  have e: "(start + i) * 4096 + 4096 \<le> n" "(start + (i + 1) + k) * 4096 \<le> n" using Suc.prems by simp_all
  obtain b d1 where b: "read_block D (start + i) d = Some (Inr b, d1)" using read_block_serves[OF laws assms(2) e(1) assms(3)] by blast
  obtain rest d2 where r: "read_bitmap D start (i + 1) k d1 = Some (Inr rest, d2)" using Suc.IH[OF e(2)] by blast
  have "u64_add start i = Some (start + i)" using e(1) assms(3) by (simp add: u64_add_def)
  then show ?case using b r by (simp add: io_simps)
qed

lemma mount_serves:
  assumes laws: "disk_laws D img" and ok: "fmt_ok f" and d: "img d = f_img (finalize f)" and sv: "serves D n" and n: "n < 2 ^ 64"
    and fits: "f_data_start f * 4096 \<le> n"
  shows "\<exists>fs d'. pond_mount D d = Some (Inr (0, fs), d')"
proof -
  let ?sb = "fmt_superblock f"
  have geo: "geo_ok ?sb" "1 < f_inode_count f" "f_inode_count f \<le> f_inode_table_blocks f * 32" "f_bitmap_blocks f < 2 ^ 50"
    using ok by (simp_all add: fmt_ok_def geometry_ok_def)
  have g: "0 < f_bitmap_start f" "f_bitmap_start f + f_bitmap_blocks f \<le> f_inode_table_start f"
      "f_inode_table_start f + f_inode_table_blocks f \<le> f_data_start f" "0 < f_inode_table_blocks f"
    using geo by (auto simp: geo_ok_def fmt_superblock_def)
  obtain b d1 where b: "read_block D 0 d = Some (Inr b, d1)" using read_block_serves[OF laws sv, of 0 d] n fits g by auto
  have sb: "decode_superblock b = ?sb"
    unfolding read_block_ok[OF laws b] using d finalize_ok(2)[OF ok] superblock_roundtrip[OF fmt_superblock_bounded[OF ok]] by simp
  have "(f_bitmap_start f + 0 + f_bitmap_blocks f) * 4096 \<le> n" using g fits by simp
  from read_bitmap_serves[OF laws sv n this]
  obtain bm d2 where bm: "read_bitmap D (f_bitmap_start f) 0 (f_bitmap_blocks f) d1 = Some (Inr bm, d2)" by blast
  have "f_inode_table_start f * 4096 + 4096 \<le> n" using g fits by linarith
  from read_block_serves[OF laws sv this n]
  obtain t d3 where t: "read_block D (f_inode_table_start f) d2 = Some (Inr t, d3)" by blast
  have chk: "u64_mul (f_bitmap_blocks f) BLOCK_SIZE = Some (f_bitmap_blocks f * 4096)"
      "u64_add (f_inode_table_start f) 0 = Some (f_inode_table_start f)"
    using geo(4) \<open>f_inode_table_start f * 4096 + 4096 \<le> n\<close> n by (simp_all add: u64_mul_def u64_add_def BLOCK_SIZE_def)
  let ?fs = "\<lparr>fs_dev = d2, fs_sb = ?sb, fs_bitmap = bm, inode_cache = Map.empty, fs_states = []\<rparr>"
  let ?raw = "decode_inode (take INODE_SIZE (drop (ROOT_INO mod INODES_PER_BLOCK * INODE_SIZE) t))"
  have div0: "ROOT_INO div INODES_PER_BLOCK = 0" by (simp add: ROOT_INO_def INODES_PER_BLOCK_def BLOCK_SIZE_def INODE_SIZE_def)
  have "\<not> (ROOT_INO = 0 \<or> f_inode_count f \<le> ROOT_INO)" using geo(2) by (simp add: ROOT_INO_def)
  then have "load_inode D ROOT_INO ?fs = Some (Inr 0, ?fs\<lparr>fs_dev := d3, fs_states := [\<lparr>st_ino = ROOT_INO, st_raw = ?raw\<rparr>]\<rparr>)"
    using t chk(2) by (simp add: load_inode_def io_simps on_dev_def div0 fmt_superblock_def)
  then have "\<exists>fs. pond_mount D d = Some (Inr (0, fs), d3)"
    using b bm chk(1) by (simp add: pond_mount_def io_simps Let_def sb) (simp add: fmt_superblock_def io_ok_def)
  then show ?thesis by blast
qed

lemma finalize_fields:
  assumes "fmt_ok f"
  shows "f_inodes (finalize f) = f_inodes f" "f_bitmap (finalize f) = f_bitmap f" "fmt_superblock (finalize f) = fmt_superblock f"
  using only_img_fields[OF finalize_ok(1)[OF assms]] by (simp_all add: fmt_superblock_def)

text \<open>
  C34. What \<open>mkpondfs\<close> writes, the driver mounts. On a device that serves the whole image, \<open>PondFs::mount\<close> succeeds and
  yields a file system in a consistent state whose superblock, bitmap and 64 inodes are the formatter's; the root is a directory;
  every block of an inode lies in the data area and is marked used; no block belongs to two inodes.
\<close>

theorem mkpondfs_mounts:
  assumes "disk_laws D img" and "serves D nbytes" and "nbytes < 2 ^ 64" and "mkpondfs disk nbytes src = Some g" and "img d = f_img g"
  shows "\<exists>fs d'. pond_mount D d = Some (Inr (0, fs), d') \<and> fs_ok img fs \<and> fs_sb fs = fmt_superblock g \<and> fs_bitmap fs = f_bitmap g \<and>
    raw_of 0 fs = f_inodes g ! 1 \<and> length (f_inodes g) = 64 \<and>
    (\<forall>i < 64. disk_inode img fs i = f_inodes g ! i \<and> inode_ok fs (f_inodes g ! i)) \<and>
    (\<forall>i < 64. \<forall>j < 64. i \<noteq> j \<longrightarrow> set (direct (f_inodes g ! i)) \<inter> set (direct (f_inodes g ! j)) \<subseteq> {0})"
proof -
  obtain f where f: "fmt_ok f" "g = finalize f" "length (f_inodes f) = 64" "f_total_blocks f * 4096 \<le> nbytes" "f_data_start f \<le> f_total_blocks f"
    using mkpondfs_ok[OF assms(4,3)] by blast
  have d: "img d = f_img (finalize f)" using assms(5) f(2) by simp
  note g = finalize_fields[OF f(1), folded f(2)]
  have "f_data_start f * 4096 \<le> nbytes" using f(4,5) by linarith
  from mount_serves[OF assms(1) f(1) d assms(2,3) this]
  obtain fs d' where run: "pond_mount D d = Some (Inr (0, fs), d')" by blast
  note m = mount_formatted[OF assms(1) f(1) d run]
  have "fmt_inode_ok f (f_inodes f ! i)" if "i < 64" for i
    using f(1,3) that by (simp add: fmt_ok_def)
  then have "inode_ok fs (f_inodes f ! i)" if "i < 64" for i
    using that m(9) by (simp add: fmt_inode_ok_def inode_ok_def)
  moreover have "set (direct (f_inodes f ! i)) \<inter> set (direct (f_inodes f ! j)) \<subseteq> {0}" if "i < 64" "j < 64" "i \<noteq> j" for i j
    using f(1,3) that by (simp add: fmt_ok_def)
  ultimately show ?thesis using run m(2,3,5,7,8) f(3) by (intro exI[of _ fs] exI[of _ d']) (simp add: g raw_of_def)
qed

lemma ram_disk_serves: "serves ram_disk n"
  by (simp add: serves_def ram_disk_def io_ok_def)

lemma demo_format: "\<exists>g. mkpondfs (\<lambda>_. 0) 262144 [] = Some g"
proof -
  obtain f where f: "formatter_new (\<lambda>_. 0) 262144 64 = Some f" "length (f_inodes f) = 64"
    by (simp add: formatter_new_def Let_def BLOCK_SIZE_def)
  then show ?thesis
    by (simp add: mkpondfs_def write_directory_def write_file_bytes_def write_chunks.simps serialize_entries_def div_ceil_def
        set_kind_def ROOT_INO_def)
qed

theorem mkpondfs_mounts_witness:
  "\<exists>g fs. mkpondfs (\<lambda>_. 0) 262144 [] = Some g \<and> (\<exists>d'. pond_mount ram_disk (f_img g) = Some (Inr (0, fs), d')) \<and>
     fs_ok (\<lambda>m. m) fs \<and> raw_of 0 fs = f_inodes g ! 1"
proof -
  obtain g where g: "mkpondfs (\<lambda>_. 0) 262144 [] = Some g" using demo_format by blast
  obtain fs d' where fs: "pond_mount ram_disk (f_img g) = Some (Inr (0, fs), d')" "fs_ok (\<lambda>m. m) fs" "raw_of 0 fs = f_inodes g ! 1"
    using mkpondfs_mounts[OF ram_disk_laws ram_disk_serves _ g, of "f_img g"] by auto
  show ?thesis using g fs by blast
qed

end
