(* ===== verification/Context_Switch.thy ===== *)
theory Context_Switch
  imports Byte_Codec "HOL-Library.Monad_Syntax"
begin

text \<open>
  The assembly routines of the kernel as lists of instructions: \<open>switch_context\<close> (\<open>sched/mod.rs\<close>), the
  system call entry stub and the MSR set-up (\<open>arch/x86_64/syscall.rs\<close>), the segment selectors
  (\<open>arch/x86_64/gdt.rs\<close>), and the initial stacks of \<open>spawn_idle\<close> and \<open>spawn_user\<close> (\<open>sched/task.rs\<close>).
  \<open>exec\<close> gives the instructions the meaning of the architecture manuals. The routine that the stub
  calls is an argument; a call leaves the stack pointer where it was, and everything below it is the callee's.
\<close>

section \<open>The processor\<close>

datatype reg = RAX | RBX | RCX | RDX | RSI | RDI | RBP | RSP | R8 | R9 | R10 | R11 | R12 | R13 | R14 | R15

record cpu =
  gpr :: "reg \<Rightarrow> u64"
  rip :: u64
  rflags :: u64
  cs_sel :: u64
  ss_sel :: u64
  kmem :: memory
  SYSCALL_STACK_TOP :: u64
  USER_RSP_SCRATCH :: u64
  msr_efer :: u64
  msr_star :: u64
  msr_lstar :: u64
  msr_fmask :: u64

datatype instr =
    Push reg
  | Pop reg
  | Mov reg reg
  | StoreAtRdi reg
  | SaveUserRsp
  | LoadStackTop
  | AlignRsp
  | PushUserRsp
  | AddRsp u64
  | Call
  | Ret
  | Iretq
  | Sysretq

definition set_gpr :: "reg \<Rightarrow> u64 \<Rightarrow> cpu \<Rightarrow> cpu" where
  "set_gpr r v c = c\<lparr>gpr := (gpr c)(r := v)\<rparr>"

definition read64 :: "memory \<Rightarrow> u64 \<Rightarrow> u64" where
  "read64 m a = le_to_word (mem_read m (unat a) 8)"

definition write64 :: "u64 \<Rightarrow> u64 \<Rightarrow> memory \<Rightarrow> memory" where
  "write64 a v m = mem_write m (unat a) (word_to_le 8 v)"

definition push :: "u64 \<Rightarrow> cpu \<Rightarrow> cpu" where
  "push v c = (let sp = gpr c RSP - 8 in (set_gpr RSP sp c)\<lparr>kmem := write64 sp v (kmem c)\<rparr>)"

definition top64 :: "cpu \<Rightarrow> u64" where
  "top64 c = read64 (kmem c) (gpr c RSP)"

definition drop64 :: "cpu \<Rightarrow> cpu" where
  "drop64 c = set_gpr RSP (gpr c RSP + 8) c"

text \<open>\<open>iretq\<close> pops RIP, CS, RFLAGS, RSP and SS. \<open>sysretq\<close> takes RIP from RCX and the flags from R11, with
  the bits RF, VM and the reserved ones cleared and bit 1 set, and the selectors from STAR.\<close>

fun exec :: "(cpu \<Rightarrow> cpu) \<Rightarrow> instr \<Rightarrow> cpu \<Rightarrow> cpu" where
  "exec D (Push r) c = push (gpr c r) c"
| "exec D (Pop r) c = set_gpr r (top64 c) (drop64 c)"
| "exec D (Mov r s) c = set_gpr r (gpr c s) c"
| "exec D (StoreAtRdi r) c = c\<lparr>kmem := write64 (gpr c RDI) (gpr c r) (kmem c)\<rparr>"
| "exec D SaveUserRsp c = c\<lparr>USER_RSP_SCRATCH := gpr c RSP\<rparr>"
| "exec D LoadStackTop c = set_gpr RSP (SYSCALL_STACK_TOP c) c"
| "exec D AlignRsp c = set_gpr RSP (gpr c RSP AND - 16) c"
| "exec D PushUserRsp c = push (USER_RSP_SCRATCH c) c"
| "exec D (AddRsp n) c = set_gpr RSP (gpr c RSP + n) c"
| "exec D Call c = D c"
| "exec D Ret c = (drop64 c)\<lparr>rip := top64 c\<rparr>"
| "exec D Iretq c =
     (let sp = gpr c RSP; m = kmem c in
      (set_gpr RSP (read64 m (sp + 24)) c)
        \<lparr>rip := read64 m sp, cs_sel := read64 m (sp + 8), rflags := read64 m (sp + 16), ss_sel := read64 m (sp + 32)\<rparr>)"
| "exec D Sysretq c =
     (let base = drop_bit 48 (msr_star c) in
      c\<lparr>rip := gpr c RCX, rflags := (gpr c R11 AND 0x3C7FD7) OR 2,
        cs_sel := ((base + 16) AND 0xFFFF) OR 3, ss_sel := ((base + 8) AND 0xFFFF) OR 3\<rparr>)"

fun run :: "(cpu \<Rightarrow> cpu) \<Rightarrow> instr list \<Rightarrow> cpu \<Rightarrow> cpu" where
  "run D [] c = c"
| "run D (i # is) c = run D is (exec D i c)"

text \<open>The instruction \<open>syscall\<close>.\<close>

definition syscall_instr :: "cpu \<Rightarrow> cpu" where
  "syscall_instr c =
     (let star = msr_star c; kcs = drop_bit 32 star AND 0xFFFC in
      c\<lparr>gpr := (gpr c)(RCX := rip c, R11 := rflags c), rip := msr_lstar c,
        rflags := rflags c AND NOT (msr_fmask c), cs_sel := kcs, ss_sel := kcs + 8\<rparr>)"

section \<open>Segment selectors\<close>

text \<open>The table type belongs to the crate \<open>x86_64\<close>: \<open>append\<close> returns a selector. What is relied on is that the
  selector holds the index of the descriptor and its privilege level.\<close>

datatype Descriptor = kernel_code_segment | kernel_data_segment | user_data_segment | user_code_segment | tss_segment

record 'g gdt_api =
  gdt_new :: 'g
  gdt_append :: "Descriptor \<Rightarrow> 'g \<Rightarrow> u16 \<times> 'g"

record Selectors =
  sel_kernel_code :: u16
  sel_kernel_data :: u16
  sel_user_data :: u16
  sel_user_code :: u16
  sel_tss :: u16

definition gdt_selectors :: "'g gdt_api \<Rightarrow> Selectors" where
  "gdt_selectors G =
     (let (kc, g1) = gdt_append G kernel_code_segment (gdt_new G);
          (kd, g2) = gdt_append G kernel_data_segment g1;
          (ud, g3) = gdt_append G user_data_segment g2;
          (uc, g4) = gdt_append G user_code_segment g3;
          (ts, g5) = gdt_append G tss_segment g4 in
      \<lparr>sel_kernel_code = kc, sel_kernel_data = kd, sel_user_data = ud, sel_user_code = uc, sel_tss = ts\<rparr>)"

definition EFER_SCE :: u64 where "EFER_SCE = 1"

text \<open>\<open>syscall::init_bsp\<close>; \<open>entry\<close> is the address of the stub. The subtraction is checked.\<close>

definition syscall_init_bsp :: "Selectors \<Rightarrow> u64 \<Rightarrow> cpu \<Rightarrow> cpu may_stop" where
  "syscall_init_bsp sel entry c =
     (let kernel_cs = ucast (sel_kernel_code sel) :: u64; ud = ucast (sel_user_data sel) :: u64 in
      if ud < 8 then None
      else Some (c\<lparr>msr_efer := msr_efer c OR EFER_SCE,
        msr_star := push_bit 32 kernel_cs OR push_bit 48 (ud - 8),
        msr_lstar := entry, msr_fmask := 0x40700\<rparr>))"

section \<open>The routines\<close>

definition callee_saved :: "reg list" where
  "callee_saved = [RBX, RBP, R12, R13, R14, R15]"

definition switch_context :: "instr list" where
  "switch_context =
     [Push RBX, Push RBP, Push R12, Push R13, Push R14, Push R15,
      StoreAtRdi RSP, Mov RSP RSI,
      Pop R15, Pop R14, Pop R13, Pop R12, Pop RBP, Pop RBX, Ret]"

text \<open>The switch with no task to save: the compiler chooses the register that holds the new stack pointer, here RAX.\<close>

definition resume_context :: "instr list" where
  "resume_context = [Mov RSP RAX, Pop R15, Pop R14, Pop R13, Pop R12, Pop RBP, Pop RBX, Ret]"

definition enter_user :: "instr list" where
  "enter_user = [Iretq]"

definition syscall_prologue :: "instr list" where
  "syscall_prologue =
     [SaveUserRsp, LoadStackTop, AlignRsp, PushUserRsp,
      Push RCX, Push R11,
      Push RDI, Push RSI, Push RDX, Push R10, Push R8, Push R9,
      Push RBX, Push RBP, Push R12, Push R13, Push R14, Push R15,
      Mov RCX R10, Push RAX]"

definition syscall_epilogue :: "instr list" where
  "syscall_epilogue =
     [AddRsp 8,
      Pop R15, Pop R14, Pop R13, Pop R12, Pop RBP, Pop RBX,
      Pop R9, Pop R8, Pop R10, Pop RDX, Pop RSI, Pop RDI,
      Pop R11, Pop RCX, Pop RSP, Sysretq]"

definition syscall_entry :: "instr list" where
  "syscall_entry = syscall_prologue @ [Call] @ syscall_epilogue"

section \<open>Initial stacks\<close>

text \<open>\<open>push_words\<close> writes words at descending addresses below \<open>sp\<close>, as the code does with \<open>sp -= 8\<close>; the
  subtraction is checked.\<close>

fun push_words :: "u64 list \<Rightarrow> u64 \<Rightarrow> memory \<Rightarrow> (u64 \<times> memory) may_stop" where
  "push_words [] sp m = Some (sp, m)"
| "push_words (w # ws) sp m = (if sp < 8 then None else push_words ws (sp - 8) (write64 (sp - 8) w m))"

definition idle_stack :: "u64 \<Rightarrow> u64 \<Rightarrow> memory \<Rightarrow> (u64 \<times> memory) may_stop" where
  "idle_stack entry tos = push_words (entry # replicate 6 0) tos"

definition user_rflags :: u64 where "user_rflags = 0x202"

definition user_stack :: "Selectors \<Rightarrow> u64 \<Rightarrow> u64 \<Rightarrow> u64 \<Rightarrow> u64 \<Rightarrow> memory \<Rightarrow> (u64 \<times> memory) may_stop" where
  "user_stack sel enter_user_addr entry_user stack_user tos =
     push_words ([ucast (sel_user_data sel) OR 3, stack_user, user_rflags, ucast (sel_user_code sel) OR 3, entry_user,
       enter_user_addr] @ replicate 6 0) tos"

section \<open>Runs of pushes and pops\<close>

lemma run_append: "run D (is @ js) c = run D js (run D is c)"
  by (induction "is" arbitrary: c) auto

lemma read_write64: "unat a + 8 \<le> 2 ^ 64 \<Longrightarrow> read64 (write64 a v m) a = v"
  using mem_read_write_same[of m "unat a" "word_to_le 8 v"] by (simp add: read64_def write64_def)

lemma read_write64_other:
  "unat a + 8 \<le> unat b \<or> unat b + 8 \<le> unat a \<Longrightarrow> read64 (write64 b v m) a = read64 m a"
  by (simp add: read64_def write64_def mem_read_write_disjoint)

text \<open>\<open>frame m a ws\<close>: the words lie at ascending addresses from \<open>a\<close>.\<close>

fun frame :: "memory \<Rightarrow> nat \<Rightarrow> u64 list \<Rightarrow> bool" where
  "frame m a [] = True"
| "frame m a (w # ws) \<longleftrightarrow> le_to_word (mem_read m a 8) = w \<and> frame m (a + 8) ws"

lemma frame_cong: "\<forall>x. a \<le> x \<and> x < a + 8 * length ws \<longrightarrow> m' x = m x \<Longrightarrow> frame m a ws \<Longrightarrow> frame m' a ws"
proof (induction ws arbitrary: a)
  case (Cons w ws)
  have "mem_read m' a 8 = mem_read m a 8" using Cons.prems(1) by (simp add: mem_read_def)
  moreover have "frame m' (a + 8) ws" using Cons.prems by (intro Cons.IH) auto
  ultimately show ?case using Cons.prems(2) by simp
qed simp

lemma frame_append: "frame m a (us @ vs) \<longleftrightarrow> frame m a us \<and> frame m (a + 8 * length us) vs"
  by (induction us arbitrary: a) (auto simp: add.assoc)

lemma frame_write64:
  assumes "frame m (unat a + 8) ws" and "unat a + 8 * (length ws + 1) \<le> 2 ^ 64"
  shows "frame (write64 a v m) (unat a) (v # ws)"
proof -
  have "frame (write64 a v m) (unat a + 8) ws"
    by (rule frame_cong[OF _ assms(1)]) (simp add: write64_def mem_write_outside)
  then show ?thesis using mem_read_write_same[of m "unat a" "word_to_le 8 v"] by (simp add: write64_def)
qed

lemma u64_bound: "unat (a :: u64) < 2 ^ 64"
  using unsigned_less[of a] by simp

lemma unat_sub8: "8 \<le> unat a \<Longrightarrow> unat (a - 8 :: u64) = unat a - 8"
  by (simp add: unat_sub word_le_nat_alt)


definition pushes :: "u64 list \<Rightarrow> cpu \<Rightarrow> cpu" where
  "pushes ws c = foldl (\<lambda>c w. push w c) c ws"

lemma run_pushes: "RSP \<notin> set rs \<Longrightarrow> run D (map Push rs) c = pushes (map (gpr c) rs) c"
proof (induction rs arbitrary: c)
  case (Cons r rs)
  have "map (gpr (push (gpr c r) c)) rs = map (gpr c) rs" using Cons.prems by (auto simp: push_def set_gpr_def Let_def)
  then show ?case using Cons.IH[of "push (gpr c r) c"] Cons.prems by (simp add: pushes_def del: map_eq_conv)
qed (simp add: pushes_def)

lemma pushes_ok:
  assumes "8 * length ws \<le> unat (gpr c RSP)"
  shows "\<exists>sp m. pushes ws c = c\<lparr>gpr := (gpr c)(RSP := sp), kmem := m\<rparr> \<and> unat sp = unat (gpr c RSP) - 8 * length ws \<and>
    frame m (unat sp) (rev ws) \<and> (\<forall>x. x < unat sp \<or> unat (gpr c RSP) \<le> x \<longrightarrow> m x = kmem c x)"
  using assms
proof (induction ws arbitrary: c)
  case Nil
  then show ?case by (intro exI[of _ "gpr c RSP"] exI[of _ "kmem c"]) (simp add: pushes_def)
next
  case (Cons w ws)
  let ?c1 = "push w c" and ?a = "gpr c RSP - 8"
  have a: "unat ?a = unat (gpr c RSP) - 8" using Cons.prems by (intro unat_sub8) simp
  have c1: "?c1 = c\<lparr>gpr := (gpr c)(RSP := ?a), kmem := write64 ?a w (kmem c)\<rparr>" by (simp add: push_def set_gpr_def Let_def)
  have rsp1: "gpr ?c1 RSP = ?a" by (simp add: c1)
  have "8 * length ws \<le> unat (gpr ?c1 RSP)" using Cons.prems a by (simp add: c1)
  from Cons.IH[OF this, unfolded rsp1] obtain sp m where IH: "pushes ws ?c1 = ?c1\<lparr>gpr := (gpr ?c1)(RSP := sp), kmem := m\<rparr>"
      "unat sp = unat ?a - 8 * length ws" "frame m (unat sp) (rev ws)" "\<forall>x. x < unat sp \<or> unat ?a \<le> x \<longrightarrow> m x = kmem ?c1 x"
    by blast
  have "frame (write64 ?a w (kmem c)) (unat ?a) [w]" by (rule frame_write64) (use u64_bound[of "gpr c RSP"] a Cons.prems in auto)
  then have "frame m (unat ?a) [w]" by (rule frame_cong[rotated]) (use IH(4) c1 in simp)
  moreover have "unat sp + 8 * length (rev ws) = unat ?a" using IH(2) a Cons.prems by simp
  ultimately have fr: "frame m (unat sp) (rev (w # ws))" using IH(3) by (simp add: frame_append del: frame.simps)
  have out: "m x = kmem c x" if "x < unat sp \<or> unat (gpr c RSP) \<le> x" for x
  proof -
    have "unat sp \<le> unat ?a" "unat ?a + 8 = unat (gpr c RSP)" using IH(2) a Cons.prems by simp_all
    then have "m x = kmem ?c1 x" "x < unat ?a \<or> unat ?a + 8 \<le> x" using that IH(4) by auto
    then show ?thesis by (simp add: c1 write64_def mem_write_outside)
  qed
  have "pushes (w # ws) c = c\<lparr>gpr := (gpr c)(RSP := sp), kmem := m\<rparr>" using IH(1) by (simp add: pushes_def c1)
  moreover have "unat sp = unat (gpr c RSP) - 8 * length (w # ws)" using IH(2) a by simp
  ultimately show ?case using fr out by blast
qed

lemma unat_add_of_nat: "unat (a :: u64) + k < 2 ^ 64 \<Longrightarrow> unat (a + of_nat k) = unat a + k"
  by (simp add: unat_word_ariths unat_of_nat mod_simps)

lemma pops_ok:
  assumes "frame (kmem c) (unat (gpr c RSP)) ws" and "length ws = length rs" and "distinct rs" and "RSP \<notin> set rs"
    and "unat (gpr c RSP) + 8 * length rs < 2 ^ 64"
  shows "run D (map Pop rs) c =
    c\<lparr>gpr := (\<lambda>r. if r = RSP then gpr c RSP + of_nat (8 * length rs)
                  else case map_of (zip rs ws) r of Some w \<Rightarrow> w | None \<Rightarrow> gpr c r)\<rparr>"
  using assms
proof (induction rs arbitrary: c ws)
  case Nil
  then show ?case by (simp add: fun_eq_iff)
next
  case (Cons r rs)
  obtain w ws' where ws: "ws = w # ws'" using Cons.prems(2) by (cases ws) auto
  let ?c1 = "exec D (Pop r) c"
  have w: "top64 c = w" using Cons.prems(1) ws by (simp add: top64_def read64_def)
  have c1: "?c1 = c\<lparr>gpr := (gpr c)(RSP := gpr c RSP + 8, r := w)\<rparr>" by (simp add: set_gpr_def drop64_def w)
  have rsp: "gpr ?c1 RSP = gpr c RSP + 8" unfolding c1 using Cons.prems(4) by simp
  have km: "kmem ?c1 = kmem c" unfolding c1 by simp
  have u: "unat (gpr c RSP + 8) = unat (gpr c RSP) + 8" using unat_add_of_nat[of "gpr c RSP" 8] Cons.prems(5) by simp
  have "frame (kmem ?c1) (unat (gpr ?c1 RSP)) ws'" unfolding rsp u km using Cons.prems(1) ws by simp
  moreover have "unat (gpr ?c1 RSP) + 8 * length rs < 2 ^ 64" unfolding rsp u using Cons.prems(5) by simp
  ultimately have "run D (map Pop rs) ?c1 =
    ?c1\<lparr>gpr := (\<lambda>q. if q = RSP then gpr ?c1 RSP + of_nat (8 * length rs)
                  else case map_of (zip rs ws') q of Some w \<Rightarrow> w | None \<Rightarrow> gpr ?c1 q)\<rparr>"
    using Cons.prems ws by (intro Cons.IH) simp_all
  moreover have "map_of (zip rs ws') r = None" using Cons.prems(3) by (auto simp: map_of_eq_None_iff dest: set_zip_leftD)
  ultimately show ?case unfolding rsp c1 using Cons.prems(4) c1 by (simp add: ws fun_eq_iff split: option.splits)
qed


section \<open>Switching between tasks\<close>

text \<open>What \<open>switch_context\<close> touches of memory: six words below the stack pointer, and the slot RDI points to.\<close>

definition apart :: "nat \<Rightarrow> nat \<Rightarrow> nat \<Rightarrow> nat \<Rightarrow> bool" where
  "apart a n b k \<longleftrightarrow> a + n \<le> b \<or> b + k \<le> a"

definition switch_ok :: "cpu \<Rightarrow> bool" where
  "switch_ok c \<longleftrightarrow> 48 \<le> unat (gpr c RSP) \<and> unat (gpr c RSI) + 56 < 2 ^ 64 \<and> unat (gpr c RDI) + 8 \<le> 2 ^ 64 \<and>
     apart (unat (gpr c RSI)) 56 (unat (gpr c RSP) - 48) 48 \<and> apart (unat (gpr c RSI)) 56 (unat (gpr c RDI)) 8 \<and>
     apart (unat (gpr c RSP) - 48) 48 (unat (gpr c RDI)) 8"

lemma switch_split:
  "switch_context = map Push callee_saved @ [StoreAtRdi RSP, Mov RSP RSI] @ map Pop (rev callee_saved) @ [Ret]"
  by (simp add: switch_context_def callee_saved_def)

lemma switch_in:
  fixes D :: "cpu \<Rightarrow> cpu" and c :: cpu
  assumes ok: "switch_ok c" and fr: "frame (kmem c) (unat (gpr c RSI)) ws" and len: "length ws = 7"
  defines "e \<equiv> run D switch_context c"
  shows "map (gpr e) (rev callee_saved) = take 6 ws" and "gpr e RSP = gpr c RSI + 56" and "rip e = ws ! 6"
    and "read64 (kmem e) (gpr c RDI) = gpr c RSP - 48"
    and "frame (kmem e) (unat (gpr c RSP) - 48) (map (gpr c) (rev callee_saved))"
    and "\<forall>x. apart (unat (gpr c RSP) - 48) 48 x 1 \<and> apart (unat (gpr c RDI)) 8 x 1 \<longrightarrow> kmem e x = kmem c x"
proof -
  have sp: "48 \<le> unat (gpr c RSP)" and si: "unat (gpr c RSI) + 56 < 2 ^ 64" and slot: "unat (gpr c RDI) + 8 \<le> 2 ^ 64"
    and ap: "apart (unat (gpr c RSI)) 56 (unat (gpr c RSP) - 48) 48" "apart (unat (gpr c RSI)) 56 (unat (gpr c RDI)) 8"
      "apart (unat (gpr c RSP) - 48) 48 (unat (gpr c RDI)) 8"
    using ok by (simp_all add: switch_ok_def)
  have l: "length callee_saved = 6" by (simp add: callee_saved_def)
  obtain a m where p: "run D (map Push callee_saved) c = c\<lparr>gpr := (gpr c)(RSP := a), kmem := m\<rparr>"
      "unat a = unat (gpr c RSP) - 48" "frame m (unat a) (rev (map (gpr c) callee_saved))"
      "\<forall>x. x < unat a \<or> unat (gpr c RSP) \<le> x \<longrightarrow> m x = kmem c x"
    using pushes_ok[of "map (gpr c) callee_saved" c] sp run_pushes[of callee_saved D c] l by (auto simp: callee_saved_def)
  have "unat (gpr c RSP - of_nat 48) = unat (gpr c RSP) - 48" using sp by (simp add: unat_sub word_le_nat_alt)
  then have a: "a = gpr c RSP - 48" using p(2) by (simp add: word_unat_eq_iff)
  let ?m2 = "write64 (gpr c RDI) a m"
  let ?c2 = "c\<lparr>gpr := (gpr c)(RSP := gpr c RSI), kmem := ?m2\<rparr>"
  have m2: "?m2 x = m x" if "apart (unat (gpr c RDI)) 8 x 1" for x
    using that by (auto simp: write64_def apart_def mem_write_outside)
  have m2c: "?m2 x = kmem c x" if "apart (unat (gpr c RDI)) 8 x 1" "apart (unat (gpr c RSP) - 48) 48 x 1" for x
    using m2[OF that(1)] that(2) p(2,4) sp by (auto simp: apart_def)
  have fr2: "frame ?m2 (unat (gpr c RSI)) ws"
    by (rule frame_cong[OF _ fr], intro allI impI, rule m2c) (use ap len sp in \<open>auto simp: apart_def\<close>)
  then have fr6: "frame ?m2 (unat (gpr c RSI)) (take 6 ws)" "frame ?m2 (unat (gpr c RSI) + 48) [ws ! 6]"
    using len frame_append[of ?m2 "unat (gpr c RSI)" "take 6 ws" "drop 6 ws"] Cons_nth_drop_Suc[of 6 ws] by (simp_all del: frame.simps)
  have pops: "run D (map Pop (rev callee_saved)) ?c2 = ?c2\<lparr>gpr := (\<lambda>r. if r = RSP then gpr ?c2 RSP + of_nat (8 * length (rev callee_saved))
      else case map_of (zip (rev callee_saved) (take 6 ws)) r of Some w \<Rightarrow> w | None \<Rightarrow> gpr ?c2 r)\<rparr>" (is "_ = ?c3")
    by (rule pops_ok) (use fr6(1) len si in \<open>simp_all add: callee_saved_def\<close>)
  have mid: "run D [StoreAtRdi RSP, Mov RSP RSI] (c\<lparr>gpr := (gpr c)(RSP := a), kmem := m\<rparr>) = ?c2" by (simp add: set_gpr_def)
  have "e = exec D Ret ?c3" unfolding e_def switch_split run_append p(1) mid pops by simp
  moreover have "gpr ?c3 RSP = gpr c RSI + 48" by (simp add: l)
  moreover have "top64 ?c3 = ws ! 6"
    using calculation(2) fr6(2) unat_add_of_nat[of "gpr c RSI" 48] si by (simp add: top64_def read64_def)
  ultimately have e: "e = ?c3\<lparr>gpr := (gpr ?c3)(RSP := gpr c RSI + 56), rip := ws ! 6\<rparr>" by (simp add: drop64_def set_gpr_def add.commute)
  obtain w0 w1 w2 w3 w4 w5 w6 where ws: "ws = [w0, w1, w2, w3, w4, w5, w6]"
    using len by (auto simp: numeral_eq_Suc length_Suc_conv)
  show "map (gpr e) (rev callee_saved) = take 6 ws" unfolding e ws by (simp add: callee_saved_def)
  show "gpr e RSP = gpr c RSI + 56" "rip e = ws ! 6" unfolding e by simp_all
  have k: "kmem e = ?m2" unfolding e by simp
  show "read64 (kmem e) (gpr c RDI) = gpr c RSP - 48" unfolding k a by (rule read_write64[OF slot])
  have "frame ?m2 (unat a) (rev (map (gpr c) callee_saved))"
    by (rule frame_cong[OF _ p(3)], intro allI impI, rule m2) (use ap(3) p(2) l sp in \<open>auto simp: apart_def\<close>)
  then show "frame (kmem e) (unat (gpr c RSP) - 48) (map (gpr c) (rev callee_saved))" unfolding k p(2) by (simp add: rev_map)
  show "\<forall>x. apart (unat (gpr c RSP) - 48) 48 x 1 \<and> apart (unat (gpr c RDI)) 8 x 1 \<longrightarrow> kmem e x = kmem c x"
    unfolding k using m2c by blast
qed


lemma frame_exists: "\<exists>ws. length ws = n \<and> frame m a ws"
proof (induction n arbitrary: a)
  case (Suc n)
  then obtain ws where "length ws = n" "frame m (a + 8) ws" by blast
  then show ?case by (intro exI[of _ "le_to_word (mem_read m a 8) # ws"]) simp
qed simp

text \<open>
  C35. Switching away from a task and back resumes it as if \<open>switch_context\<close> had just returned: the callee-saved registers are those it
  had, the stack pointer is past the return address and execution goes on there. What must hold in between is that the
  56 bytes the task left on its stack are not overwritten.
\<close>

theorem switch_roundtrip:
  assumes "switch_ok c" and "unat (gpr c RSP) + 8 < 2 ^ 64" and "apart (unat (gpr c RSP)) 8 (unat (gpr c RDI)) 8"
    and "e = run D switch_context c" and "switch_ok d" and "gpr d RSI = read64 (kmem e) (gpr c RDI)"
    and "\<forall>x. unat (gpr c RSP) - 48 \<le> x \<and> x < unat (gpr c RSP) + 8 \<longrightarrow> kmem d x = kmem e x"
  shows "map (gpr (run D switch_context d)) callee_saved = map (gpr c) callee_saved \<and>
    gpr (run D switch_context d) RSP = gpr c RSP + 8 \<and> rip (run D switch_context d) = top64 c"
proof -
  obtain ws where ws: "length ws = 7" "frame (kmem c) (unat (gpr c RSI)) ws" using frame_exists by blast
  note s = switch_in[OF assms(1) ws(2,1), of D, folded assms(4)]
  have sp: "48 \<le> unat (gpr c RSP)" using assms(1) by (simp add: switch_ok_def)
  have ret: "kmem e x = kmem c x" if "unat (gpr c RSP) \<le> x" "x < unat (gpr c RSP) + 8" for x
    using s(6) that assms(3) sp by (auto simp: apart_def)
  have "frame (kmem e) (unat (gpr c RSP)) [top64 c]"
    by (rule frame_cong[of _ _ _ "kmem c"]) (use ret in \<open>auto simp: top64_def read64_def\<close>)
  then have "frame (kmem e) (unat (gpr c RSP) - 48) (map (gpr c) (rev callee_saved) @ [top64 c])"
    using s(5) sp by (simp add: frame_append callee_saved_def)
  then have fr: "frame (kmem d) (unat (gpr c RSP) - 48) (map (gpr c) (rev callee_saved) @ [top64 c])"
    by (rule frame_cong[rotated]) (use assms(7) sp in \<open>auto simp: callee_saved_def\<close>)
  have si: "gpr d RSI = gpr c RSP - 48" using assms(6) s(4) by simp
  have "unat (gpr c RSP - 48) = unat (gpr c RSP) - 48" using sp by (simp add: unat_sub word_le_nat_alt)
  then have "frame (kmem d) (unat (gpr d RSI)) (map (gpr c) (rev callee_saved) @ [top64 c])" using fr si by simp
  note t = switch_in[OF assms(5) this, of D]
  show ?thesis using t(1-3) si by (simp add: callee_saved_def)
qed

definition demo_cpu :: cpu where
  "demo_cpu = \<lparr>gpr = (\<lambda>_. 0)(RSP := 0x1000, RSI := 0x2000, RDI := 0x3000, RBX := 7, RAX := 3), rip = 0x400000, rflags = 0x202, cs_sel = 8, ss_sel = 16,
     kmem = (\<lambda>_. 0), SYSCALL_STACK_TOP = 0x8000, USER_RSP_SCRATCH = 0, msr_efer = 0, msr_star = 0, msr_lstar = 0, msr_fmask = 0\<rparr>"

lemma demo_switch_ok: "switch_ok demo_cpu"
  by (simp add: switch_ok_def demo_cpu_def apart_def)

theorem switch_roundtrip_witness:
  "\<exists>e d. e = run (\<lambda>c. c) switch_context demo_cpu \<and> switch_ok d \<and> gpr d RSI = read64 (kmem e) 0x3000 \<and> kmem d = kmem e \<and>
     map (gpr (run (\<lambda>c. c) switch_context d)) callee_saved = [7, 0, 0, 0, 0, 0] \<and> gpr (run (\<lambda>c. c) switch_context d) RSP = 0x1008"
proof -
  let ?e = "run (\<lambda>c. c) switch_context demo_cpu"
  obtain ws where ws: "length ws = 7" "frame (kmem demo_cpu) (unat (gpr demo_cpu RSI)) ws" using frame_exists by blast
  note s = switch_in[OF demo_switch_ok ws(2,1), of "\<lambda>c. c"]
  have rsp: "gpr ?e RSP = 0x2038" "read64 (kmem ?e) 0x3000 = 0xFD0" using s(2,4) by (simp_all add: demo_cpu_def)
  let ?d = "?e\<lparr>gpr := (gpr ?e)(RSI := 0xFD0, RDI := 0x3008)\<rparr>"
  have ok: "switch_ok ?d" using rsp by (simp add: switch_ok_def apart_def)
  have si: "gpr ?d RSI = read64 (kmem ?e) (gpr demo_cpu RDI)" using rsp by (simp add: demo_cpu_def)
  have "map (gpr (run (\<lambda>c. c) switch_context ?d)) callee_saved = map (gpr demo_cpu) callee_saved \<and>
      gpr (run (\<lambda>c. c) switch_context ?d) RSP = gpr demo_cpu RSP + 8 \<and> rip (run (\<lambda>c. c) switch_context ?d) = top64 demo_cpu"
    by (rule switch_roundtrip[OF demo_switch_ok _ _ refl ok si]) (simp_all add: demo_cpu_def apart_def)
  then have r: "map (gpr (run (\<lambda>c. c) switch_context ?d)) callee_saved = [7, 0, 0, 0, 0, 0]" "gpr (run (\<lambda>c. c) switch_context ?d) RSP = 0x1008"
    by (simp_all add: callee_saved_def demo_cpu_def)
  show ?thesis
    by (rule exI[of _ ?e], rule exI[of _ ?d]) (use ok r rsp in simp)
qed

section \<open>The first switch to a task\<close>

lemma replicate6: "replicate 6 x = [x, x, x, x, x, x]"
  by (simp add: numeral_eq_Suc)

lemma push_words_ok:
  "push_words ws sp m = Some (sp', m') \<Longrightarrow> unat sp' + 8 * length ws = unat sp \<and> frame m' (unat sp') (rev ws) \<and>
     (\<forall>x. x < unat sp' \<or> unat sp \<le> x \<longrightarrow> m' x = m x)"
proof (induction ws arbitrary: sp m)
  case (Cons w ws)
  have ge: "8 \<le> unat sp" and r: "push_words ws (sp - 8) (write64 (sp - 8) w m) = Some (sp', m')"
    using Cons.prems by (auto simp: word_less_nat_alt split: if_splits)
  have u: "unat (sp - 8) = unat sp - 8" by (rule unat_sub8[OF ge])
  note IH = Cons.IH[OF r, unfolded u]
  have "frame (write64 (sp - 8) w m) (unat (sp - 8)) [w]" by (rule frame_write64) (use u64_bound[of sp] u ge in auto)
  then have "frame m' (unat sp - 8) [w]" unfolding u by (rule frame_cong[rotated]) (use IH in simp)
  moreover have "unat sp' + 8 * length (rev ws) = unat sp - 8" using IH by simp
  ultimately have fr: "frame m' (unat sp') (rev (w # ws))" using IH by (simp add: frame_append del: frame.simps)
  have out: "m' x = m x" if "x < unat sp' \<or> unat sp \<le> x" for x
  proof -
    have "unat sp' \<le> unat sp - 8" using IH by linarith
    then have "m' x = write64 (sp - 8) w m x" "x < unat (sp - 8) \<or> unat (sp - 8) + 8 \<le> x" using IH that ge u by auto
    then show ?thesis by (simp add: write64_def mem_write_outside)
  qed
  moreover have "unat sp' + 8 * length (w # ws) = unat sp" using conjunct1[OF IH] ge by simp
  ultimately show ?case using fr by blast
qed simp


text \<open>
  C36. The stack that \<open>spawn_user\<close> prepares starts the program: the first switch to it goes to \<open>enter_user\<close>, and from there
  \<open>iretq\<close> continues at the entry point, with the user stack, the user selectors, interrupts enabled and the callee-saved
  registers zero.
\<close>

theorem spawned_user_enters:
  assumes "user_stack sel enter_addr entry ustack tos m = Some (sp, m')" and "switch_ok c" and "gpr c RSI = sp"
    and "unat tos < 2 ^ 64" and "\<forall>x. unat sp \<le> x \<and> x < unat tos \<longrightarrow> kmem c x = m' x"
    and "apart (unat sp) 96 (unat (gpr c RSP) - 48) 48" and "apart (unat sp) 96 (unat (gpr c RDI)) 8"
    and "e = run D switch_context c" and "u = run D enter_user e"
  shows "rip e = enter_addr \<and> rip u = entry \<and> gpr u RSP = ustack \<and> rflags u = user_rflags \<and>
    cs_sel u = ucast (sel_user_code sel) OR 3 \<and> ss_sel u = ucast (sel_user_data sel) OR 3 \<and>
    map (gpr u) callee_saved = replicate 6 0"
proof -
  let ?iret = "[entry, ucast (sel_user_code sel) OR 3, user_rflags, ustack, ucast (sel_user_data sel) OR 3]"
  have p: "unat sp + 96 = unat tos" "frame m' (unat sp) (replicate 6 0 @ [enter_addr] @ ?iret)"
    using push_words_ok[OF assms(1)[unfolded user_stack_def]] by simp_all
  have fr: "frame (kmem c) (unat sp) ((replicate 6 0 @ [enter_addr]) @ ?iret)"
    using frame_cong[OF _ p(2), of "kmem c"] assms(5) p(1) by simp
  then have f7: "frame (kmem c) (unat (gpr c RSI)) (replicate 6 0 @ [enter_addr])" and f5: "frame (kmem c) (unat sp + 56) ?iret"
    unfolding frame_append assms(3) by simp_all
  note s = switch_in[OF assms(2) f7, of D, folded assms(8)]
  have sp48: "48 \<le> unat (gpr c RSP)" using assms(2) by (simp add: switch_ok_def)
  have "frame (kmem e) (unat sp + 56) ?iret"
    by (rule frame_cong[OF _ f5], intro allI impI, rule mp[OF spec[OF s(6)]])
       (use assms(6,7) sp48 in \<open>auto simp: apart_def\<close>)
  moreover have "unat (sp + of_nat k) = unat sp + k" if "k \<le> 88" for k using that p(1) assms(4) by (intro unat_add_of_nat) simp
  from this[of 56] this[of 64] this[of 72] this[of 80] this[of 88]
  have "unat (sp + 56) = unat sp + 56" "unat (sp + 56 + 8) = unat sp + 64" "unat (sp + 56 + 16) = unat sp + 72"
      "unat (sp + 56 + 24) = unat sp + 80" "unat (sp + 56 + 32) = unat sp + 88"
    by (simp_all add: add.assoc)
  ultimately have "u = (set_gpr RSP ustack e)\<lparr>rip := entry, cs_sel := ucast (sel_user_code sel) OR 3, rflags := user_rflags,
      ss_sel := ucast (sel_user_data sel) OR 3\<rparr>"
    using s(2) assms(3,9) by (simp add: enter_user_def read64_def Let_def add.assoc)
  then show ?thesis using s(1,3) by (simp add: callee_saved_def set_gpr_def replicate6)
qed


theorem spawned_user_enters_witness:
  "\<exists>sp m' c. user_stack \<lparr>sel_kernel_code = 8, sel_kernel_data = 16, sel_user_data = 27, sel_user_code = 35, sel_tss = 40\<rparr> 0x100 0x400000 0x7FFFF000 0x2060 (\<lambda>_. 0)
       = Some (sp, m') \<and> kmem c = m' \<and> gpr c RSI = sp \<and> rip (run (\<lambda>c. c) enter_user (run (\<lambda>c. c) switch_context c)) = 0x400000 \<and>
     cs_sel (run (\<lambda>c. c) enter_user (run (\<lambda>c. c) switch_context c)) = 35"
proof -
  let ?sel = "\<lparr>sel_kernel_code = 8, sel_kernel_data = 16, sel_user_data = 27, sel_user_code = 35, sel_tss = 40\<rparr>"
  obtain sp m' where u: "user_stack ?sel 0x100 0x400000 0x7FFFF000 0x2060 (\<lambda>_. 0) = Some (sp, m')" "sp = 0x2000"
    by (simp add: user_stack_def replicate6)
  let ?c = "demo_cpu\<lparr>kmem := m'\<rparr>"
  have ok: "switch_ok ?c" by (simp add: switch_ok_def demo_cpu_def apart_def)
  have "rip (run (\<lambda>c. c) switch_context ?c) = 0x100 \<and> rip (run (\<lambda>c. c) enter_user (run (\<lambda>c. c) switch_context ?c)) = 0x400000 \<and>
      gpr (run (\<lambda>c. c) enter_user (run (\<lambda>c. c) switch_context ?c)) RSP = 0x7FFFF000 \<and>
      rflags (run (\<lambda>c. c) enter_user (run (\<lambda>c. c) switch_context ?c)) = user_rflags \<and>
      cs_sel (run (\<lambda>c. c) enter_user (run (\<lambda>c. c) switch_context ?c)) = ucast (sel_user_code ?sel) OR 3 \<and>
      ss_sel (run (\<lambda>c. c) enter_user (run (\<lambda>c. c) switch_context ?c)) = ucast (sel_user_data ?sel) OR 3 \<and>
      map (gpr (run (\<lambda>c. c) enter_user (run (\<lambda>c. c) switch_context ?c))) callee_saved = replicate 6 0"
    by (rule spawned_user_enters[OF u(1) ok _ _ _ _ _ refl refl]) (simp_all add: u(2) demo_cpu_def apart_def)
  then have "rip (run (\<lambda>c. c) enter_user (run (\<lambda>c. c) switch_context ?c)) = 0x400000"
      "cs_sel (run (\<lambda>c. c) enter_user (run (\<lambda>c. c) switch_context ?c)) = 35" by simp_all
  then show ?thesis using u by (intro exI[of _ sp] exI[of _ m'] exI[of _ ?c]) (simp add: demo_cpu_def)
qed

section \<open>System calls\<close>

definition gdt_laws :: "'g gdt_api \<Rightarrow> bool" where
  "gdt_laws G \<longleftrightarrow> (\<exists>slots. slots (gdt_new G) = 1 \<and>
     (\<forall>d g. slots g \<le> 6 \<longrightarrow>
        fst (gdt_append G d g) = of_nat (8 * slots g + (if d = user_data_segment \<or> d = user_code_segment then 3 else 0)) \<and>
        slots (snd (gdt_append G d g)) = slots g + (if d = tss_segment then 2 else (1 :: nat))))"

lemma gdt_selectors_ok:
  assumes "gdt_laws G"
  shows "gdt_selectors G = \<lparr>sel_kernel_code = 8, sel_kernel_data = 16, sel_user_data = 27, sel_user_code = 35, sel_tss = 40\<rparr>"
proof -
  obtain slots where s: "slots (gdt_new G) = 1" and a: "\<And>d g. slots g \<le> 6 \<Longrightarrow>
      fst (gdt_append G d g) = of_nat (8 * slots g + (if d = user_data_segment \<or> d = user_code_segment then 3 else 0)) \<and>
      slots (snd (gdt_append G d g)) = slots g + (if d = tss_segment then 2 else (1 :: nat))"
    using assms unfolding gdt_laws_def by blast
  let ?g1 = "snd (gdt_append G kernel_code_segment (gdt_new G))"
  let ?g2 = "snd (gdt_append G kernel_data_segment ?g1)"
  let ?g3 = "snd (gdt_append G user_data_segment ?g2)"
  let ?g4 = "snd (gdt_append G user_code_segment ?g3)"
  have g: "slots ?g1 = 2" "slots ?g2 = 3" "slots ?g3 = 4" "slots ?g4 = 5" using s by (simp_all add: a)
  show ?thesis using s g by (simp add: gdt_selectors_def case_prod_unfold a)
qed

text \<open>What the stub relies on of the routine it calls, the C calling convention: the stack pointer and the callee-saved registers are as
  before, and so is the stack above the arguments.\<close>

definition c_abi :: "(cpu \<Rightarrow> cpu) \<Rightarrow> bool" where
  "c_abi D \<longleftrightarrow> (\<forall>c. gpr (D c) RSP = gpr c RSP \<and> map (gpr (D c)) callee_saved = map (gpr c) callee_saved \<and>
     msr_star (D c) = msr_star c \<and>
     (\<forall>x. unat (gpr c RSP) + 8 \<le> x \<and> x < unat (gpr c RSP) + 128 \<longrightarrow> kmem (D c) x = kmem c x))"

definition stub_saved :: "reg list" where
  "stub_saved = [RCX, R11, RDI, RSI, RDX, R10, R8, R9, RBX, RBP, R12, R13, R14, R15]"

lemma prologue_split:
  "syscall_prologue = [SaveUserRsp, LoadStackTop, AlignRsp, PushUserRsp] @ map Push stub_saved @ [Mov RCX R10, Push RAX]"
  by (simp add: syscall_prologue_def stub_saved_def)

lemma epilogue_split: "syscall_epilogue = [AddRsp 8] @ map Pop (rev stub_saved) @ [Pop RSP, Sysretq]"
  by (simp add: syscall_epilogue_def stub_saved_def)

lemma prologue_ok:
  fixes c :: cpu
  defines "tos \<equiv> SYSCALL_STACK_TOP c AND - 16"
  assumes tos: "128 \<le> unat tos"
  shows "\<exists>m. run D syscall_prologue c = c\<lparr>gpr := (gpr c)(RSP := tos - 128, RCX := gpr c R10), USER_RSP_SCRATCH := gpr c RSP, kmem := m\<rparr> \<and>
    frame m (unat tos - 128) (gpr c RAX # rev (gpr c RSP # map (gpr c) stub_saved))"
proof -
  let ?c1 = "c\<lparr>USER_RSP_SCRATCH := gpr c RSP, gpr := (gpr c)(RSP := tos)\<rparr>"
  let ?ws = "gpr c RSP # map (gpr c) stub_saved"
  have i: "run D [SaveUserRsp, LoadStackTop, AlignRsp, PushUserRsp] c = push (gpr c RSP) ?c1"
    by (simp add: set_gpr_def tos_def)
  have "map (gpr (push (gpr c RSP) ?c1)) stub_saved = map (gpr c) stub_saved"
    by (simp add: stub_saved_def push_def set_gpr_def Let_def)
  then have "run D (map Push stub_saved) (push (gpr c RSP) ?c1) = pushes ?ws ?c1"
    using run_pushes[of stub_saved D "push (gpr c RSP) ?c1"] by (simp add: pushes_def stub_saved_def)
  moreover obtain sp m where p: "pushes ?ws ?c1 = ?c1\<lparr>gpr := (gpr ?c1)(RSP := sp), kmem := m\<rparr>" "unat sp = unat tos - 120"
      "frame m (unat sp) (rev ?ws)"
    using pushes_ok[of ?ws ?c1] tos by (auto simp: stub_saved_def)
  ultimately have r: "run D (map Push stub_saved) (push (gpr c RSP) ?c1) = ?c1\<lparr>gpr := (gpr ?c1)(RSP := sp), kmem := m\<rparr>" by simp
  have "unat (tos - of_nat k) = unat tos - k" if "k \<le> 128" for k
    using tos that by (simp add: unat_sub word_le_nat_alt unat_of_nat)
  from this[of 120] this[of 128] have u: "unat (tos - 120) = unat tos - 120" "unat (tos - 128) = unat tos - 128" by simp_all
  then have sp: "sp = tos - 120" using p(2) by (simp add: word_unat_eq_iff)
  have "frame (write64 (tos - 128) (gpr c RAX) m) (unat (tos - 128)) (gpr c RAX # rev ?ws)"
    by (rule frame_write64) (use p(2,3) u tos u64_bound[of tos] in \<open>simp_all add: stub_saved_def\<close>)
  moreover have "run D syscall_prologue c =
      c\<lparr>gpr := (gpr c)(RSP := tos - 128, RCX := gpr c R10), USER_RSP_SCRATCH := gpr c RSP, kmem := write64 (tos - 128) (gpr c RAX) m\<rparr>"
    unfolding prologue_split run_append i r by (simp add: push_def set_gpr_def Let_def sp fun_upd_twist)
  ultimately show ?thesis using u by auto
qed


lemma epilogue_ok:
  fixes D :: "cpu \<Rightarrow> cpu" and d :: cpu
  assumes fr: "frame (kmem d) (unat (gpr d RSP) + 8) (rev (u # ws))" and len: "length ws = 14" and sp: "unat (gpr d RSP) + 128 < 2 ^ 64"
  defines "f \<equiv> run D syscall_epilogue d"
  shows "map (gpr f) stub_saved = ws" and "gpr f RSP = u" and "gpr f RAX = gpr d RAX" and "rip f = ws ! 0"
    and "rflags f = (ws ! 1 AND 0x3C7FD7) OR 2" and "cs_sel f = ((drop_bit 48 (msr_star d) + 16) AND 0xFFFF) OR 3"
    and "ss_sel f = ((drop_bit 48 (msr_star d) + 8) AND 0xFFFF) OR 3"
proof -
  let ?d1 = "set_gpr RSP (gpr d RSP + 8) d"
  have k: "unat (gpr d RSP + of_nat k) = unat (gpr d RSP) + k" if "k \<le> 128" for k
    using that sp by (intro unat_add_of_nat) simp
  have d1: "unat (gpr ?d1 RSP) = unat (gpr d RSP) + 8" "kmem ?d1 = kmem d" using k[of 8] by (simp_all add: set_gpr_def)
  have f14: "frame (kmem ?d1) (unat (gpr ?d1 RSP)) (rev ws)" and f1: "frame (kmem d) (unat (gpr d RSP) + 120) [u]"
    using fr len unfolding d1 by (simp_all add: frame_append add.commute)
  have pops: "run D (map Pop (rev stub_saved)) ?d1 = ?d1\<lparr>gpr := (\<lambda>r. if r = RSP then gpr ?d1 RSP + of_nat (8 * length (rev stub_saved))
      else case map_of (zip (rev stub_saved) (rev ws)) r of Some w \<Rightarrow> w | None \<Rightarrow> gpr ?d1 r)\<rparr>" (is "_ = ?d2")
    by (rule pops_ok[OF f14]) (use len sp d1 in \<open>simp_all add: stub_saved_def\<close>)
  have f: "f = exec D Sysretq (exec D (Pop RSP) ?d2)" unfolding f_def epilogue_split run_append
    using pops by simp
  have sp2: "gpr ?d2 RSP = gpr d RSP + 120" by (simp add: stub_saved_def set_gpr_def)
  have "top64 ?d2 = u" using f1 k[of 120] sp2 by (simp add: top64_def read64_def set_gpr_def add.commute)
  then have p: "exec D (Pop RSP) ?d2 = set_gpr RSP u (drop64 ?d2)" by simp
  obtain w0 w1 w2 w3 w4 w5 w6 w7 w8 w9 w10 w11 w12 w13 where ws: "ws = [w0, w1, w2, w3, w4, w5, w6, w7, w8, w9, w10, w11, w12, w13]"
    using len by (auto simp: numeral_eq_Suc length_Suc_conv)
  have g: "gpr (exec D (Pop RSP) ?d2) r = (if r = RSP then u else case map_of (zip (rev stub_saved) (rev ws)) r of Some w \<Rightarrow> w | None \<Rightarrow> gpr d r)" for r
    unfolding p by (simp add: set_gpr_def drop64_def split: option.split)
  have star: "msr_star (exec D (Pop RSP) ?d2) = msr_star d" unfolding p by (simp add: set_gpr_def drop64_def)
  show "map (gpr f) stub_saved = ws" "gpr f RSP = u" "gpr f RAX = gpr d RAX" "rip f = ws ! 0" "rflags f = (ws ! 1 AND 0x3C7FD7) OR 2"
    unfolding f exec.simps(13) Let_def by (simp_all add: g stub_saved_def ws del: exec.simps)
  show "cs_sel f = ((drop_bit 48 (msr_star d) + 16) AND 0xFFFF) OR 3" "ss_sel f = ((drop_bit 48 (msr_star d) + 8) AND 0xFFFF) OR 3"
    unfolding f exec.simps(13) Let_def by (simp_all add: star del: exec.simps)
qed


lemma star_selectors:
  assumes "gdt_laws G" and "syscall_init_bsp (gdt_selectors G) entry c0 = Some c1"
  shows "((drop_bit 48 (msr_star c1) + 16) AND 0xFFFF) OR 3 = ucast (sel_user_code (gdt_selectors G)) OR 3"
    and "((drop_bit 48 (msr_star c1) + 8) AND 0xFFFF) OR 3 = ucast (sel_user_data (gdt_selectors G)) OR 3"
    and "drop_bit 32 (msr_star c1) AND 0xFFFC = ucast (sel_kernel_code (gdt_selectors G))"
  using assms(2) by (auto simp: syscall_init_bsp_def gdt_selectors_ok[OF assms(1)] Let_def)

lemma aligned16: "unat (w AND - 16 :: u64) mod 16 = 0"
proof -
  have "take_bit 4 (w AND - 16) = 0" by (rule bit_word_eqI) (auto simp: bit_simps)
  then have "unat (take_bit 4 (w AND - 16)) = 0" by simp
  then show ?thesis by (simp add: take_bit_eq_mod unat_mod)
qed

text \<open>
  C37. A system call looks like a function call to the program. After \<open>syscall\<close>, the entry stub, a dispatcher that
  follows the C calling convention and \<open>sysretq\<close>, the program goes on behind the \<open>syscall\<close> instruction with its own stack pointer, segment
  selectors and flags, and with every register but RAX, RCX and R11 as it was; RAX holds the dispatcher's result. The dispatcher
  got the six arguments in order and the number as the seventh, on a stack aligned to 16 bytes, with interrupts off.
\<close>

theorem syscall_preserves:
  assumes "gdt_laws G" and "syscall_init_bsp (gdt_selectors G) entry c0 = Some k" and "c_abi D"
    and "msr_star c = msr_star k" and "msr_fmask c = msr_fmask k" and "128 \<le> unat (SYSCALL_STACK_TOP c AND - 16)"
    and "a = run D syscall_prologue (syscall_instr c)" and "f = run D syscall_entry (syscall_instr c)"
  shows "(\<forall>r. r \<notin> {RAX, RCX, R11} \<longrightarrow> gpr f r = gpr c r) \<and> gpr f RAX = gpr (D a) RAX \<and>
    rip f = rip c \<and> rflags f = (rflags c AND 0x3C7FD7) OR 2 \<and>
    cs_sel f = ucast (sel_user_code (gdt_selectors G)) OR 3 \<and> ss_sel f = ucast (sel_user_data (gdt_selectors G)) OR 3 \<and>
    map (gpr a) [RDI, RSI, RDX, RCX, R8, R9] = map (gpr c) [RDI, RSI, RDX, R10, R8, R9] \<and> top64 a = gpr c RAX \<and>
    unat (gpr a RSP) mod 16 = 0 \<and> \<not> bit (rflags a) 9"
proof -
  let ?s = "syscall_instr c" and ?tos = "SYSCALL_STACK_TOP c AND - 16"
  have s: "SYSCALL_STACK_TOP ?s = SYSCALL_STACK_TOP c" "gpr ?s = (gpr c)(RCX := rip c, R11 := rflags c)" "msr_star ?s = msr_star c"
      "rflags ?s = rflags c AND NOT (msr_fmask c)"
    by (simp_all add: syscall_instr_def Let_def)
  obtain m where p: "a = ?s\<lparr>gpr := (gpr ?s)(RSP := ?tos - 128, RCX := gpr c R10), USER_RSP_SCRATCH := gpr c RSP, kmem := m\<rparr>"
      "frame m (unat ?tos - 128) (gpr c RAX # rev (gpr c RSP # map (gpr ?s) stub_saved))"
    using prologue_ok[of ?s D] assms(6) unfolding assms(7) s(1) by (auto simp: s(2))
  have "unat (?tos - of_nat 128) = unat ?tos - 128" using assms(6) by (simp add: unat_sub word_le_nat_alt)
  then have asp: "gpr a RSP = ?tos - 128" "unat (gpr a RSP) = unat ?tos - 128" "kmem a = m" unfolding p(1) by simp_all
  have abi: "gpr (D a) RSP = gpr a RSP" "map (gpr (D a)) callee_saved = map (gpr a) callee_saved" "msr_star (D a) = msr_star a"
      "\<And>x. unat (gpr a RSP) + 8 \<le> x \<Longrightarrow> x < unat (gpr a RSP) + 128 \<Longrightarrow> kmem (D a) x = kmem a x"
    using assms(3) unfolding c_abi_def by blast+
  have fr: "frame (kmem (D a)) (unat (gpr (D a) RSP) + 8) (rev (gpr c RSP # map (gpr ?s) stub_saved))"
  proof (rule frame_cong[where m = "kmem a"])
    show "frame (kmem a) (unat (gpr (D a) RSP) + 8) (rev (gpr c RSP # map (gpr ?s) stub_saved))" using p(2) asp abi(1) by simp
  qed (use abi(1,4) in \<open>auto simp: stub_saved_def\<close>)
  have f: "f = run D syscall_epilogue (D a)" unfolding assms(8) syscall_entry_def run_append assms(7)[symmetric] by simp
  have "unat (gpr (D a) RSP) + 128 < 2 ^ 64" using abi(1) asp(2) assms(6) u64_bound[of ?tos] by simp
  note e = epilogue_ok[OF fr _ this, of D, folded f]
  have regs: "map (gpr f) stub_saved = map (gpr ?s) stub_saved" "gpr f RSP = gpr c RSP" "gpr f RAX = gpr (D a) RAX" "rip f = rip c"
      "rflags f = (rflags c AND 0x3C7FD7) OR 2"
    using e(1-5) by (simp_all add: stub_saved_def s(2))
  have "gpr f r = gpr c r" if "r \<notin> {RAX, RCX, R11}" for r
    using that regs(1,2) by (cases r) (simp_all add: stub_saved_def s(2))
  moreover have "cs_sel f = ucast (sel_user_code (gdt_selectors G)) OR 3" "ss_sel f = ucast (sel_user_data (gdt_selectors G)) OR 3"
    using e(6,7) star_selectors[OF assms(1,2)] abi(3) assms(4) by (simp_all add: stub_saved_def p(1) s(3))
  moreover have "map (gpr a) [RDI, RSI, RDX, RCX, R8, R9] = map (gpr c) [RDI, RSI, RDX, R10, R8, R9]" by (simp add: p(1) s(2))
  moreover have "top64 a = gpr c RAX" using p(2) asp by (simp add: top64_def read64_def)
  moreover have "unat (gpr a RSP) mod 16 = 0" using aligned16[of "SYSCALL_STACK_TOP c"] asp(2) assms(6) by (simp add: mod_eq_0_iff_dvd dvd_diff_nat)
  moreover have "\<not> bit (rflags a) 9" using assms(2,5) by (auto simp: p(1) s(4) syscall_init_bsp_def Let_def bit_simps split: if_splits)
  ultimately show ?thesis using regs by blast
qed


definition demo_gdt :: "nat gdt_api" where
  "demo_gdt = \<lparr>gdt_new = 1, gdt_append = (\<lambda>d g. (of_nat (8 * g + (if d = user_data_segment \<or> d = user_code_segment then 3 else 0)),
     g + (if d = tss_segment then 2 else 1)))\<rparr>"

lemma demo_gdt_laws: "gdt_laws demo_gdt"
  unfolding gdt_laws_def by (rule exI[of _ "\<lambda>g. g"]) (simp add: demo_gdt_def)

theorem syscall_preserves_witness:
  "\<exists>k D. syscall_init_bsp (gdt_selectors demo_gdt) 0x9000 demo_cpu = Some k \<and> gdt_laws demo_gdt \<and> c_abi D \<and>
     rip (run D syscall_entry (syscall_instr k)) = 0x400000 \<and> gpr (run D syscall_entry (syscall_instr k)) RAX = 42 \<and>
     gpr (run D syscall_entry (syscall_instr k)) RBX = 7 \<and> cs_sel (run D syscall_entry (syscall_instr k)) = 35"
proof -
  let ?D = "set_gpr RAX 42"
  obtain k where k: "syscall_init_bsp (gdt_selectors demo_gdt) 0x9000 demo_cpu = Some k"
      "gpr k = gpr demo_cpu" "rip k = 0x400000" "SYSCALL_STACK_TOP k = 0x8000"
    by (simp add: syscall_init_bsp_def gdt_selectors_ok[OF demo_gdt_laws] demo_cpu_def)
  have abi: "c_abi ?D" by (simp add: c_abi_def set_gpr_def callee_saved_def)
  have "128 \<le> unat (SYSCALL_STACK_TOP k AND - 16)" using k(4) by simp
  note t = syscall_preserves[OF demo_gdt_laws k(1) abi refl refl this refl refl]
  have "gpr (run ?D syscall_entry (syscall_instr k)) RBX = gpr k RBX" using t by simp
  then have "gpr (run ?D syscall_entry (syscall_instr k)) RBX = 7" using k(2) by (simp add: demo_cpu_def)
  moreover have "rip (run ?D syscall_entry (syscall_instr k)) = 0x400000" using t k(3) by simp
  moreover have "gpr (run ?D syscall_entry (syscall_instr k)) RAX = 42" using t by (simp add: set_gpr_def)
  moreover have "cs_sel (run ?D syscall_entry (syscall_instr k)) = 35" using t by (simp add: gdt_selectors_ok[OF demo_gdt_laws])
  ultimately show ?thesis using k(1) abi demo_gdt_laws by blast
qed

end
