(* ===== verification/User_Space.thy ===== *)
theory User_Space
  imports Vmm_Correct
begin

text \<open>
  The memory a program sees: the bytes of the lower half of an address space, through its page tables. Under the invariant
  \<open>user_inv\<close> (every mapped page has a frame of its own, which is no page table and not free) the operations of
  the VMM that fill an address space, \<open>map_anon\<close>, \<open>zero_user\<close> and \<open>copy_to_user\<close>, are simple updates of this
  view.
\<close>

definition data_page :: "x86_api \<Rightarrow> vm_state \<Rightarrow> nat \<Rightarrow> nat list \<Rightarrow> nat \<Rightarrow> bool" where
  "data_page P s root q f \<longleftrightarrow> path_ok user_slots q \<and> length q = 4 \<and> present P (pte P (ram s) root q) \<and>
     f = pt_addr P (pte P (ram s) root q) div PAGE_SIZE"

definition table_frames :: "x86_api \<Rightarrow> vm_state \<Rightarrow> nat \<Rightarrow> nat set" where
  "table_frames P s root = {t div PAGE_SIZE |t p. path_ok user_slots p \<and> length p \<le> 3 \<and> table_at P (ram s) root p = Some t}"

definition user_inv :: "x86_api \<Rightarrow> vm_state \<Rightarrow> nat \<Rightarrow> bool" where
  "user_inv P s root \<longleftrightarrow> as_inv P user_slots s root \<and>
     (\<forall>q f. data_page P s root q f \<longrightarrow> f \<notin> table_frames P s root \<and> f < TOTAL_FRAMES (frames s) \<and> f \<notin> free_set (frames s)) \<and>
     (\<forall>q q' f. data_page P s root q f \<longrightarrow> data_page P s root q' f \<longrightarrow> q = q')"

definition ubyte :: "x86_api \<Rightarrow> AddressSpace \<Rightarrow> vm_state \<Rightarrow> nat \<Rightarrow> u8 option" where
  "ubyte P as s va = (case phys_for_virt P as (ram s) va of Some (Some pa) \<Rightarrow> Some (ram s pa) | _ \<Rightarrow> None)"

lemma table_frames_allocated: "as_inv P user_slots s root \<Longrightarrow> f \<in> table_frames P s root \<Longrightarrow> f \<notin> free_set (frames s)"
  unfolding table_frames_def by (auto dest: as_inv_table simp: table_frame_def)

lemma path_frames_tables: "path_ok user_slots q \<Longrightarrow> path_frames P (ram s) root q \<subseteq> table_frames P s root"
proof
  fix f assume q: "path_ok user_slots q" and "f \<in> path_frames P (ram s) root q"
  then obtain t n where "f = t div PAGE_SIZE" "n \<le> 3" "table_at P (ram s) root (take n q) = Some t" by (auto simp: path_frames_def)
  moreover have "path_ok user_slots (take n q)" "length (take n q) \<le> 3" using path_ok_take[OF q] \<open>n \<le> 3\<close> by simp_all
  ultimately show "f \<in> table_frames P s root" unfolding table_frames_def by blast
qed

context page_entries
begin

lemma addr_split: "pt_addr P e = pt_addr P e div PAGE_SIZE * PAGE_SIZE"
  using addr_aligned(1)[of e] by (metis div_mult_mod_eq add_0_right)

lemma addr_page: "k < PAGE_SIZE \<Longrightarrow> (pt_addr P e + k) div PAGE_SIZE = pt_addr P e div PAGE_SIZE"
  using addr_split[of e] by (metis add.commute div_mult_self3 div_less add_0_right PAGE_SIZE_def zero_neq_numeral)

lemma ubyte_eq:
  assumes "as_inv P user_slots s (pml4_phys as)" and "va < 2 ^ 47"
  shows "ubyte P as s va = (let e = pte P (ram s) (pml4_phys as) (page_path va) in
    if present P e then Some (ram s (pt_addr P e + va mod PAGE_SIZE)) else None)"
  using phys_for_virt_eq[OF assms(1) user_slot[OF assms(2)]] by (simp add: ubyte_def Let_def)

text \<open>Changing the content of data pages leaves the tables alone.\<close>

lemma user_inv_ram:
  assumes inv: "user_inv P s root" and d: "data_page P s root q f" and m: "\<forall>a. a div PAGE_SIZE \<noteq> f \<longrightarrow> m a = ram s a"
  shows "user_inv P (s\<lparr>ram := m\<rparr>) root" and "\<And>r. path_ok user_slots r \<Longrightarrow> length r = 4 \<Longrightarrow> pte P m root r = pte P (ram s) root r"
proof -
  let ?s = "s\<lparr>ram := m\<rparr>"
  have as: "as_inv P user_slots s root" using inv by (simp add: user_inv_def)
  have f: "f \<notin> table_frames P s root" using inv d by (simp add: user_inv_def)
  have fr: "vm_frame s ?s {f}" using m by (simp add: vm_frame_def)
  have out: "\<forall>p t. path_ok user_slots p \<longrightarrow> length p \<le> 3 \<longrightarrow> table_at P (ram s) root p = Some t \<longrightarrow> t div PAGE_SIZE \<notin> {f}"
    using f by (auto simp: table_frames_def)
  note u = unaffected_space[OF as fr _ _ out, simplified, OF as_inv_frames(1,2)[OF as]]
  have "data_page P ?s root = data_page P s root" using u(2) by (auto simp: data_page_def fun_eq_iff)
  moreover have "path_ok user_slots p \<and> length p \<le> 3 \<and> table_at P m root p = Some t \<longleftrightarrow>
      path_ok user_slots p \<and> length p \<le> 3 \<and> table_at P (ram s) root p = Some t" for p t using u(3)[of p] by auto
  then have "table_frames P ?s root = table_frames P s root" by (simp add: table_frames_def)
  ultimately show "user_inv P ?s root" using inv u(1) by (simp add: user_inv_def)
  show "\<And>r. path_ok user_slots r \<Longrightarrow> length r = 4 \<Longrightarrow> pte P m root r = pte P (ram s) root r" by (rule u(2))
qed

text \<open>A write inside one page.\<close>

lemma ubyte_write:
  assumes inv: "user_inv P s (pml4_phys as)" and va: "va + length bs \<le> 2 ^ 47" "va mod PAGE_SIZE + length bs \<le> PAGE_SIZE" "bs \<noteq> []"
    and t: "phys_for_virt P as (ram s) va = Some (Some pa)"
  defines "s' \<equiv> s\<lparr>ram := mem_write (ram s) pa bs\<rparr>"
  shows "user_inv P s' (pml4_phys as)"
    and "w < 2 ^ 47 \<Longrightarrow> ubyte P as s' w = (if va \<le> w \<and> w < va + length bs then Some (bs ! (w - va)) else ubyte P as s w)"
proof -
  let ?root = "pml4_phys as" and ?q = "page_path va"
  let ?e = "pte P (ram s) ?root ?q"
  have as: "as_inv P user_slots s ?root" using inv by (simp add: user_inv_def)
  have lt: "va < 2 ^ 47" using va by (cases bs) auto
  have e: "present P ?e" "pa = pt_addr P ?e + va mod PAGE_SIZE"
    using t phys_for_virt_eq[OF as user_slot[OF lt]] by (auto simp: Let_def split: if_splits)
  let ?f = "pt_addr P ?e div PAGE_SIZE"
  have d: "data_page P s ?root ?q ?f" using e(1) page_path_ok[OF user_slot[OF lt]] by (simp add: data_page_def)
  have m: "\<forall>a. a div PAGE_SIZE \<noteq> ?f \<longrightarrow> mem_write (ram s) pa bs a = ram s a"
  proof (intro allI impI mem_write_outside, rule ccontr)
    fix a assume n: "a div PAGE_SIZE \<noteq> ?f" and "\<not> (a < pa \<or> pa + length bs \<le> a)"
    then have "a = pt_addr P ?e + (a - pt_addr P ?e)" "a - pt_addr P ?e < PAGE_SIZE" using e(2) va(2) by auto
    then show False using n addr_page by metis
  qed
  note u = user_inv_ram[OF inv d m, folded s'_def]
  show inv': "user_inv P s' ?root" by (rule u(1))
  have as': "as_inv P user_slots s' ?root" using inv' by (simp add: user_inv_def)
  show "ubyte P as s' w = (if va \<le> w \<and> w < va + length bs then Some (bs ! (w - va)) else ubyte P as s w)" if w: "w < 2 ^ 47"
  proof -
    let ?ew = "pte P (ram s) ?root (page_path w)"
    have pw: "path_ok user_slots (page_path w)" by (rule page_path_ok[OF user_slot[OF w]])
    have new: "ubyte P as s' w = (if present P ?ew then Some (mem_write (ram s) pa bs (pt_addr P ?ew + w mod PAGE_SIZE)) else None)"
      using ubyte_eq[OF as' w] u(2)[OF pw] by (simp add: Let_def s'_def)
    have old: "ubyte P as s w = (if present P ?ew then Some (ram s (pt_addr P ?ew + w mod PAGE_SIZE)) else None)"
      using ubyte_eq[OF as w] by (simp add: Let_def)
    show ?thesis
    proof (cases "w div PAGE_SIZE = va div PAGE_SIZE")
      case True
      then have eq: "?ew = ?e" using page_path_cong[OF True] by simp
      have "w = w div PAGE_SIZE * PAGE_SIZE + w mod PAGE_SIZE" "va = w div PAGE_SIZE * PAGE_SIZE + va mod PAGE_SIZE"
        using div_mult_mod_eq[of w PAGE_SIZE] div_mult_mod_eq[of va PAGE_SIZE] True by simp_all
      then obtain b where b: "w = b + w mod PAGE_SIZE" "va = b + va mod PAGE_SIZE" by blast
      show ?thesis
      proof (cases "va \<le> w \<and> w < va + length bs")
        case True
        then have a: "pt_addr P ?e + w mod PAGE_SIZE = pa + (w - va)" "w - va < length bs" using b e(2) by linarith+
        have "mem_write (ram s) pa bs (pt_addr P ?e + w mod PAGE_SIZE) = bs ! (w - va)" unfolding a(1) by (rule mem_write_inside[OF a(2)])
        then show ?thesis using new e(1) eq True by simp
      next
        case False
        then have "pt_addr P ?e + w mod PAGE_SIZE < pa \<or> pa + length bs \<le> pt_addr P ?e + w mod PAGE_SIZE" using b e(2) by linarith
        then show ?thesis using new old eq False by (auto simp: mem_write_outside)
      qed
    next
      case False
      then have np: "page_path w \<noteq> ?q" using page_path_inj[of w va] w lt by auto
      have out: "\<not> (va \<le> w \<and> w < va + length bs)"
      proof
        assume h: "va \<le> w \<and> w < va + length bs"
        have "va = va div PAGE_SIZE * PAGE_SIZE + va mod PAGE_SIZE" by simp
        then have "w = va div PAGE_SIZE * PAGE_SIZE + (va mod PAGE_SIZE + (w - va))" "va mod PAGE_SIZE + (w - va) < PAGE_SIZE"
          using h va(2) by linarith+
        then obtain k where "w = va div PAGE_SIZE * PAGE_SIZE + k" "k < PAGE_SIZE" by blast
        then show False using False by (simp add: PAGE_SIZE_def)
      qed
      have "mem_write (ram s) pa bs (pt_addr P ?ew + w mod PAGE_SIZE) = ram s (pt_addr P ?ew + w mod PAGE_SIZE)" if "present P ?ew"
      proof -
        have "data_page P s ?root (page_path w) (pt_addr P ?ew div PAGE_SIZE)" using that pw by (simp add: data_page_def)
        then have "pt_addr P ?ew div PAGE_SIZE \<noteq> ?f" using inv d np unfolding user_inv_def by metis
        then show ?thesis using m addr_page[of "w mod PAGE_SIZE" ?ew] by (simp add: PAGE_SIZE_def)
      qed
      then show ?thesis using new old out by auto
    qed
  qed
qed

lemma copy_loop_ok:
  assumes "user_inv P s (pml4_phys as)" and "virt + length bs \<le> 2 ^ 47" and "written \<le> length bs"
    and "copy_to_user_loop P as virt bs written s = Some (Inr u, s')"
  shows "user_inv P s' (pml4_phys as) \<and> (\<forall>w < 2 ^ 47. ubyte P as s' w =
    (if virt + written \<le> w \<and> w < virt + length bs then Some (bs ! (w - virt)) else ubyte P as s w))"
  using assms
proof (induction "length bs - written" arbitrary: written s rule: less_induct)
  case less
  show ?case
  proof (cases "written < length bs")
    case False
    then have "s' = s" using less.prems(4) by (subst (asm) copy_to_user_loop.simps) simp
    then show ?thesis using False less.prems(1) by auto
  next
    case True
    let ?va = "virt + written"
    define n where "n = min (PAGE_SIZE - ?va mod PAGE_SIZE) (length bs - written)"
    define c where "c = take n (drop written bs)"
    have add: "u64_add virt written = Some ?va" using True less.prems(2) by (simp add: u64_add_def)
    obtain pa where pa: "phys_for_virt P as (ram s) ?va = Some (Some pa)" "pml4_ref pa = Some pa"
        "copy_to_user_loop P as virt bs (written + n) (s\<lparr>ram := mem_write (ram s) pa c\<rparr>) = Some (Inr u, s')"
      using less.prems(4) True add by (subst (asm) copy_to_user_loop.simps)
        (auto simp: Let_def pml4_ref_def n_def c_def split: option.splits bind_splits)
    have "?va mod PAGE_SIZE < PAGE_SIZE" by (simp add: PAGE_SIZE_def)
    then have n: "0 < n" "written + n \<le> length bs" "?va mod PAGE_SIZE + n \<le> PAGE_SIZE" using True unfolding n_def by linarith+
    have lc: "length c = n" using n(2) by (simp add: c_def)
    have c: "?va + length c \<le> 2 ^ 47" "?va mod PAGE_SIZE + length c \<le> PAGE_SIZE" "c \<noteq> []"
      using n lc less.prems(2) by auto
    note w = ubyte_write[OF less.prems(1) c pa(1), unfolded lc]
    have IH: "user_inv P s' (pml4_phys as) \<and> (\<forall>v < 2 ^ 47. ubyte P as s' v =
      (if virt + (written + n) \<le> v \<and> v < virt + length bs then Some (bs ! (v - virt))
       else ubyte P as (s\<lparr>ram := mem_write (ram s) pa c\<rparr>) v))"
      by (rule less.hyps[OF _ w(1) less.prems(2) n(2) pa(3)]) (use n True in linarith)
    have "ubyte P as s' v = (if ?va \<le> v \<and> v < virt + length bs then Some (bs ! (v - virt)) else ubyte P as s v)" if v: "v < 2 ^ 47" for v
    proof (cases "?va \<le> v \<and> v < ?va + n")
      case True
      then have "v - ?va < n" by linarith
      then have "c ! (v - ?va) = drop written bs ! (v - ?va)" unfolding c_def by (rule nth_take)
      also have "\<dots> = bs ! (written + (v - ?va))" using less.prems(3) by (rule nth_drop)
      also have "written + (v - ?va) = v - virt" using True by linarith
      finally show ?thesis using IH v w(2)[OF v] True n(2) by simp
    next
      case False
      then have "?va \<le> v \<and> v < virt + length bs \<longleftrightarrow> virt + (written + n) \<le> v \<and> v < virt + length bs" by linarith
      then show ?thesis using IH v w(2)[OF v] False by simp
    qed
    then show ?thesis using IH by blast
  qed
qed

lemma copy_to_user_ok:
  assumes "user_inv P s (pml4_phys as)" and "virt + length bs \<le> 2 ^ 47" and "copy_to_user P as virt bs s = Some (Inr u, s')"
  shows "user_inv P s' (pml4_phys as)"
    and "w < 2 ^ 47 \<Longrightarrow> ubyte P as s' w = (if virt \<le> w \<and> w < virt + length bs then Some (bs ! (w - virt)) else ubyte P as s w)"
  using copy_loop_ok[OF assms(1,2) _ assms(3)[unfolded copy_to_user_def]] by simp_all

end

text \<open>Zeroing is copying zeros.\<close>

lemma mem_fill_write: "mem_fill m a b n = mem_write m a (replicate n b)"
  by (auto simp: mem_fill_def mem_write_def fun_eq_iff)

lemma zero_loop_eq: "zero_user_loop P as virt len dn s = copy_to_user_loop P as virt (replicate len 0) dn s"
proof (induction "len - dn" arbitrary: dn s rule: less_induct)
  case less
  show ?case
  proof (cases "dn < len")
    case False
    then show ?thesis by (simp add: zero_user_loop.simps[of P as virt len dn] copy_to_user_loop.simps[of P as virt "replicate len 0" dn])
  next
    case True
    have "zero_user_loop P as virt len (dn + n) s1 = copy_to_user_loop P as virt (replicate len 0) (dn + n) s1" if "0 < n" for n s1
      using True that by (intro less) simp
    moreover have "0 < min (PAGE_SIZE - va mod PAGE_SIZE) (len - dn)" for va using True by (simp add: PAGE_SIZE_def)
    ultimately show ?thesis using True
      by (simp add: zero_user_loop.simps[of P as virt len dn] copy_to_user_loop.simps[of P as virt "replicate len 0" dn]
          mem_fill_write Let_def cong: option.case_cong Option.bind_cong)
  qed
qed

lemma zero_user_eq: "zero_user P as virt len s = copy_to_user P as virt (replicate len 0) s"
  by (simp add: zero_user_def copy_to_user_def zero_loop_eq)


section \<open>Fresh pages\<close>

context page_entries
begin

text \<open>A frame taken from the allocator and zeroed: nothing the address space shows changes.\<close>

lemma fresh_frame:
  assumes inv: "user_inv P s root" and al: "alloc_frame (frames s) = Some (Some phys, fs)"
  defines "s1 \<equiv> s\<lparr>frames := fs, ram := mem_fill (ram s) phys 0 PAGE_SIZE\<rparr>"
  shows "user_inv P s1 root" and "phys mod PAGE_SIZE = 0" and "phys < 2 ^ 47"
    and "phys div PAGE_SIZE \<in> free_set (frames s)" and "free_set fs = free_set (frames s) - {phys div PAGE_SIZE}"
    and "\<And>r. path_ok user_slots r \<Longrightarrow> length r = 4 \<Longrightarrow> pte P (ram s1) root r = pte P (ram s) root r"
    and "\<And>f. f \<in> table_frames P s1 root \<longleftrightarrow> f \<in> table_frames P s root"
proof -
  have as: "as_inv P user_slots s root" using inv by (simp add: user_inv_def)
  obtain pfn where a: "pfn \<in> free_set (frames s)" "phys = pfn * PAGE_SIZE" "free_set fs = free_set (frames s) - {pfn}"
      "frame_inv fs" "search_ends fs" "TOTAL_FRAMES fs = TOTAL_FRAMES (frames s)"
    using fa.alloc_result[OF as_inv_frames(1)[OF as] al] by auto
  have pfn: "phys div PAGE_SIZE = pfn" by (simp add: a(2) PAGE_SIZE_def)
  have "pfn < 2 ^ 35" using fa.avail_bound[OF as_inv_frames(1)[OF as] a(1)] as_inv_frames(3)[OF as] by simp
  then show "phys mod PAGE_SIZE = 0" "phys < 2 ^ 47" by (simp_all add: a(2) PAGE_SIZE_def)
  show "phys div PAGE_SIZE \<in> free_set (frames s)" "free_set fs = free_set (frames s) - {phys div PAGE_SIZE}" using a pfn by simp_all
  have out: "mem_fill (ram s) phys 0 PAGE_SIZE x = ram s x" if "x div PAGE_SIZE \<noteq> pfn" for x
    using that by (intro mem_fill_page_outside) (simp_all add: a(2) PAGE_SIZE_def)
  then have fr: "vm_frame s s1 {pfn}" using a by (auto simp: vm_frame_def s1_def)
  have nt: "\<forall>p t. path_ok user_slots p \<longrightarrow> length p \<le> 3 \<longrightarrow> table_at P (ram s) root p = Some t \<longrightarrow> t div PAGE_SIZE \<notin> {pfn}"
    using as_inv_table[OF as] a(1) by (auto simp: table_frame_def)
  have fi: "frame_inv (frames s1)" "search_ends (frames s1)" using a by (simp_all add: s1_def)
  note u = unaffected_space[OF as fr fi nt]
  show pte: "\<And>r. path_ok user_slots r \<Longrightarrow> length r = 4 \<Longrightarrow> pte P (ram s1) root r = pte P (ram s) root r" by (rule u(2))
  have "path_ok user_slots p \<and> length p \<le> 3 \<and> table_at P (ram s1) root p = Some t \<longleftrightarrow>
      path_ok user_slots p \<and> length p \<le> 3 \<and> table_at P (ram s) root p = Some t" for p t using u(3)[of p] by auto
  then have tf: "table_frames P s1 root = table_frames P s root" by (simp add: table_frames_def)
  then show "\<And>f. f \<in> table_frames P s1 root \<longleftrightarrow> f \<in> table_frames P s root" by simp
  have "data_page P s1 root = data_page P s root" using pte by (auto simp: data_page_def fun_eq_iff)
  then show "user_inv P s1 root" using inv u(1) tf a by (auto simp: user_inv_def s1_def)
qed

lemma map_fresh:
  assumes inv: "user_inv P s (pml4_phys as)" and al: "alloc_frame (frames s) = Some (Some phys, fs)"
    and va: "va < 2 ^ 47" "va mod PAGE_SIZE = 0"
    and run: "map_4k P as va phys flags (s\<lparr>frames := fs, ram := mem_fill (ram s) phys 0 PAGE_SIZE\<rparr>) = Some (Inr u, s')"
  shows "user_inv P s' (pml4_phys as)" and "ubyte P as s va = None"
    and "w < 2 ^ 47 \<Longrightarrow> ubyte P as s' w = (if w div PAGE_SIZE = va div PAGE_SIZE then Some 0 else ubyte P as s w)"
proof -
  let ?root = "pml4_phys as" and ?q = "page_path va" and ?pfn = "phys div PAGE_SIZE"
  define s1 where "s1 = s\<lparr>frames := fs, ram := mem_fill (ram s) phys 0 PAGE_SIZE\<rparr>"
  note f = fresh_frame[OF inv al, folded s1_def]
  have as: "as_inv P user_slots s ?root" using inv by (simp add: user_inv_def)
  have as1: "as_inv P user_slots s1 ?root" using f(1) by (simp add: user_inv_def)
  have q: "path_ok user_slots ?q" by (rule page_path_ok[OF user_slot[OF va(1)]])
  obtain e where o: "as_inv P user_slots s' ?root" "tables_grow P user_slots ?root s1 s'"
      "vm_frame s1 s' (path_frames P (ram s1) ?root ?q \<union> free_set fs)" "\<not> present P (pte P (ram s1) ?root ?q)"
      "pt_addr P e = phys" "present P e"
      "\<And>r. path_ok user_slots r \<Longrightarrow> length r = 4 \<Longrightarrow> pte P (ram s') ?root r = (if r = ?q then e else pte P (ram s1) ?root r)"
    using map_4k_outcome[OF as1 va(2) user_slot[OF va(1)] f(2), of flags] f(3) run leaf_flags(2)[of flags]
    by (auto simp: map_outcome_def s1_def present_def)
  have fr: "ram s' x = ram s1 x" if "x div PAGE_SIZE \<notin> table_frames P s ?root" "x div PAGE_SIZE \<notin> free_set fs" for x
    using o(3) that path_frames_tables[OF q, of P s1 ?root] f(7) by (auto simp: vm_frame_def)
  have tf: "t \<in> table_frames P s ?root \<or> t \<in> free_set fs" if tt: "t \<in> table_frames P s' ?root" for t
  proof -
    obtain p a where p: "t = a div PAGE_SIZE" "path_ok user_slots p" "length p \<le> 3" "table_at P (ram s') ?root p = Some a"
      using tt by (auto simp: table_frames_def)
    then have "table_at P (ram s1) ?root p = Some a \<or> t \<in> free_set (frames s1)" using o(2) by (auto simp: tables_grow_def)
    moreover have "t \<in> table_frames P s1 ?root" if "table_at P (ram s1) ?root p = Some a" using p that unfolding table_frames_def by blast
    ultimately show ?thesis using f(7) by (auto simp: s1_def)
  qed
  have sub: "free_set (frames s') \<subseteq> free_set fs" "TOTAL_FRAMES (frames s') = TOTAL_FRAMES (frames s1)"
    using o(3) by (auto simp: vm_frame_def s1_def)
  have new: "?pfn \<notin> table_frames P s ?root" using table_frames_allocated[OF as] f(4) by blast
  have dp: "data_page P s' ?root r g \<longleftrightarrow> (if r = ?q then g = ?pfn else data_page P s1 ?root r g)" for r g
    using o(5-7) q by (auto simp: data_page_def)
  have old: "g \<notin> table_frames P s ?root \<and> g < TOTAL_FRAMES (frames s1) \<and> g \<notin> free_set fs \<and> g \<noteq> ?pfn" if "data_page P s1 ?root r g" for r g
  proof -
    have "data_page P s ?root r g" using that f(6)[of r] by (auto simp: data_page_def)
    then have "g \<notin> free_set (frames s)" using inv unfolding user_inv_def by blast
    then have "g \<noteq> ?pfn" using f(4) by blast
    then show ?thesis using f(1) that f(7) unfolding user_inv_def by (auto simp: s1_def)
  qed
  have "?pfn < TOTAL_FRAMES (frames s1)" using fa.avail_bound[OF as_inv_frames(1)[OF as] f(4)]
      fa.alloc_result[OF as_inv_frames(1)[OF as] al] by (simp add: s1_def)
  then have "g \<notin> table_frames P s' ?root \<and> g < TOTAL_FRAMES (frames s') \<and> g \<notin> free_set (frames s')" if "data_page P s' ?root r g" for r g
    using that dp[of r g] old[of r g] tf sub new f(5) by (auto split: if_splits)
  moreover have "r = r'" if "data_page P s' ?root r g" "data_page P s' ?root r' g" for r r' g
    using that dp[of r g] dp[of r' g] old f(1) unfolding user_inv_def by (metis (full_types))
  ultimately show inv': "user_inv P s' ?root" using o(1) unfolding user_inv_def by blast
  show "ubyte P as s va = None" using ubyte_eq[OF as va(1)] o(4) f(6)[OF q] by simp
  show "ubyte P as s' w = (if w div PAGE_SIZE = va div PAGE_SIZE then Some 0 else ubyte P as s w)" if w: "w < 2 ^ 47"
  proof -
    have pw: "path_ok user_slots (page_path w)" by (rule page_path_ok[OF user_slot[OF w]])
    have pq: "page_path w = ?q \<longleftrightarrow> w div PAGE_SIZE = va div PAGE_SIZE" using page_path_cong[of w va] page_path_inj[of w va] w va(1) by auto
    let ?e = "if page_path w = ?q then e else pte P (ram s) ?root (page_path w)"
    have b: "ubyte P as s' w = (if present P ?e then Some (ram s' (pt_addr P ?e + w mod PAGE_SIZE)) else None)"
      using ubyte_eq[OF o(1) w] o(7)[OF pw] f(6)[OF pw] by (simp add: Let_def)
    have pg: "(pt_addr P x + w mod PAGE_SIZE) div PAGE_SIZE = pt_addr P x div PAGE_SIZE" for x by (rule addr_page) (simp add: PAGE_SIZE_def)
    show ?thesis
    proof (cases "page_path w = ?q")
      case True
      have "ram s' (phys + w mod PAGE_SIZE) = ram s1 (phys + w mod PAGE_SIZE)"
        using fr new f(5) pg[of e] o(5) by simp
      moreover have "ram s1 (phys + w mod PAGE_SIZE) = 0" by (simp add: s1_def mem_fill_def PAGE_SIZE_def)
      ultimately show ?thesis using True b o(5,6) pq by simp
    next
      case False
      let ?p = "pte P (ram s) ?root (page_path w)"
      have "ram s' (pt_addr P ?p + w mod PAGE_SIZE) = ram s (pt_addr P ?p + w mod PAGE_SIZE)" if "present P ?p"
      proof -
        have "data_page P s1 ?root (page_path w) (pt_addr P ?p div PAGE_SIZE)" using that pw f(6)[OF pw] by (simp add: data_page_def)
        from old[OF this] have "ram s' (pt_addr P ?p + w mod PAGE_SIZE) = ram s1 (pt_addr P ?p + w mod PAGE_SIZE)"
            "pt_addr P ?p div PAGE_SIZE \<noteq> ?pfn" using fr pg[of ?p] by simp_all
        then show ?thesis using pg[of ?p] f(2) by (simp add: s1_def mem_fill_page_outside)
      qed
      then show ?thesis using b ubyte_eq[OF as w] False pq by (simp add: Let_def)
    qed
  qed
qed

end


context page_entries
begin

lemma map_anon_loop_ok:
  assumes "user_inv P s (pml4_phys as)" and "virt mod PAGE_SIZE = 0" and "virt + (i + k) * PAGE_SIZE \<le> 2 ^ 47"
    and "map_anon_loop P as virt i k flags s = Some (Inr u, s')"
  shows "user_inv P s' (pml4_phys as) \<and>
    (\<forall>w < 2 ^ 47. virt + i * PAGE_SIZE \<le> w \<and> w < virt + (i + k) * PAGE_SIZE \<longrightarrow> ubyte P as s w = None) \<and>
    (\<forall>w < 2 ^ 47. ubyte P as s' w = (if virt + i * PAGE_SIZE \<le> w \<and> w < virt + (i + k) * PAGE_SIZE then Some 0 else ubyte P as s w))"
  using assms
proof (induction k arbitrary: i s)
  case 0
  then show ?case by auto
next
  case (Suc k)
  let ?va = "virt + i * PAGE_SIZE"
  have va: "?va < 2 ^ 47" "?va mod PAGE_SIZE = 0" using Suc.prems(2,3) by (simp_all add: PAGE_SIZE_def mod_add_eq)
  obtain phys fs s1 where r: "alloc_frame (frames s) = Some (Some phys, fs)"
      "map_4k P as ?va phys flags (s\<lparr>frames := fs, ram := mem_fill (ram s) phys 0 PAGE_SIZE\<rparr>) = Some (Inr (), s1)"
      "map_anon_loop P as virt (i + 1) k flags s1 = Some (Inr u, s')"
    using Suc.prems(4) user_range_arith[OF va(1)]
    by (auto simp: pml4_ref_def split: option.splits bind_splits sum.splits prod.splits)
  note m = map_fresh[OF Suc.prems(1) r(1) va r(2)]
  have le: "virt + ((i + 1) + k) * PAGE_SIZE \<le> 2 ^ 47" using Suc.prems(3) by simp
  note IH = Suc.IH[OF m(1) Suc.prems(2) le r(3)]
  have here: "w div PAGE_SIZE = ?va div PAGE_SIZE \<longleftrightarrow> ?va \<le> w \<and> w < virt + (i + 1) * PAGE_SIZE" for w
  proof -
    obtain v where v: "?va = v * 4096" using va(2) by (metis PAGE_SIZE_def mod_0_imp_dvd dvd_def mult.commute)
    have "w div 4096 = v \<longleftrightarrow> v * 4096 \<le> w \<and> w < v * 4096 + 4096" by auto
    moreover have "virt + (i + 1) * 4096 = v * 4096 + 4096" using v by (simp add: PAGE_SIZE_def)
    ultimately show ?thesis using v by (simp only: PAGE_SIZE_def) simp
  qed
  have unm: "ubyte P as s w = None" if w: "w < 2 ^ 47" "?va \<le> w" "w < virt + (i + 1) * PAGE_SIZE" for w
  proof -
    have "as_inv P user_slots s (pml4_phys as)" using Suc.prems(1) by (simp add: user_inv_def)
    moreover have "page_path w = page_path ?va" using here[of w] w by (intro page_path_cong) simp
    ultimately show ?thesis using ubyte_eq[of s as w] ubyte_eq[of s as ?va] w(1) va(1) m(2) by (auto simp: Let_def split: if_splits)
  qed
  have split: "?va \<le> w \<and> w < virt + (i + Suc k) * PAGE_SIZE \<longleftrightarrow>
      (?va \<le> w \<and> w < virt + (i + 1) * PAGE_SIZE) \<or> (virt + (i + 1) * PAGE_SIZE \<le> w \<and> w < virt + ((i + 1) + k) * PAGE_SIZE)" for w
    by (auto simp: PAGE_SIZE_def)
  have "ubyte P as s w = None" if "w < 2 ^ 47" "?va \<le> w \<and> w < virt + (i + Suc k) * PAGE_SIZE" for w
    using that unm[of w] split[of w] IH m(3)[of w] here[of w] by fastforce
  moreover have "ubyte P as s' w = (if ?va \<le> w \<and> w < virt + (i + Suc k) * PAGE_SIZE then Some 0 else ubyte P as s w)" if "w < 2 ^ 47" for w
    unfolding split using IH that m(3)[OF that] here[of w] by auto
  ultimately show ?case using IH by blast
qed

lemma map_anon_ok:
  assumes "user_inv P s (pml4_phys as)" and "virt mod PAGE_SIZE = 0" and "virt + n * PAGE_SIZE \<le> 2 ^ 47"
    and "map_anon P as virt n flags s = Some (Inr u, s')"
  shows "user_inv P s' (pml4_phys as)"
    and "w < 2 ^ 47 \<Longrightarrow> virt \<le> w \<Longrightarrow> w < virt + n * PAGE_SIZE \<Longrightarrow> ubyte P as s w = None"
    and "w < 2 ^ 47 \<Longrightarrow> ubyte P as s' w = (if virt \<le> w \<and> w < virt + n * PAGE_SIZE then Some 0 else ubyte P as s w)"
  using map_anon_loop_ok[OF assms(1,2), of 0 n flags u s'] assms(3,4) by (simp_all add: map_anon_def)

text \<open>The operations return: copying to mapped memory, and mapping one page that is not mapped when four frames are free.\<close>

lemma data_ref:
  assumes inv: "user_inv P s (pml4_phys as)" and "va < 2 ^ 47" and "phys_for_virt P as (ram s) va = Some (Some pa)"
  shows "pml4_ref pa = Some pa"
proof -
  have as: "as_inv P user_slots s (pml4_phys as)" using inv by (simp add: user_inv_def)
  let ?e = "pte P (ram s) (pml4_phys as) (page_path va)"
  have e: "present P ?e" "pa = pt_addr P ?e + va mod PAGE_SIZE"
    using assms(3) phys_for_virt_eq[OF as user_slot[OF assms(2)]] by (auto simp: Let_def split: if_splits)
  have "data_page P s (pml4_phys as) (page_path va) (pt_addr P ?e div PAGE_SIZE)"
    using e(1) page_path_ok[OF user_slot[OF assms(2)]] by (simp add: data_page_def)
  then have "pt_addr P ?e div PAGE_SIZE < 2 ^ 35" using inv as_inv_frames(3)[OF as] unfolding user_inv_def by fastforce
  then have "pa div PAGE_SIZE < 2 ^ 35" unfolding e(2) by (subst addr_page) (simp_all add: PAGE_SIZE_def)
  then have "pa < 2 ^ 47" by (simp add: PAGE_SIZE_def div_less_iff_less_mult)
  then show ?thesis by (simp add: pml4_ref_def u64_add_def HHDM_OFFSET_def)
qed

lemma copy_loop_returns:
  assumes "user_inv P s (pml4_phys as)" and "virt + length bs \<le> 2 ^ 47" and "written \<le> length bs"
    and "\<forall>w. virt + written \<le> w \<and> w < virt + length bs \<longrightarrow> ubyte P as s w \<noteq> None"
  shows "\<exists>s'. copy_to_user_loop P as virt bs written s = Some (Inr (), s')"
  using assms
proof (induction "length bs - written" arbitrary: written s rule: less_induct)
  case less
  show ?case
  proof (cases "written < length bs")
    case False
    then show ?thesis by (subst copy_to_user_loop.simps) simp
  next
    case True
    let ?va = "virt + written"
    define n where "n = min (PAGE_SIZE - ?va mod PAGE_SIZE) (length bs - written)"
    define c where "c = take n (drop written bs)"
    have lt: "?va < 2 ^ 47" using True less.prems(2) by linarith
    have add: "u64_add virt written = Some ?va" using lt by (simp add: u64_add_def)
    have "ubyte P as s ?va \<noteq> None" using less.prems(4) True by simp
    then obtain pa where pa: "phys_for_virt P as (ram s) ?va = Some (Some pa)"
      unfolding ubyte_def by (auto split: option.splits)
    have "?va mod PAGE_SIZE < PAGE_SIZE" by (simp add: PAGE_SIZE_def)
    then have n: "0 < n" "written + n \<le> length bs" "?va mod PAGE_SIZE + n \<le> PAGE_SIZE" using True unfolding n_def by linarith+
    have lc: "length c = n" using n(2) by (simp add: c_def)
    have c: "?va + length c \<le> 2 ^ 47" "?va mod PAGE_SIZE + length c \<le> PAGE_SIZE" "c \<noteq> []"
      using n lc less.prems(2) by auto
    note w = ubyte_write[OF less.prems(1) c pa, unfolded lc]
    have m: "\<forall>v. virt + (written + n) \<le> v \<and> v < virt + length bs \<longrightarrow> ubyte P as (s\<lparr>ram := mem_write (ram s) pa c\<rparr>) v \<noteq> None"
    proof (intro allI impI)
      fix v assume v: "virt + (written + n) \<le> v \<and> v < virt + length bs"
      then have "v < 2 ^ 47" using less.prems(2) by linarith
      from w(2)[OF this] show "ubyte P as (s\<lparr>ram := mem_write (ram s) pa c\<rparr>) v \<noteq> None" using v less.prems(4) by simp
    qed
    have "\<exists>s'. copy_to_user_loop P as virt bs (written + n) (s\<lparr>ram := mem_write (ram s) pa c\<rparr>) = Some (Inr (), s')"
      by (rule less.hyps[OF _ w(1) less.prems(2) n(2) m]) (use n True in linarith)
    moreover have "copy_to_user_loop P as virt bs written s =
        copy_to_user_loop P as virt bs (written + n) (s\<lparr>ram := mem_write (ram s) pa c\<rparr>)"
      by (subst copy_to_user_loop.simps) (simp add: True add pa data_ref[OF less.prems(1) lt pa] Let_def n_def c_def)
    ultimately show ?thesis by simp
  qed
qed

lemma map_page_returns:
  assumes inv: "user_inv P s (pml4_phys as)" and va: "va < 2 ^ 47" "va mod PAGE_SIZE = 0"
    and free: "4 \<le> card (free_set (frames s))" and un: "ubyte P as s va = None"
  shows "\<exists>s'. map_anon P as va 1 flags s = Some (Inr (), s')"
proof -
  have as: "as_inv P user_slots s (pml4_phys as)" using inv by (simp add: user_inv_def)
  have "free_set (frames s) \<noteq> {}" using free by auto
  then obtain phys fs where al: "alloc_frame (frames s) = Some (Some phys, fs)"
    using fa.alloc_some[OF as_inv_frames(1)[OF as]] by blast
  define s1 where "s1 = s\<lparr>frames := fs, ram := mem_fill (ram s) phys 0 PAGE_SIZE\<rparr>"
  note f = fresh_frame[OF inv al, folded s1_def]
  have as1: "as_inv P user_slots s1 (pml4_phys as)" using f(1) by (simp add: user_inv_def)
  have "card (free_set fs) = card (free_set (frames s)) - 1" using f(4,5) by simp
  then have three: "3 \<le> card (free_set (frames s1))" using free by (simp add: s1_def)
  have "\<not> present P (pte P (ram s1) (pml4_phys as) (page_path va))"
    using un ubyte_eq[OF as va(1)] f(6)[OF page_path_ok[OF user_slot[OF va(1)]]] by (auto simp: Let_def split: if_splits)
  moreover have "phys < 2 ^ 52" using f(3) by simp
  then obtain r s' where o: "map_4k P as va phys flags s1 = Some (r, s')"
      "map_outcome P user_slots (pml4_phys as) (page_path va) phys flags s1 (r, s')"
    using map_4k_outcome[OF as1 va(2) user_slot[OF va(1)] f(2), of flags] by auto
  ultimately have "r = Inr ()" using three by (cases r) (auto simp: map_outcome_def)
  with o(1) have "map_4k P as va phys flags s1 = Some (Inr (), s')" by simp
  moreover have "pml4_ref phys = Some phys" using f(3) by (simp add: pml4_ref_def u64_add_def HHDM_OFFSET_def)
  ultimately show ?thesis using al va(1) by (simp add: map_anon_def u64_mul_def u64_add_def s1_def)
qed

end

end
