(* ===== verification/Elf.thy ===== *)
theory Elf
  imports User_Space
begin

text \<open>
  The loader for user programs, \<open>kernel/src/fs/elf.rs\<close>. Parsing the file is the work of the crate \<open>xmas_elf\<close>: \<open>ElfFile::new\<close> is the argument
  \<open>E\<close>, and what it returns is the entry point and the program headers with, for each, whether its type is \<open>PT_LOAD\<close>.
\<close>

datatype ElfError = ElfParse | ElfMap | ElfCopy

record ProgramHeader64 =
  virtual_addr :: nat
  p_offset :: nat
  file_size :: nat
  mem_size :: nat
  p_flags :: u32

datatype ProgramHeader = Ph64 ProgramHeader64 | Ph32

record elf_file =
  entry_point :: nat
  program_iter :: "(bool \<times> ProgramHeader) list"

definition seg_flags :: "u32 \<Rightarrow> MapFlags" where
  "seg_flags flags =
     (let f = MF_USER;
          f = (if flags AND 2 \<noteq> 0 then f OR MF_WRITE else f)
      in (if flags AND 1 = 0 then f OR MF_NX else f))"

definition load_seg :: "x86_api \<Rightarrow> bytes \<Rightarrow> ProgramHeader64 \<Rightarrow> AddressSpace \<Rightarrow> vm_state \<Rightarrow> ((ElfError + unit) \<times> vm_state) may_stop" where
  "load_seg P input p as st =
     (let virt = virtual_addr p;
          aligned_virt = virt - virt mod PAGE_SIZE;
          page_off = virt - aligned_virt in
      do { n \<leftarrow> u64_add page_off (mem_size p);
           (r1, st1) \<leftarrow> map_anon P as aligned_virt (div_ceil n PAGE_SIZE) (seg_flags (p_flags p) OR MF_WRITE) st;
           (case r1 of Inl _ \<Rightarrow> Some (Inl ElfMap, st1) | Inr _ \<Rightarrow>
             do { (r2, st2) \<leftarrow> zero_user P as virt (mem_size p) st1;
                  (case r2 of Inl _ \<Rightarrow> Some (Inl ElfCopy, st2) | Inr _ \<Rightarrow>
                    do { fin \<leftarrow> u64_add (p_offset p) (file_size p);
                         if length input < fin then None
                         else do {
                           (r3, st3) \<leftarrow> copy_to_user P as virt (take (file_size p) (drop (p_offset p) input)) st2;
                           Some (case r3 of Inl _ \<Rightarrow> Inl ElfCopy | Inr _ \<Rightarrow> Inr (), st3) } }) }) })"

fun load_segs :: "x86_api \<Rightarrow> bytes \<Rightarrow> (bool \<times> ProgramHeader) list \<Rightarrow> AddressSpace \<Rightarrow> vm_state \<Rightarrow> ((ElfError + unit) \<times> vm_state) may_stop" where
  "load_segs P input [] as st = Some (Inr (), st)"
| "load_segs P input ((is_load, ph) # phs) as st =
     (if \<not> is_load then load_segs P input phs as st
      else (case ph of
          Ph64 p \<Rightarrow> do { (r, st1) \<leftarrow> load_seg P input p as st;
             (case r of Inl e \<Rightarrow> Some (Inl e, st1) | Inr _ \<Rightarrow> load_segs P input phs as st1) }
        | Ph32 \<Rightarrow> Some (Inl ElfParse, st)))"

definition elf_load :: "x86_api \<Rightarrow> (bytes \<Rightarrow> elf_file option) \<Rightarrow> bytes \<Rightarrow> AddressSpace \<Rightarrow> vm_state \<Rightarrow> ((ElfError + nat) \<times> vm_state) may_stop" where
  "elf_load P E input as st =
     (case E input of
        None \<Rightarrow> Some (Inl ElfParse, st)
      | Some elf \<Rightarrow> do { (r, st1) \<leftarrow> load_segs P input (program_iter elf) as st;
          Some (case r of Inl e \<Rightarrow> Inl e | Inr _ \<Rightarrow> Inr (entry_point elf), st1) })"

section \<open>One segment\<close>

definition seg_pages :: "ProgramHeader64 \<Rightarrow> nat \<Rightarrow> bool" where
  "seg_pages p w \<longleftrightarrow> virtual_addr p - virtual_addr p mod PAGE_SIZE \<le> w \<and>
     w < virtual_addr p - virtual_addr p mod PAGE_SIZE + div_ceil (virtual_addr p mod PAGE_SIZE + mem_size p) PAGE_SIZE * PAGE_SIZE"

definition seg_byte :: "bytes \<Rightarrow> ProgramHeader64 \<Rightarrow> nat \<Rightarrow> u8" where
  "seg_byte input p i = (if i < file_size p then input ! (p_offset p + i) else 0)"

text \<open>A program header that the ELF format allows, in the user half.\<close>

definition seg_ok :: "ProgramHeader64 \<Rightarrow> bool" where
  "seg_ok p \<longleftrightarrow> virtual_addr p + mem_size p \<le> 2 ^ 47 \<and> file_size p \<le> mem_size p"

lemma seg_pages_cover: "virtual_addr p \<le> w \<Longrightarrow> w < virtual_addr p + mem_size p \<Longrightarrow> seg_pages p w"
proof -
  let ?v = "virtual_addr p" and ?r = "virtual_addr p mod PAGE_SIZE"
  assume w: "?v \<le> w" "w < ?v + mem_size p"
  have "?r \<le> ?v" by simp
  moreover have "?r + mem_size p \<le> div_ceil (?r + mem_size p) PAGE_SIZE * PAGE_SIZE" by (rule div_ceil_bound) (simp add: PAGE_SIZE_def)
  ultimately show ?thesis using w unfolding seg_pages_def by linarith
qed

lemma seg_range:
  assumes "virtual_addr p + mem_size p \<le> 2 ^ 47"
  shows "virtual_addr p - virtual_addr p mod PAGE_SIZE + div_ceil (virtual_addr p mod PAGE_SIZE + mem_size p) PAGE_SIZE * PAGE_SIZE \<le> 2 ^ 47"
proof -
  let ?v = "virtual_addr p" and ?n = "div_ceil (virtual_addr p mod 4096 + mem_size p) 4096"
  have v: "?v = ?v div 4096 * 4096 + ?v mod 4096" by simp
  have "?v div 4096 + ?n \<le> 2 ^ 35"
  proof (rule ccontr)
    assume "\<not> ?v div 4096 + ?n \<le> 2 ^ 35"
    then have "2 ^ 35 - ?v div 4096 < ?n" "?v div 4096 \<le> 2 ^ 35" using assms by (auto simp: div_le_mono[of ?v "2 ^ 47" 4096, simplified])
    then have "(2 ^ 35 - ?v div 4096) * 4096 < ?v mod 4096 + mem_size p" using less_div_ceil_iff[of 4096] by simp
    moreover obtain k where k: "2 ^ 35 = ?v div 4096 + k" using \<open>?v div 4096 \<le> 2 ^ 35\<close> le_Suc_ex by blast
    ultimately have "k * 4096 < ?v mod 4096 + mem_size p" unfolding k by simp
    moreover have "?v div 4096 + k = 34359738368" "?v + mem_size p \<le> 140737488355328" using k assms by simp_all
    ultimately show False using v by linarith
  qed
  then have "(?v div 4096 + ?n) * 4096 \<le> 2 ^ 35 * 4096" by (rule mult_le_mono1)
  moreover have "?v - ?v mod 4096 = ?v div 4096 * 4096" using v by linarith
  ultimately show ?thesis by (simp add: PAGE_SIZE_def)
qed

context page_entries
begin

lemma load_seg_ok:
  assumes inv: "user_inv P s (pml4_phys as)" and ok: "seg_ok p" and run: "load_seg P input p as s = Some (Inr u, s')"
  shows "user_inv P s' (pml4_phys as)" and "p_offset p + file_size p \<le> length input"
    and "w < 2 ^ 47 \<Longrightarrow> seg_pages p w \<Longrightarrow> ubyte P as s w = None"
    and "w < 2 ^ 47 \<Longrightarrow> ubyte P as s' w =
      (if virtual_addr p \<le> w \<and> w < virtual_addr p + mem_size p then Some (seg_byte input p (w - virtual_addr p))
       else if seg_pages p w then Some 0 else ubyte P as s w)"
proof -
  let ?v = "virtual_addr p" and ?a = "virtual_addr p - virtual_addr p mod PAGE_SIZE"
  let ?n = "div_ceil (?v mod PAGE_SIZE + mem_size p) PAGE_SIZE" and ?bs = "take (file_size p) (drop (p_offset p) input)"
  have off: "?v - ?a = ?v mod PAGE_SIZE" by (simp add: PAGE_SIZE_def)
  obtain s1 s2 where r: "map_anon P as ?a ?n (seg_flags (p_flags p) OR MF_WRITE) s = Some (Inr (), s1)"
      "zero_user P as ?v (mem_size p) s1 = Some (Inr (), s2)" "p_offset p + file_size p \<le> length input"
      "copy_to_user P as ?v ?bs s2 = Some (Inr (), s')"
    using run unfolding load_seg_def Let_def off
    by (auto simp: checked_simps not_less split: bind_splits sum.splits if_splits)
  show len: "p_offset p + file_size p \<le> length input" by (rule r(3))
  have lb: "length ?bs = file_size p" using len by simp
  have v: "?v + mem_size p \<le> 2 ^ 47" "file_size p \<le> mem_size p" using ok by (simp_all add: seg_ok_def)
  have al: "?a mod PAGE_SIZE = 0" by (simp add: minus_mod_eq_mult_div)
  note m = map_anon_ok[OF inv al seg_range[OF v(1)] r(1)]
  have z: "user_inv P s2 (pml4_phys as)"
      "\<And>w. w < 2 ^ 47 \<Longrightarrow> ubyte P as s2 w = (if ?v \<le> w \<and> w < ?v + mem_size p then Some 0 else ubyte P as s1 w)"
    using copy_to_user_ok[OF m(1) _ r(2)[unfolded zero_user_eq]] v(1) by auto
  have vf: "?v + length ?bs \<le> 2 ^ 47" using v lb by linarith
  note c = copy_to_user_ok[OF z(1) vf r(4), unfolded lb]
  show "user_inv P s' (pml4_phys as)" by (rule c(1))
  show "ubyte P as s w = None" if "w < 2 ^ 47" "seg_pages p w" using m(2) that by (simp add: seg_pages_def)
  show "ubyte P as s' w =
      (if ?v \<le> w \<and> w < ?v + mem_size p then Some (seg_byte input p (w - ?v)) else if seg_pages p w then Some 0 else ubyte P as s w)"
    if w: "w < 2 ^ 47"
  proof -
    have m3: "ubyte P as s1 w = (if seg_pages p w then Some 0 else ubyte P as s w)" using m(3)[OF w] by (simp add: seg_pages_def)
    have "?bs ! (w - ?v) = input ! (p_offset p + (w - ?v))" if "w - ?v < file_size p" using that len by simp
    then show ?thesis using c(2)[OF w] z(2)[OF w] m3 v(2) by (auto simp: seg_byte_def)
  qed
qed

lemma load_segs_ok:
  assumes "user_inv P s (pml4_phys as)" and "\<forall>p. (True, Ph64 p) \<in> set phs \<longrightarrow> seg_ok p" and "load_segs P input phs as s = Some (Inr u, s')"
  shows "user_inv P s' (pml4_phys as) \<and> (\<forall>w < 2 ^ 47. ubyte P as s w \<noteq> None \<longrightarrow> ubyte P as s' w = ubyte P as s w) \<and>
    (\<forall>p i. (True, Ph64 p) \<in> set phs \<longrightarrow> i < mem_size p \<longrightarrow> ubyte P as s' (virtual_addr p + i) = Some (seg_byte input p i))"
  using assms
proof (induction phs arbitrary: s)
  case Nil
  then have "s' = s" by simp
  then show ?case using Nil.prems(1) by simp
next
  case (Cons h phs)
  obtain is_load ph where h: "h = (is_load, ph)" by (cases h)
  note prems = Cons.prems[unfolded h]
  show ?case
  proof (cases is_load)
    case False
    then show ?thesis using Cons.IH[of s] prems h by simp
  next
    case True
    then obtain p where ph: "ph = Ph64 p" using prems(3) by (cases ph) auto
    obtain s1 where r: "load_seg P input p as s = Some (Inr (), s1)" "load_segs P input phs as s1 = Some (Inr u, s')"
      using prems(3) True ph by (auto split: bind_splits sum.splits)
    have ok: "seg_ok p" using prems(2) True ph by simp
    note l = load_seg_ok[OF prems(1) ok r(1)]
    have IH: "user_inv P s' (pml4_phys as) \<and> (\<forall>w < 2 ^ 47. ubyte P as s1 w \<noteq> None \<longrightarrow> ubyte P as s' w = ubyte P as s1 w) \<and>
      (\<forall>p i. (True, Ph64 p) \<in> set phs \<longrightarrow> i < mem_size p \<longrightarrow> ubyte P as s' (virtual_addr p + i) = Some (seg_byte input p i))"
      using Cons.IH[OF l(1) _ r(2)] prems(2) by simp
    have keep: "ubyte P as s' w = ubyte P as s w" if w: "w < 2 ^ 47" "ubyte P as s w \<noteq> None" for w
    proof -
      have np: "\<not> seg_pages p w" using l(3)[OF w(1)] w(2) by argo
      then have "\<not> (virtual_addr p \<le> w \<and> w < virtual_addr p + mem_size p)" using seg_pages_cover[of p w] by argo
      then have e: "ubyte P as s1 w = ubyte P as s w" using l(4)[OF w(1)] np by argo
      moreover have "ubyte P as s1 w \<noteq> None \<longrightarrow> ubyte P as s' w = ubyte P as s1 w" using IH w(1) by blast
      ultimately show ?thesis using w(2) by argo
    qed
    have "ubyte P as s' (virtual_addr p + i) = Some (seg_byte input p i)" if "i < mem_size p" for i
    proof -
      have "virtual_addr p + i < 2 ^ 47" using ok that by (simp add: seg_ok_def)
      then show ?thesis using l(4)[of "virtual_addr p + i"] that IH by simp
    qed
    then have "ubyte P as s' (virtual_addr q + i) = Some (seg_byte input q i)" if "(True, Ph64 q) \<in> set (h # phs)" "i < mem_size q" for q i
      using that IH ph h by (cases "q = p") auto
    then show ?thesis using IH keep by blast
  qed
qed

end


section \<open>The whole program\<close>

text \<open>
  C38. A program that \<open>load\<close> accepts is in memory as its headers say. Every byte of every \<open>PT_LOAD\<close> segment reads, through the page tables
  of the new address space, as the byte of the file, or as zero beyond the file size; what was mapped before is unchanged; the result is
  the entry point. The segments are those the ELF format allows (file size at most memory size), in the user half.
\<close>

theorem elf_load_correct:
  assumes "x86_laws P" and "user_inv P s (pml4_phys as)" and "E input = Some elf"
    and "\<forall>p. (True, Ph64 p) \<in> set (program_iter elf) \<longrightarrow> seg_ok p"
    and "elf_load P E input as s = Some (Inr entry, s')"
  shows "entry = entry_point elf \<and> user_inv P s' (pml4_phys as) \<and>
    (\<forall>w < 2 ^ 47. ubyte P as s w \<noteq> None \<longrightarrow> ubyte P as s' w = ubyte P as s w) \<and>
    (\<forall>p i. (True, Ph64 p) \<in> set (program_iter elf) \<longrightarrow> i < mem_size p \<longrightarrow>
       ubyte P as s' (virtual_addr p + i) = Some (if i < file_size p then input ! (p_offset p + i) else 0))"
proof -
  have pe: "page_entries P" using assms(1) by (rule page_entries.intro)
  have r: "load_segs P input (program_iter elf) as s = Some (Inr (), s')" "entry = entry_point elf"
    using assms(3,5) by (auto simp: elf_load_def split: bind_splits sum.splits)
  show ?thesis using page_entries.load_segs_ok[OF pe assms(2,4) r(1)] r(2) unfolding seg_byte_def by blast
qed

definition demo_elf :: elf_file where
  "demo_elf = \<lparr>entry_point = 0x400001, program_iter = [(False, Ph32),
     (True, Ph64 \<lparr>virtual_addr = 0x400000, p_offset = 1, file_size = 2, mem_size = 3, p_flags = 5\<rparr>)]\<rparr>"

lemma demo_user_inv: "user_inv x86_impl demo_vm (pml4_phys demo_as)"
proof -
  have "\<not> data_page x86_impl demo_vm (pml4_phys demo_as) q f" for q f
    using demo_walk[of "pml4_phys demo_as"] by (simp add: data_page_def pte_def demo_vm_def split: option.splits)
  then show ?thesis using demo_as_inv[of user_slots] by (simp add: user_inv_def)
qed

definition demo_ph :: ProgramHeader64 where
  "demo_ph = \<lparr>virtual_addr = 0x400000, p_offset = 1, file_size = 2, mem_size = 3, p_flags = 5\<rparr>"

lemma demo_loads: "\<exists>s'. elf_load x86_impl (\<lambda>_. Some demo_elf) [1, 7, 9] demo_as demo_vm = Some (Inr 0x400001, s')"
proof -
  have four: "card (free_set (frames demo_vm)) = 4" by code_simp
  have "\<not> present x86_impl (pte x86_impl (ram demo_vm) (pml4_phys demo_as) (page_path 0x400000))"
    using demo_walk[of "pml4_phys demo_as"] by (simp add: pte_def demo_vm_def split: option.splits)
  then have "ubyte x86_impl demo_as demo_vm 0x400000 = None" using x86.ubyte_eq[of demo_vm demo_as "0x400000", OF demo_as_inv] by (simp add: Let_def)
  then obtain s1 where s1: "map_anon x86_impl demo_as 0x400000 1 (seg_flags 5 OR MF_WRITE) demo_vm = Some (Inr (), s1)"
    using x86.map_page_returns[OF demo_user_inv, of "0x400000"] four by (auto simp: PAGE_SIZE_def)
  note m = x86.map_anon_ok[OF demo_user_inv _ _ s1]
  have i1: "user_inv x86_impl s1 (pml4_phys demo_as)" by (rule m(1)) (simp_all add: PAGE_SIZE_def)
  have b1: "ubyte x86_impl demo_as s1 w = Some 0" if "0x400000 \<le> w" "w < 0x401000" for w
    using m(3)[of w] that by (simp add: PAGE_SIZE_def)
  obtain s2 where s2: "copy_to_user x86_impl demo_as 0x400000 (replicate 3 0) s1 = Some (Inr (), s2)"
    using x86.copy_loop_returns[OF i1, of "0x400000" "replicate 3 0" 0] b1 by (auto simp: copy_to_user_def)
  note c = x86.copy_to_user_ok[OF i1 _ s2]
  have i2: "user_inv x86_impl s2 (pml4_phys demo_as)" by (rule c(1)) simp
  have b2: "ubyte x86_impl demo_as s2 w \<noteq> None" if "0x400000 \<le> w" "w < 0x401000" for w
    using c(2)[of w] b1[OF that] that by simp
  obtain s3 where s3: "copy_to_user x86_impl demo_as 0x400000 [7, 9] s2 = Some (Inr (), s3)"
    using x86.copy_loop_returns[OF i2, of "0x400000" "[7, 9]" 0] b2 by (auto simp: copy_to_user_def)
  have "load_seg x86_impl [1, 7, 9] demo_ph demo_as demo_vm = Some (Inr (), s3)"
    using s1 s2 s3 by (simp add: load_seg_def demo_ph_def PAGE_SIZE_def u64_add_def div_ceil_def zero_user_eq)
  then show ?thesis by (simp add: elf_load_def demo_elf_def demo_ph_def)
qed

theorem elf_load_correct_witness:
  "\<exists>s'. elf_load x86_impl (\<lambda>_. Some demo_elf) [1, 7, 9] demo_as demo_vm = Some (Inr 0x400001, s') \<and>
     user_inv x86_impl s' (pml4_phys demo_as) \<and> ubyte x86_impl demo_as s' 0x400001 = Some 9 \<and> ubyte x86_impl demo_as s' 0x400002 = Some 0"
proof -
  obtain s' where s': "elf_load x86_impl (\<lambda>_. Some demo_elf) [1, 7, 9] demo_as demo_vm = Some (Inr 0x400001, s')" using demo_loads by blast
  have ok: "\<forall>p. (True, Ph64 p) \<in> set (program_iter demo_elf) \<longrightarrow> seg_ok p" by (simp add: demo_elf_def seg_ok_def)
  have mem: "(True, Ph64 demo_ph) \<in> set (program_iter demo_elf)" by (simp add: demo_elf_def demo_ph_def)
  note t = elf_load_correct[where E = "\<lambda>_. Some demo_elf", OF x86_impl_laws demo_user_inv refl ok s']
  have b: "ubyte x86_impl demo_as s' (virtual_addr demo_ph + i) = Some (if i < file_size demo_ph then [1, 7, 9] ! (p_offset demo_ph + i) else 0)"
    if "i < mem_size demo_ph" for i using t mem that by blast
  show ?thesis using s' t b[of 1] b[of 2] by (simp add: demo_ph_def)
qed

end
