(* ===== verification/Spec2Isabelle.thy ===== *)
theory Spec2Isabelle
  imports Ipc_Correct Display Vfs_Correct Ramfs_Correct Mkpondfs_Correct Context_Switch Elf
begin

text \<open>
  A verification library for personaOS, an x86-64 hobby operating system written in Rust.

  The theory \<open>Prelude\<close> fixes the machine types and the convention for operations that may abort.
\<close>

end
